(* ===== verification/Kprelude.thy ===== *)
theory Kprelude
  imports Main "HOL-Library.Word"
begin

text \<open>
  What every component of the development shares: names for the machine types of the
  i386 kernel, the error numbers of \<^verbatim>\<open>include/asm-i386/errno.h\<close>, the collections the
  component theories add their simplification rules to, and generic facts on flag words,
  on pages of an address and on lists.
\<close>

unbundle bit_operations_syntax

section \<open>Machine types\<close>

type_synonym u8 = "8 word"
type_synonym u16 = "16 word"
type_synonym u32 = "32 word"

section \<open>Error numbers\<close>

text \<open>A system call or driver entry point returns a C \<^verbatim>\<open>int\<close>: a count, or minus one of these.\<close>

abbreviation (input) EPERM :: int where "EPERM \<equiv> 1"
abbreviation (input) EINTR :: int where "EINTR \<equiv> 4"
abbreviation (input) EIO :: int where "EIO \<equiv> 5"
abbreviation (input) EAGAIN :: int where "EAGAIN \<equiv> 11"
abbreviation (input) EWOULDBLOCK :: int where "EWOULDBLOCK \<equiv> EAGAIN"
abbreviation (input) ENOMEM :: int where "ENOMEM \<equiv> 12"
abbreviation (input) EFAULT :: int where "EFAULT \<equiv> 14"
abbreviation (input) EBUSY :: int where "EBUSY \<equiv> 16"
abbreviation (input) ENODEV :: int where "ENODEV \<equiv> 19"
abbreviation (input) EINVAL :: int where "EINVAL \<equiv> 22"
abbreviation (input) ERESTARTSYS :: int where "ERESTARTSYS \<equiv> 512"

section \<open>Rule collections\<close>

named_theorems bus_simps \<open>how the accessors of the board bus rewrite\<close>
named_theorems flag_defs \<open>the numeric values of flag constants\<close>
named_theorems unit_frame \<open>which fields an operation leaves alone\<close>

section \<open>Flag words\<close>

lemma clear_and_mask [simp]: "((x :: 'a::len word) AND NOT m) AND m = 0"
  by (rule bit_word_eqI) (simp add: bit_simps)

lemma set_and_mask [simp]: "((x :: 'a::len word) OR m) AND m = m"
  by (rule bit_word_eqI) (auto simp: bit_simps)

lemma disjoint_bits: "(m :: 'a::len word) AND n = 0 \<Longrightarrow> bit m k \<Longrightarrow> \<not> bit n k"
  by (metis bit_0_eq bit_and_iff bot_apply bot_bool_def)

lemma set_and_other: "(m :: 'a::len word) AND n = 0 \<Longrightarrow> (x OR m) AND n = x AND n"
  by (rule bit_word_eqI) (auto simp: bit_simps dest: disjoint_bits)

lemma clear_and_other: "(m :: 'a::len word) AND n = 0 \<Longrightarrow> (x AND NOT m) AND n = x AND n"
  by (rule bit_word_eqI) (auto simp: bit_simps dest: disjoint_bits)

lemma replace_field: "((x :: 'a::len word) AND NOT m OR (c AND m)) AND m = c AND m"
  by (rule bit_word_eqI) (auto simp: bit_simps)

lemma replace_field_other:
  "(m :: 'a::len word) AND n = 0 \<Longrightarrow> (x AND NOT m OR (c AND m)) AND n = x AND n"
  by (rule bit_word_eqI) (auto simp: bit_simps dest: disjoint_bits)

lemma set_set_idem [simp]: "((x :: 'a::len word) OR m) OR m = x OR m"
  by (rule bit_word_eqI) (auto simp: bit_simps)

lemma clear_set_absorb: "((x :: 'a::len word) OR m) AND NOT m = x AND NOT m"
  by (rule bit_word_eqI) (auto simp: bit_simps)

lemma clear_none: "(x :: 'a::len word) AND m = 0 \<Longrightarrow> x AND NOT m = x"
  by (rule bit_word_eqI) (auto simp: bit_simps dest: disjoint_bits)

lemma bit_or_nonzero: "(m :: 'a::len word) AND n \<noteq> 0 \<Longrightarrow> (x OR m) AND n \<noteq> 0"
proof
  assume "m AND n \<noteq> 0" and z: "(x OR m) AND n = 0"
  then obtain k where "bit (m AND n) k" by (auto simp: bit_eq_iff)
  then have "bit ((x OR m) AND n) k" by (simp add: bit_simps)
  then show False by (simp add: z)
qed

lemma unat_drop_div: "unat (drop_bit n (w :: 'a::len word)) = unat w div 2 ^ n"
  by (metis unat_drop_bit_eq drop_bit_eq_div)

lemma unat_take_mod: "unat (take_bit n (w :: 'a::len word)) = unat w mod 2 ^ n"
  by (metis unsigned_take_bit_eq take_bit_eq_mod)

lemma unat_and_mask: "unat ((w :: 'a::len word) AND mask n) = unat w mod 2 ^ n"
  by (metis take_bit_eq_mask unat_take_mod)

lemma unat_u32_less: "unat (w :: u32) < 2 ^ 32"
  using unsigned_less [of w] by simp

lemma sint_nonneg: "0 \<le> sint (x :: u32) \<longleftrightarrow> unat x < 2 ^ 31"
  and sint_small: "unat x < 2 ^ 31 \<Longrightarrow> sint x = int (unat x)"
proof -
  have nn: "0 \<le> sint x \<longleftrightarrow> \<not> bit (unat x) 31"
    by (simp add: sint_uint bit_simps)
  moreover have b: "bit (unat x) 31 \<longleftrightarrow> 2 ^ 31 \<le> unat x"
  proof -
    have "unat x div 2 ^ 31 < 2"
      using unat_u32_less [of x] by (simp add: less_mult_imp_div_less)
    then have "odd (unat x div 2 ^ 31) \<longleftrightarrow> unat x div 2 ^ 31 \<noteq> 0"
      by (cases "unat x div 2 ^ 31") auto
    then show ?thesis unfolding bit_iff_odd by (simp add: div_eq_0_iff not_less)
  qed
  ultimately show "0 \<le> sint x \<longleftrightarrow> unat x < 2 ^ 31" by (simp add: not_le)
  assume small: "unat x < 2 ^ 31"
  then have nb: "\<not> bit (uint x) 31" using b by (simp add: bit_unsigned_iff)
  have "nat (uint x) < nat (2 ^ 31)" using small by (simp add: nat_power_eq)
  then have "uint x < 2 ^ 31" by (simp only: nat_less_eq_zless uint_ge_0)
  then have "take_bit 31 (uint x) = uint x" by (simp add: take_bit_int_eq_self)
  then have "sint x = uint x"
    using nb by (simp add: sint_uint signed_take_bit_eq_if_positive)
  then show "sint x = int (unat x)" by simp
qed

lemma unat_word_of_int:
  assumes "0 \<le> n" "n < 2 ^ 32"
  shows "unat (word_of_int n :: u32) = nat n"
proof -
  have "uint (word_of_int n :: u32) = take_bit LENGTH(32) n" by (rule uint_word_of_int_eq)
  also have "\<dots> = n mod 2 ^ 32" by (simp only: take_bit_eq_mod) simp
  also have "\<dots> = n" using assms by (rule mod_pos_pos_trivial)
  finally show ?thesis by (simp only: unat_eq_nat_uint)
qed

lemma unat_of_nat_small: "n < 2 ^ 32 \<Longrightarrow> unat (of_nat n :: u32) = n"
  by (simp add: unat_of_nat take_bit_nat_eq_self)

section \<open>Pages\<close>

text \<open>\<^verbatim>\<open>include/asm-i386/page.h\<close>: 4 KiB pages, \<^verbatim>\<open>PAGE_OFFSET\<close> 0.\<close>

definition PAGE_SIZE :: u32 where "PAGE_SIZE = 0x1000"

definition PAGE_MASK :: u32 where "PAGE_MASK = NOT (PAGE_SIZE - 1)"

definition PAGE_ALIGN :: "u32 \<Rightarrow> u32" where
  "PAGE_ALIGN addr = (addr + PAGE_SIZE - 1) AND PAGE_MASK"

definition MAP_NR :: "u32 \<Rightarrow> u32" where
  "MAP_NR addr = drop_bit 12 addr"

lemma page_split: "(addr AND PAGE_MASK) + (addr AND NOT PAGE_MASK) = addr"
proof -
  have "(addr AND PAGE_MASK) + (addr AND NOT PAGE_MASK)
      = (addr AND PAGE_MASK) OR (addr AND NOT PAGE_MASK)"
    by (rule disjunctive_add) (auto simp: bit_simps)
  also have "\<dots> = addr"
    by (rule bit_word_eqI) (auto simp: bit_simps)
  finally show ?thesis .
qed

section \<open>Lists\<close>

lemma nth_map_upt [simp]: "i < n \<Longrightarrow> map f [0..<n] ! i = f i"
  by simp

lemma take_map_upt: "k \<le> n \<Longrightarrow> take k (map f [0..<n]) = map f [0..<k]"
  by (simp add: take_map)

end
