(* ===== verification/Mrp_Board.thy ===== *)
theory Mrp_Board
  imports Kprelude
begin

text \<open>
  The MRP board of the PlayStation 2 TOOL as its drivers see it: the register block
  \<^verbatim>\<open>struct mrpregs\<close>, the two bridge registers of \<^verbatim>\<open>struct base0\<close> and the FIFO port of
  \<^verbatim>\<open>struct base2\<close> (\<^verbatim>\<open>include/linux/ps2mrp-psnet.h\<close>, \<^verbatim>\<open>include/linux/ps2mrp.h\<close>). All of them
  are device memory: a read returns what the hardware answers. The hardware is not part of
  the sources, so it is a parameter of the model, a function from the history of bus
  accesses to the next answer. Every access the driver makes is recorded in the history,
  and what a driver does to the board is what it appends there.
\<close>

section \<open>Registers and bus accesses\<close>

datatype mreg =
    BID | RST | CPS | CPR | FST | TXC | RXC | F1C
  | IST | ISP | IER | CSI | FSI | AEO | AFO

datatype idkreg = IDK4C | IDK50

datatype ioev =
    Rd16 mreg u16
  | Wr16 mreg u16
  | Rd32 idkreg u32
  | Wr32 idkreg u32
  | FifoIn u32
  | FifoOut u32

text \<open>Most recent access first.\<close>

type_synonym bus = "ioev list"

record mrp_dev =
  dev16 :: "bus \<Rightarrow> mreg \<Rightarrow> u16"
  dev32 :: "bus \<Rightarrow> idkreg \<Rightarrow> u32"
  devfifo :: "bus \<Rightarrow> u32"

definition rd16 :: "mrp_dev \<Rightarrow> mreg \<Rightarrow> bus \<Rightarrow> u16 \<times> bus" where
  "rd16 dev r h = (let v = dev16 dev h r in (v, Rd16 r v # h))"

definition wr16 :: "mreg \<Rightarrow> u16 \<Rightarrow> bus \<Rightarrow> bus" where
  "wr16 r v h = Wr16 r v # h"

definition rd32 :: "mrp_dev \<Rightarrow> idkreg \<Rightarrow> bus \<Rightarrow> u32 \<times> bus" where
  "rd32 dev r h = (let v = dev32 dev h r in (v, Rd32 r v # h))"

definition wr32 :: "idkreg \<Rightarrow> u32 \<Rightarrow> bus \<Rightarrow> bus" where
  "wr32 r v h = Wr32 r v # h"

definition rdfifo :: "mrp_dev \<Rightarrow> bus \<Rightarrow> u32 \<times> bus" where
  "rdfifo dev h = (let v = devfifo dev h in (v, FifoIn v # h))"

definition wrfifo :: "u32 \<Rightarrow> bus \<Rightarrow> bus" where
  "wrfifo v h = FifoOut v # h"

text \<open>
  The compound assignments of the sources: \<^verbatim>\<open>reg |= m\<close> and \<^verbatim>\<open>reg &= m\<close> read the register and
  write it back.
\<close>

definition or16 :: "mrp_dev \<Rightarrow> mreg \<Rightarrow> u16 \<Rightarrow> bus \<Rightarrow> bus" where
  "or16 dev r m h = (case rd16 dev r h of (v, h') \<Rightarrow> wr16 r (v OR m) h')"

definition and16 :: "mrp_dev \<Rightarrow> mreg \<Rightarrow> u16 \<Rightarrow> bus \<Rightarrow> bus" where
  "and16 dev r m h = (case rd16 dev r h of (v, h') \<Rightarrow> wr16 r (v AND m) h')"

definition or32 :: "mrp_dev \<Rightarrow> idkreg \<Rightarrow> u32 \<Rightarrow> bus \<Rightarrow> bus" where
  "or32 dev r m h = (case rd32 dev r h of (v, h') \<Rightarrow> wr32 r (v OR m) h')"

definition and32 :: "mrp_dev \<Rightarrow> idkreg \<Rightarrow> u32 \<Rightarrow> bus \<Rightarrow> bus" where
  "and32 dev r m h = (case rd32 dev r h of (v, h') \<Rightarrow> wr32 r (v AND m) h')"

section \<open>What a history says\<close>

text \<open>The value last written to a register, if the history has a write to it.\<close>

fun lastw :: "mreg \<Rightarrow> bus \<Rightarrow> u16 option" where
  "lastw r [] = None"
| "lastw r (Wr16 q v # h) = (if q = r then Some v else lastw r h)"
| "lastw r (Rd16 q v # h) = lastw r h"
| "lastw r (Rd32 q w # h) = lastw r h"
| "lastw r (Wr32 q w # h) = lastw r h"
| "lastw r (FifoIn w # h) = lastw r h"
| "lastw r (FifoOut w # h) = lastw r h"

fun lastw32 :: "idkreg \<Rightarrow> bus \<Rightarrow> u32 option" where
  "lastw32 r [] = None"
| "lastw32 r (Wr32 q v # h) = (if q = r then Some v else lastw32 r h)"
| "lastw32 r (Wr16 q v # h) = lastw32 r h"
| "lastw32 r (Rd16 q v # h) = lastw32 r h"
| "lastw32 r (Rd32 q w # h) = lastw32 r h"
| "lastw32 r (FifoIn w # h) = lastw32 r h"
| "lastw32 r (FifoOut w # h) = lastw32 r h"

text \<open>The words pushed through the FIFO port, oldest first, and the words taken from it.\<close>

fun fifo_sent :: "bus \<Rightarrow> u32 list" where
  "fifo_sent [] = []"
| "fifo_sent (FifoOut w # h) = fifo_sent h @ [w]"
| "fifo_sent (FifoIn w # h) = fifo_sent h"
| "fifo_sent (Rd16 q v # h) = fifo_sent h"
| "fifo_sent (Wr16 q v # h) = fifo_sent h"
| "fifo_sent (Rd32 q w # h) = fifo_sent h"
| "fifo_sent (Wr32 q w # h) = fifo_sent h"

fun fifo_taken :: "bus \<Rightarrow> u32 list" where
  "fifo_taken [] = []"
| "fifo_taken (FifoIn w # h) = fifo_taken h @ [w]"
| "fifo_taken (FifoOut w # h) = fifo_taken h"
| "fifo_taken (Rd16 q v # h) = fifo_taken h"
| "fifo_taken (Wr16 q v # h) = fifo_taken h"
| "fifo_taken (Rd32 q w # h) = fifo_taken h"
| "fifo_taken (Wr32 q w # h) = fifo_taken h"

text \<open>
  The writes of a history, oldest first: the part of the access sequence that can change
  the board.
\<close>

fun is_write :: "ioev \<Rightarrow> bool" where
  "is_write (Wr16 r v) = True"
| "is_write (Wr32 r v) = True"
| "is_write (FifoOut v) = True"
| "is_write (Rd16 r v) = False"
| "is_write (Rd32 r v) = False"
| "is_write (FifoIn v) = False"

definition writes :: "bus \<Rightarrow> ioev list" where
  "writes h = rev (filter is_write h)"

text \<open>The values written to one register, oldest first.\<close>

fun writes_to :: "mreg \<Rightarrow> bus \<Rightarrow> u16 list" where
  "writes_to r [] = []"
| "writes_to r (Wr16 q v # h) = (if q = r then writes_to r h @ [v] else writes_to r h)"
| "writes_to r (Rd16 q v # h) = writes_to r h"
| "writes_to r (Rd32 q w # h) = writes_to r h"
| "writes_to r (Wr32 q w # h) = writes_to r h"
| "writes_to r (FifoIn w # h) = writes_to r h"
| "writes_to r (FifoOut w # h) = writes_to r h"

lemma lastw_writes_to: "lastw r h = (if writes_to r h = [] then None else Some (last (writes_to r h)))"
  by (induction r h rule: lastw.induct) auto

lemma fifo_sent_of_writes:
  assumes "writes h = writes g"
  shows "fifo_sent h = fifo_sent g"
proof -
  define pick where "pick = (\<lambda>e. case e of FifoOut w \<Rightarrow> [w] | _ \<Rightarrow> [])"
  have "fifo_sent h = concat (map pick (writes h))" for h
  proof (induction h)
    case (Cons e h)
    then show ?case by (cases e) (simp_all add: writes_def pick_def)
  qed (simp add: writes_def)
  then show ?thesis using assms by simp
qed

lemma writes_to_of_writes:
  assumes "writes h = writes g"
  shows "writes_to r h = writes_to r g"
proof -
  define pick where "pick = (\<lambda>e. case e of Wr16 q v \<Rightarrow> if q = r then [v] else [] | _ \<Rightarrow> [])"
  have "writes_to r h = concat (map pick (writes h))" for h
  proof (induction h)
    case (Cons e h)
    then show ?case by (cases e) (simp_all add: writes_def pick_def)
  qed (simp add: writes_def)
  then show ?thesis using assms by simp
qed

lemmas bus_defs =
  rd16_def wr16_def rd32_def wr32_def rdfifo_def wrfifo_def
  or16_def and16_def or32_def and32_def Let_def

lemma fst_rd16 [bus_simps]: "fst (rd16 dev r h) = dev16 dev h r"
  by (simp add: rd16_def Let_def)

lemma snd_rd16 [bus_simps]: "snd (rd16 dev r h) = Rd16 r (dev16 dev h r) # h"
  by (simp add: rd16_def Let_def)

lemma lastw_or16 [bus_simps]:
  "lastw q (or16 dev r m h) = (if q = r then Some (dev16 dev h r OR m) else lastw q h)"
  by (simp add: bus_defs)

lemma lastw_and16 [bus_simps]:
  "lastw q (and16 dev r m h) = (if q = r then Some (dev16 dev h r AND m) else lastw q h)"
  by (simp add: bus_defs)

lemma lastw_wr16 [bus_simps]: "lastw q (wr16 r v h) = (if q = r then Some v else lastw q h)"
  by (simp add: wr16_def)

lemma lastw_32 [bus_simps]:
  "lastw q (or32 dev r32 m32 h) = lastw q h"
  "lastw q (and32 dev r32 m32 h) = lastw q h"
  "lastw q (wr32 r32 v32 h) = lastw q h"
  "lastw q (snd (rd32 dev r32 h)) = lastw q h"
  by (simp_all add: bus_defs)

lemma fifo_regs [bus_simps]:
  "fifo_sent (or16 dev r m h) = fifo_sent h"
  "fifo_sent (and16 dev r m h) = fifo_sent h"
  "fifo_sent (wr16 r v h) = fifo_sent h"
  "fifo_sent (wrfifo w h) = fifo_sent h @ [w]"
  by (simp_all add: bus_defs)

lemma writes_reads [bus_simps]:
  "writes (Rd16 r v # h) = writes h"
  "writes (Rd32 q w # h) = writes h"
  "writes (FifoIn w # h) = writes h"
  by (simp_all add: writes_def)

lemma writes_simps [bus_simps]:
  "writes (or16 dev r m h) = writes h @ [Wr16 r (dev16 dev h r OR m)]"
  "writes (and16 dev r m h) = writes h @ [Wr16 r (dev16 dev h r AND m)]"
  "writes (wr16 r v h) = writes h @ [Wr16 r v]"
  "writes (wr32 q w h) = writes h @ [Wr32 q w]"
  "writes (wrfifo w h) = writes h @ [FifoOut w]"
  by (simp_all add: bus_defs writes_def)

section \<open>Reading all registers\<close>

text \<open>
  \<^verbatim>\<open>mrp_dump_regs\<close> of \<^verbatim>\<open>ps2mrp-psnet.c\<close> prints every register at debug level 3 and above. The
  text goes to the kernel log; what matters to the board is that each register is read once,
  in the order of the argument lists.
\<close>

definition dump_order :: "mreg list" where
  "dump_order = [BID, RST, CPS, CPR, FST, TXC, RXC, F1C, IST, ISP, IER, CSI, FSI, AEO, AFO]"

definition rd_all :: "mrp_dev \<Rightarrow> mreg list \<Rightarrow> bus \<Rightarrow> bus" where
  "rd_all dev rs h = fold (\<lambda>r h. snd (rd16 dev r h)) rs h"

definition mrp_dump_regs :: "mrp_dev \<Rightarrow> int \<Rightarrow> bus \<Rightarrow> bus" where
  "mrp_dump_regs dev mrp_debug h = (if mrp_debug \<ge> 3 then rd_all dev dump_order h else h)"

lemma writes_rd_all [bus_simps]: "writes (rd_all dev rs h) = writes h"
  by (induction rs arbitrary: h) (simp_all add: rd_all_def bus_simps)

lemma lastw_rd_all [bus_simps]: "lastw q (rd_all dev rs h) = lastw q h"
  by (induction rs arbitrary: h) (simp_all add: rd_all_def bus_simps)

lemma writes_dump_regs [bus_simps]: "writes (mrp_dump_regs dev d h) = writes h"
  by (simp add: mrp_dump_regs_def bus_simps)

lemma lastw_dump_regs [bus_simps]: "lastw q (mrp_dump_regs dev d h) = lastw q h"
  by (simp add: mrp_dump_regs_def bus_simps)

end
