(* ===== verification/Timers.thy ===== *)
theory Timers
  imports Kprelude
begin

text \<open>
  The kernel's timer lists, \<^verbatim>\<open>kernel/sched.c\<close> lines 738 to 904: five vectors of lists
  (\<^verbatim>\<open>tv1\<close> with 256 slots of one tick each, \<^verbatim>\<open>tv2\<close> to \<^verbatim>\<open>tv5\<close> with 64 slots of ever longer
  spans), cascaded towards \<^verbatim>\<open>tv1\<close> as \<^verbatim>\<open>timer_jiffies\<close> advances. A timer object is named
  by a number and its fields are kept in a table; a slot is the list of the timers linked
  into it, head first. A timer whose \<^verbatim>\<open>next\<close> and \<^verbatim>\<open>prev\<close> are null is in no slot.
\<close>

section \<open>State\<close>

text \<open>\<^verbatim>\<open>struct timer_list\<close>; the function pointer is a function number.\<close>

record timer_list =
  expires :: u32
  data :: u32
  tfunction :: nat

datatype tv = TV1 | TV2 | TV3 | TV4 | TV5

text \<open>
  \<^verbatim>\<open>struct timer_vec\<close> and \<^verbatim>\<open>struct timer_vec_root\<close>, one index and one array of lists per
  vector, and \<^verbatim>\<open>timer_jiffies\<close>. The field \<^verbatim>\<open>tself\<close> holds the timers that the last branch of
  \<^verbatim>\<open>internal_add_timer\<close> links to themselves.
\<close>

record timer_base =
  tobj :: "nat \<Rightarrow> timer_list"
  tvec :: "tv \<Rightarrow> nat \<Rightarrow> nat list"
  tindex :: "tv \<Rightarrow> nat"
  tself :: "nat list"
  timer_jiffies :: u32

definition TVR_SIZE :: nat where "TVR_SIZE = 256"
definition TVN_SIZE :: nat where "TVN_SIZE = 64"

text \<open>All vectors empty, all indices 0: the static initialisers.\<close>

definition empty_base :: "(nat \<Rightarrow> timer_list) \<Rightarrow> timer_base" where
  "empty_base objs = \<lparr>tobj = objs, tvec = (\<lambda>_ _. []), tindex = (\<lambda>_. 0), tself = [],
     timer_jiffies = 0\<rparr>"

definition slots :: "tv \<Rightarrow> nat list" where
  "slots l = (if l = TV1 then [0..<TVR_SIZE] else [0..<TVN_SIZE])"

definition tvecs :: "tv list" where
  "tvecs = [TV1, TV2, TV3, TV4, TV5]"

definition pending :: "timer_base \<Rightarrow> nat \<Rightarrow> bool" where
  "pending b t = (t \<in> set (tself b) \<or>
     list_ex (\<lambda>l. list_ex (\<lambda>i. t \<in> set (tvec b l i)) (slots l)) tvecs)"

section \<open>Operations\<close>

definition insert_timer :: "nat \<Rightarrow> tv \<Rightarrow> nat \<Rightarrow> timer_base \<Rightarrow> timer_base" where
  "insert_timer t l idx b = b\<lparr>tvec := (tvec b)(l := (tvec b l)(idx := t # tvec b l idx))\<rparr>"

definition internal_add_timer :: "nat \<Rightarrow> timer_base \<Rightarrow> timer_base" where
  "internal_add_timer t b =
     (let e = expires (tobj b t);
          idx = e - timer_jiffies b
      in if idx < 256 then insert_timer t TV1 (unat (e AND 255)) b
         else if idx < push_bit (8 + 6) 1 then insert_timer t TV2 (unat (drop_bit 8 e AND 63)) b
         else if idx < push_bit (8 + 2 * 6) 1
           then insert_timer t TV3 (unat (drop_bit (8 + 6) e AND 63)) b
         else if idx < push_bit (8 + 3 * 6) 1
           then insert_timer t TV4 (unat (drop_bit (8 + 2 * 6) e AND 63)) b
         else if e < timer_jiffies b then insert_timer t TV1 (tindex b TV1) b
         else if idx < 0xffffffff then insert_timer t TV5 (unat (drop_bit (8 + 3 * 6) e AND 63)) b
         else b\<lparr>tself := t # tself b\<rparr>)"

definition add_timer :: "nat \<Rightarrow> timer_base \<Rightarrow> timer_base" where
  "add_timer t b = internal_add_timer t b"

text \<open>
  Unlinking closes the list over the timer, whichever slot it is in; the result says whether
  its \<^verbatim>\<open>prev\<close> was set. Both callers then clear \<^verbatim>\<open>next\<close> and \<^verbatim>\<open>prev\<close>. A timer that is added while
  it is pending would be in two lists over one pair of pointers and corrupt them; the lists here keep both entries and lose
  both. The two agree when no timer is added while it is pending, which the code leaves to its
  callers (\<^verbatim>\<open>add_timer\<close> does not test it in this configuration).
\<close>

definition detach_timer :: "nat \<Rightarrow> timer_base \<Rightarrow> bool \<times> timer_base" where
  "detach_timer t b =
     (pending b t,
      b\<lparr>tvec := (\<lambda>l i. removeAll t (tvec b l i)), tself := removeAll t (tself b)\<rparr>)"

definition del_timer :: "nat \<Rightarrow> timer_base \<Rightarrow> int \<times> timer_base" where
  "del_timer t b = (let (ret, b') = detach_timer t b in (if ret then 1 else 0, b'))"

text \<open>
  Every timer of the vector's current slot is added again, relative to the present
  \<^verbatim>\<open>timer_jiffies\<close>; then the slot is cleared and the index moves on.
\<close>

definition cascade_timers :: "tv \<Rightarrow> timer_base \<Rightarrow> timer_base" where
  "cascade_timers l b =
     (let b1 = fold internal_add_timer (tvec b l (tindex b l)) b;
          b2 = b1\<lparr>tvec := (tvec b1)(l := (tvec b1 l)(tindex b1 l := []))\<rparr>
      in b2\<lparr>tindex := (tindex b2)(l := (tindex b2 l + 1) mod TVN_SIZE)\<rparr>)"

text \<open>
  The \<^verbatim>\<open>do ... while (tvecs[n]->index == 1 && ++n < NOOF_TVECS)\<close> loop of \<^verbatim>\<open>run_timer_list\<close>, over the
  vectors that are left.
\<close>

fun cascade_loop :: "tv list \<Rightarrow> timer_base \<Rightarrow> timer_base" where
  "cascade_loop [] b = b"
| "cascade_loop (l # ls) b =
     (let b' = cascade_timers l b
      in if tindex b' l = 1 then cascade_loop ls b' else b')"

definition cascade_if_wrapped :: "timer_base \<Rightarrow> timer_base" where
  "cascade_if_wrapped b =
     (if tindex b TV1 = 0 then cascade_loop [TV2, TV3, TV4, TV5] b else b)"

definition next_tick :: "timer_base \<Rightarrow> timer_base" where
  "next_tick b = b\<lparr>timer_jiffies := timer_jiffies b + 1,
     tindex := (tindex b)(TV1 := (tindex b TV1 + 1) mod TVR_SIZE)\<rparr>"

text \<open>
  A timer function may do anything to the timers and to the rest of the kernel state, so
  \<^verbatim>\<open>call\<close> is a parameter. Both loops of \<^verbatim>\<open>run_timer_list\<close> can run forever for a bad \<^verbatim>\<open>call\<close> (a
  function that re-adds its timer in the past): not returning is \<^verbatim>\<open>None\<close>. \<^verbatim>\<open>jiffies\<close> is a
  part of the kernel state, read again in every round.
\<close>

type_synonym 'k tstate = "timer_base \<times> 'k"
type_synonym 'k tcall = "nat \<Rightarrow> u32 \<Rightarrow> 'k tstate \<Rightarrow> 'k tstate"

partial_function (option) run_slot :: "'k tcall \<Rightarrow> 'k tstate \<Rightarrow> 'k tstate option" where
  "run_slot call s =
     (case tvec (fst s) TV1 (tindex (fst s) TV1) of
        [] \<Rightarrow> Some s
      | t # _ \<Rightarrow>
          run_slot call
            (call (tfunction (tobj (fst s) t)) (data (tobj (fst s) t))
               (snd (detach_timer t (fst s)), snd s)))"

partial_function (option) run_timer_list ::
    "('k \<Rightarrow> u32) \<Rightarrow> 'k tcall \<Rightarrow> 'k tstate \<Rightarrow> 'k tstate option" where
  "run_timer_list jiffies call s =
     (if sint (jiffies (snd s) - timer_jiffies (fst s)) \<ge> 0
      then Option.bind (run_slot call (cascade_if_wrapped (fst s), snd s))
             (\<lambda>s'. run_timer_list jiffies call (next_tick (fst s'), snd s'))
      else Some s)"

section \<open>Which timers are linked\<close>

definition index_ok :: "timer_base \<Rightarrow> bool" where
  "index_ok b \<longleftrightarrow> tindex b TV1 < TVR_SIZE \<and> (\<forall>l \<in> set tvecs. l \<noteq> TV1 \<longrightarrow> tindex b l < TVN_SIZE)"

lemma tvecs_UNIV: "set tvecs = UNIV"
proof -
  have "l \<in> set tvecs" for l :: tv
    by (cases l) (simp_all add: tvecs_def)
  then show ?thesis by blast
qed

lemma pending_iff:
  "pending b t \<longleftrightarrow> t \<in> set (tself b) \<or> (\<exists>l. \<exists>i \<in> set (slots l). t \<in> set (tvec b l i))"
  by (auto simp: pending_def list_ex_iff tvecs_UNIV)

lemma index_ok_iff: "index_ok b \<longleftrightarrow> (\<forall>l. tindex b l \<in> set (slots l))"
  by (auto simp: index_ok_def slots_def tvecs_UNIV split: if_splits)

lemma insert_timer_simps [simp]:
  "tobj (insert_timer t l i b) = tobj b"
  "tindex (insert_timer t l i b) = tindex b"
  "tself (insert_timer t l i b) = tself b"
  "timer_jiffies (insert_timer t l i b) = timer_jiffies b"
  by (simp_all add: insert_timer_def)

lemma tvec_insert_timer:
  "tvec (insert_timer t l i b) k j = (if k = l \<and> j = i then t # tvec b l i else tvec b k j)"
  by (simp add: insert_timer_def)

lemma pending_insert_timer:
  "i \<in> set (slots l) \<Longrightarrow> pending (insert_timer t l i b) u \<longleftrightarrow> u = t \<or> pending b u"
  by (auto simp: pending_iff tvec_insert_timer)

lemma slot_bounds:
  "unat ((x :: u32) AND 255) \<in> set (slots TV1)"
  "l \<noteq> TV1 \<Longrightarrow> unat ((x :: u32) AND 63) \<in> set (slots l)"
proof -
  have "x AND 255 = x AND mask 8" "x AND 63 = x AND mask 6"
    by (simp_all add: mask_eq_exp_minus_1)
  then show "unat (x AND 255) \<in> set (slots TV1)"
    and "l \<noteq> TV1 \<Longrightarrow> unat (x AND 63) \<in> set (slots l)"
    by (simp_all only: unat_and_mask slots_def TVR_SIZE_def TVN_SIZE_def) simp_all
qed

lemma internal_add_timer_simps [simp]:
  "tobj (internal_add_timer t b) = tobj b"
  "tindex (internal_add_timer t b) = tindex b"
  "timer_jiffies (internal_add_timer t b) = timer_jiffies b"
  by (simp_all add: internal_add_timer_def Let_def)

lemma pending_internal_add_timer:
  assumes "index_ok b"
  shows "pending (internal_add_timer t b) u \<longleftrightarrow> u = t \<or> pending b u"
proof -
  have "tindex b TV1 \<in> set (slots TV1)"
    using assms by (simp add: index_ok_iff)
  moreover have "pending (b\<lparr>tself := t # tself b\<rparr>) u \<longleftrightarrow> u = t \<or> pending b u"
    by (auto simp: pending_iff)
  ultimately show ?thesis
    by (simp add: internal_add_timer_def Let_def pending_insert_timer slot_bounds)
qed

lemma pending_detach_timer: "pending (snd (detach_timer t b)) u \<longleftrightarrow> u \<noteq> t \<and> pending b u"
  by (auto simp: detach_timer_def pending_iff)

lemma detach_timer_simps [simp]:
  "tobj (snd (detach_timer t b)) = tobj b"
  "tindex (snd (detach_timer t b)) = tindex b"
  "timer_jiffies (snd (detach_timer t b)) = timer_jiffies b"
  by (simp_all add: detach_timer_def)

section \<open>The service a driver uses\<close>

text \<open>
  What a driver relies on: a timer that was added is pending until it is deleted, and adding or
  deleting one timer leaves the others alone.
\<close>

locale timer_service =
  fixes add :: "nat \<Rightarrow> 'b \<Rightarrow> 'b"
    and del :: "nat \<Rightarrow> 'b \<Rightarrow> int \<times> 'b"
    and pend :: "'b \<Rightarrow> nat \<Rightarrow> bool"
    and ok :: "'b \<Rightarrow> bool"
  assumes pend_add: "ok b \<Longrightarrow> pend (add t b) u \<longleftrightarrow> u = t \<or> pend b u"
    and pend_del: "ok b \<Longrightarrow> pend (snd (del t b)) u \<longleftrightarrow> u \<noteq> t \<and> pend b u"
    and del_result: "ok b \<Longrightarrow> fst (del t b) = (if pend b t then 1 else 0)"
    and ok_add: "ok b \<Longrightarrow> ok (add t b)"
    and ok_del: "ok b \<Longrightarrow> ok (snd (del t b))"
begin

text \<open>Deleting a timer that was just added succeeds, and deleting it again finds nothing.\<close>

lemma add_del: "ok b \<Longrightarrow> fst (del t (add t b)) = 1"
  by (simp add: del_result ok_add pend_add)

lemma del_del: "ok b \<Longrightarrow> fst (del t (snd (del t b))) = 0"
  by (simp add: del_result ok_del pend_del)

text \<open>Re-arming (delete, then add) is idempotent on the set of pending timers.\<close>

lemma rearm_pending: "ok b \<Longrightarrow> pend (add t (snd (del t b))) u \<longleftrightarrow> u = t \<or> pend b u"
  by (auto simp: pend_add pend_del ok_del)

end

interpretation wheel: timer_service add_timer del_timer pending index_ok
  by unfold_locales
    (auto simp: add_timer_def del_timer_def pending_internal_add_timer detach_timer_def
       pending_detach_timer [unfolded detach_timer_def, simplified] index_ok_def)

end
