(* ===== verification/Devices.thy ===== *)
theory Devices
  imports Kprelude
begin

text \<open>
  The device switch of \<^verbatim>\<open>fs/devices.c\<close>: two tables of 128 entries that map a major number to
  a driver name and its file operations, with registration, unregistration and lookup. The
  contract of one table is a locale, and both tables are shown to meet it.
\<close>

section \<open>State\<close>

text \<open>\<^verbatim>\<open>struct device_struct\<close>; a file operations table is named by a number, and null is \<^verbatim>\<open>None\<close>.\<close>

record device_struct =
  dname :: "string option"
  dfops :: "nat option"

type_synonym devtab = "nat \<Rightarrow> device_struct"

record devices =
  chrdevs :: devtab
  blkdevs :: devtab

definition MAX_CHRDEV :: nat where "MAX_CHRDEV = 128"
definition MAX_BLKDEV :: nat where "MAX_BLKDEV = 128"

definition no_device :: device_struct where
  "no_device = \<lparr>dname = None, dfops = None\<rparr>"

definition empty_devices :: devices where
  "empty_devices = \<lparr>chrdevs = (\<lambda>_. no_device), blkdevs = (\<lambda>_. no_device)\<rparr>"

section \<open>Operations\<close>

text \<open>
  \<^verbatim>\<open>get_fops\<close> in a kernel without \<^verbatim>\<open>CONFIG_KERNELD\<close>; the bound is checked before the table is
  read.
\<close>

definition get_fops :: "nat \<Rightarrow> nat \<Rightarrow> devtab \<Rightarrow> nat option" where
  "get_fops major maxdev tb = (if major < maxdev then dfops (tb major) else None)"

definition get_blkfops :: "nat \<Rightarrow> devices \<Rightarrow> nat option" where
  "get_blkfops major d = get_fops major MAX_BLKDEV (blkdevs d)"

definition get_chrfops :: "nat \<Rightarrow> nat \<Rightarrow> devices \<Rightarrow> nat option" where
  "get_chrfops major minor d = get_fops major MAX_CHRDEV (chrdevs d)"

text \<open>The search \<^verbatim>\<open>for (major = MAX-1; major > 0; major--)\<close> for an entry with no operations.\<close>

fun free_major :: "devtab \<Rightarrow> nat \<Rightarrow> nat option" where
  "free_major tb 0 = None"
| "free_major tb (Suc n) = (if dfops (tb (Suc n)) = None then Some (Suc n) else free_major tb n)"

definition set_device :: "nat \<Rightarrow> string \<Rightarrow> nat option \<Rightarrow> devtab \<Rightarrow> devtab" where
  "set_device major nm fops tb = tb(major := \<lparr>dname = Some nm, dfops = fops\<rparr>)"

definition register_chrdev :: "nat \<Rightarrow> string \<Rightarrow> nat option \<Rightarrow> devices \<Rightarrow> int \<times> devices" where
  "register_chrdev major nm fops d =
     (if major = 0 then
        (case free_major (chrdevs d) (MAX_CHRDEV - 1) of
           Some m \<Rightarrow> (int m, d\<lparr>chrdevs := set_device m nm fops (chrdevs d)\<rparr>)
         | None \<Rightarrow> (- EBUSY, d))
      else if major \<ge> MAX_CHRDEV then (- EINVAL, d)
      else if dfops (chrdevs d major) \<noteq> None \<and> dfops (chrdevs d major) \<noteq> fops then (- EBUSY, d)
      else (0, d\<lparr>chrdevs := set_device major nm fops (chrdevs d)\<rparr>))"

definition register_blkdev :: "nat \<Rightarrow> string \<Rightarrow> nat option \<Rightarrow> devices \<Rightarrow> int \<times> devices" where
  "register_blkdev major nm fops d =
     (if major = 0 then
        (case free_major (blkdevs d) (MAX_BLKDEV - 1) of
           Some m \<Rightarrow> (int m, d\<lparr>blkdevs := set_device m nm fops (blkdevs d)\<rparr>)
         | None \<Rightarrow> (- EBUSY, d))
      else if major \<ge> MAX_BLKDEV then (- EINVAL, d)
      else if dfops (blkdevs d major) \<noteq> None \<and> dfops (blkdevs d major) \<noteq> fops then (- EBUSY, d)
      else (0, d\<lparr>blkdevs := set_device major nm fops (blkdevs d)\<rparr>))"

definition unregister_chrdev :: "nat \<Rightarrow> string \<Rightarrow> devices \<Rightarrow> int \<times> devices" where
  "unregister_chrdev major nm d =
     (if major \<ge> MAX_CHRDEV then (- EINVAL, d)
      else if dfops (chrdevs d major) = None then (- EINVAL, d)
      else if dname (chrdevs d major) \<noteq> Some nm then (- EINVAL, d)
      else (0, d\<lparr>chrdevs := (chrdevs d)(major := no_device)\<rparr>))"

definition unregister_blkdev :: "nat \<Rightarrow> string \<Rightarrow> devices \<Rightarrow> int \<times> devices" where
  "unregister_blkdev major nm d =
     (if major \<ge> MAX_BLKDEV then (- EINVAL, d)
      else if dfops (blkdevs d major) = None then (- EINVAL, d)
      else if dname (blkdevs d major) \<noteq> Some nm then (- EINVAL, d)
      else (0, d\<lparr>blkdevs := (blkdevs d)(major := no_device)\<rparr>))"

section \<open>The search for a free major\<close>

lemma free_major_SomeD:
  "free_major tb n = Some m \<Longrightarrow> 0 < m \<and> m \<le> n \<and> dfops (tb m) = None"
  by (induction n) (auto split: if_splits)

lemma free_major_highest:
  "free_major tb n = Some m \<Longrightarrow> m < k \<Longrightarrow> k \<le> n \<Longrightarrow> dfops (tb k) \<noteq> None"
  by (induction n) (auto simp: le_Suc_eq split: if_splits)

lemma free_major_None: "free_major tb n = None \<longleftrightarrow> (\<forall>k. 0 < k \<and> k \<le> n \<longrightarrow> dfops (tb k) \<noteq> None)"
  by (induction n) (auto simp: le_Suc_eq)

section \<open>The contract of a device table\<close>

text \<open>
  A client of the switch sees a lookup, a registration and an unregistration on one table. It
  relies on four laws: a successful registration is found under the major it got, it disturbs
  no other major, dynamic majors are positive and were free, and unregistering under the
  registered name frees the major again.
\<close>

locale device_switch =
  fixes lookup :: "nat \<Rightarrow> devices \<Rightarrow> nat option"
    and register :: "nat \<Rightarrow> string \<Rightarrow> nat option \<Rightarrow> devices \<Rightarrow> int \<times> devices"
    and unregister :: "nat \<Rightarrow> string \<Rightarrow> devices \<Rightarrow> int \<times> devices"
  assumes dynamic_free:
      "register 0 nm fops d = (r, d') \<Longrightarrow> r > 0 \<Longrightarrow> lookup (nat r) d = None"
    and dynamic_found:
      "register 0 nm fops d = (r, d') \<Longrightarrow> r > 0 \<Longrightarrow> lookup (nat r) d' = fops"
    and dynamic_other:
      "register 0 nm fops d = (r, d') \<Longrightarrow> int k \<noteq> r \<Longrightarrow> lookup k d' = lookup k d"
    and dynamic_failed:
      "register 0 nm fops d = (r, d') \<Longrightarrow> r \<le> 0 \<Longrightarrow> d' = d"
    and unregister_back:
      "register 0 nm (Some f) d = (r, d') \<Longrightarrow> r > 0 \<Longrightarrow>
         fst (unregister (nat r) nm d') = 0 \<and>
         (\<forall>k. lookup k (snd (unregister (nat r) nm d')) = lookup k d)"
begin

text \<open>
  Two drivers that both ask for a dynamic major get different ones, and both stay reachable.
\<close>

lemma two_drivers:
  assumes r1: "register 0 n1 (Some f1) d = (m1, d1)" "m1 > 0"
    and r2: "register 0 n2 (Some f2) d1 = (m2, d2)" "m2 > 0"
  shows "m1 \<noteq> m2 \<and> lookup (nat m1) d2 = Some f1 \<and> lookup (nat m2) d2 = Some f2"
proof -
  have found1: "lookup (nat m1) d1 = Some f1" using dynamic_found r1 by blast
  have free2: "lookup (nat m2) d1 = None" using dynamic_free r2 by blast
  have ne: "m1 \<noteq> m2" using found1 free2 by auto
  have "lookup (nat m1) d2 = Some f1"
    using dynamic_other [OF r2(1), of "nat m1"] ne r1(2) found1 by simp
  moreover have "lookup (nat m2) d2 = Some f2" using dynamic_found r2 by blast
  ultimately show ?thesis using ne by blast
qed

end

lemmas chrdev_defs =
  register_chrdev_def unregister_chrdev_def get_chrfops_def get_fops_def set_device_def
  MAX_CHRDEV_def no_device_def

lemmas blkdev_defs =
  register_blkdev_def unregister_blkdev_def get_blkfops_def get_fops_def set_device_def
  MAX_BLKDEV_def no_device_def

interpretation chr: device_switch "\<lambda>k. get_chrfops k 0" register_chrdev unregister_chrdev
  by unfold_locales
    (auto simp: chrdev_defs split: option.splits if_splits dest!: free_major_SomeD)

interpretation blk: device_switch get_blkfops register_blkdev unregister_blkdev
  by unfold_locales
    (auto simp: blkdev_defs split: option.splits if_splits dest!: free_major_SomeD)

end
