(* ===== verification/Pci_Env.thy ===== *)
theory Pci_Env
  imports Kprelude
begin

text \<open>
  What the board drivers call at initialisation: the PCI BIOS, the page-mapping service and
  interrupt registration. The PCI BIOS is firmware, so its answers are a parameter of the
  model; a call that fails is \<^verbatim>\<open>None\<close>. \<^verbatim>\<open>vremap\<close> and \<^verbatim>\<open>request_irq\<close> appear to the drivers only
  through their results, which are parameters as well.
\<close>

record pci_env =
  pcibios_present :: bool
  pcibios_find_device :: "nat \<Rightarrow> (u8 \<times> u8) option"
  pcibios_read_config_dword :: "u8 \<Rightarrow> u8 \<Rightarrow> u8 \<Rightarrow> u32 option"
  pcibios_read_config_byte :: "u8 \<Rightarrow> u8 \<Rightarrow> u8 \<Rightarrow> u8 option"
  high_memory :: u32
  vremap :: "u32 \<Rightarrow> u32 \<Rightarrow> u32"

definition PCI_BASE_ADDRESS_0 :: u8 where "PCI_BASE_ADDRESS_0 = 0x10"
definition PCI_BASE_ADDRESS_2 :: u8 where "PCI_BASE_ADDRESS_2 = 0x18"
definition PCI_BASE_ADDRESS_3 :: u8 where "PCI_BASE_ADDRESS_3 = 0x1c"
definition PCI_BASE_ADDRESS_4 :: u8 where "PCI_BASE_ADDRESS_4 = 0x20"
definition PCI_INTERRUPT_LINE :: u8 where "PCI_INTERRUPT_LINE = 0x3c"
definition PCI_BASE_ADDRESS_MEM_MASK :: u32 where "PCI_BASE_ADDRESS_MEM_MASK = NOT 0x0f"

lemmas pci_consts =
  PCI_BASE_ADDRESS_0_def PCI_BASE_ADDRESS_2_def PCI_BASE_ADDRESS_3_def PCI_BASE_ADDRESS_4_def
  PCI_INTERRUPT_LINE_def PCI_BASE_ADDRESS_MEM_MASK_def

text \<open>
  \<^verbatim>\<open>vremap\<close> maps whole pages: the address it returns for a page is a window on that page, so
  that an offset into the window reaches the same offset of the physical page. \<^verbatim>\<open>window k\<close> says
  that the window of every page lies \<^verbatim>\<open>k\<close> above it.
\<close>

definition window :: "u32 \<Rightarrow> pci_env \<Rightarrow> bool" where
  "window k env \<longleftrightarrow> (\<forall>page n. page AND NOT PAGE_MASK = 0 \<longrightarrow> vremap env page n = k + page)"

lemma PAGE_ALIGN_aligned: "PAGE_ALIGN addr AND NOT PAGE_MASK = 0"
  unfolding PAGE_ALIGN_def by (rule bit_word_eqI) (simp add: bit_simps)

lemma page_mask_aligned: "(addr AND PAGE_MASK) AND NOT PAGE_MASK = 0"
  by (rule bit_word_eqI) (simp add: bit_simps)

lemma page_offset_take: "addr AND NOT PAGE_MASK = take_bit 12 addr"
proof -
  have "NOT PAGE_MASK = mask 12"
    by (simp add: PAGE_MASK_def PAGE_SIZE_def mask_eq_exp_minus_1)
  then show ?thesis
    by (simp add: take_bit_eq_mask)
qed

lemma page_offset_unat: "unat (addr AND NOT PAGE_MASK) = unat addr mod 4096"
  using unat_take_mod [of 12 addr] by (simp add: page_offset_take)

lemma page_mask_push: "addr AND PAGE_MASK = push_bit 12 (drop_bit 12 addr)"
proof -
  have "PAGE_MASK = NOT (mask 12)"
    by (simp add: PAGE_MASK_def PAGE_SIZE_def mask_eq_exp_minus_1)
  moreover have "addr AND NOT (mask 12) = push_bit 12 (drop_bit 12 addr)"
    by (rule bit_word_eqI) (auto simp: bit_simps)
  ultimately show ?thesis by simp
qed

lemma page_mask_inj: "a AND PAGE_MASK = b AND PAGE_MASK \<longleftrightarrow> drop_bit 12 a = drop_bit 12 b"
proof -
  have "drop_bit 12 (push_bit 12 (drop_bit 12 x)) = drop_bit 12 x" for x :: u32
    by (rule bit_word_eqI) (auto simp: bit_simps dest: bit_imp_le_length)
  then show ?thesis
    by (metis page_mask_push)
qed

lemma round_up_nat:
  fixes n m :: nat
  assumes "n < 4096 * m" and "1 < m"
  shows "((n + 4095) mod (4096 * m)) div 4096 = n div 4096 \<longleftrightarrow> n mod 4096 = 0"
proof -
  define q r where "q = n div 4096" and "r = n mod 4096"
  have n: "n = 4096 * q + r"
    by (simp add: q_def r_def)
  have q: "q < m"
    using assms(1) by (simp add: q_def less_mult_imp_div_less mult.commute)
  have "((n + 4095) mod (4096 * m)) div 4096 = ((n + 4095) div 4096) mod m"
    by (simp add: mod_mult2_eq)
  also have "(n + 4095) div 4096 = q + (r + 4095) div 4096"
    using n by simp
  also have "(r + 4095) div 4096 = (if r = 0 then 0 else 1)"
    using mod_less_divisor [of 4096 n] by (auto simp: r_def div_nat_eqI)
  finally have "((n + 4095) mod (4096 * m)) div 4096 = (if r = 0 then q else (q + 1) mod m)"
    using q by simp
  moreover have "(q + 1) mod m \<noteq> q"
    using q assms(2) by (simp add: mod_Suc)
  ultimately show ?thesis
    by (simp add: q_def r_def)
qed

text \<open>Rounding up and adding the page offset back reaches the address only if there was nothing to round.\<close>

lemma align_plus_offset:
  "PAGE_ALIGN addr + (addr AND NOT PAGE_MASK) = addr \<longleftrightarrow> addr AND NOT PAGE_MASK = 0"
proof -
  have align: "PAGE_ALIGN addr = (addr + 4095) AND PAGE_MASK"
    by (simp add: PAGE_ALIGN_def PAGE_SIZE_def add.commute)
  have bound: "unat addr < 2 ^ 32"
    by (rule unat_u32_less)
  have "PAGE_ALIGN addr + (addr AND NOT PAGE_MASK) = addr
      \<longleftrightarrow> (addr + 4095) AND PAGE_MASK = addr AND PAGE_MASK"
    using page_split [of addr] align by (metis add_right_cancel)
  also have "\<dots> \<longleftrightarrow> unat (addr + 4095) div 2 ^ 12 = unat addr div 2 ^ 12"
    unfolding page_mask_inj unat_drop_div [symmetric] by (simp only: word_unat_eq_iff)
  also have "unat (addr + 4095) = (unat addr + 4095) mod 2 ^ 32"
    by (simp add: unat_word_ariths)
  also have "((unat addr + 4095) mod 2 ^ 32) div 2 ^ 12 = unat addr div 2 ^ 12
      \<longleftrightarrow> unat addr mod 4096 = 0"
    using round_up_nat [of "unat addr" "2 ^ 20"] bound by simp
  also have "\<dots> \<longleftrightarrow> addr AND NOT PAGE_MASK = 0"
    by (simp only: page_offset_unat [symmetric] unat_eq_zero)
  finally show ?thesis .
qed

end
