(* ===== verification/Powctrl.thy ===== *)
theory Powctrl
  imports Mrp_Board Timers Devices Pci_Env
begin

text \<open>
  The power control driver \<^verbatim>\<open>drivers/char/ps2powctrl.c\<close>: it answers the power button of the
  PlayStation 2 TOOL. A timer polls the control register F1C every half second, blinks the
  front LED and stops polling when the board asserts a power-off request; an ioctl interface
  sets the LED, queries the status and requests the power-off; \<^verbatim>\<open>sys_reboot\<close> calls the two
  power-off entry points. \<^verbatim>\<open>printk\<close> output and \<^verbatim>\<open>udelay\<close> are left out; every register access
  is kept.
\<close>

section \<open>State\<close>

text \<open>
  The static variables of the file, with the fields of the driver's \<^verbatim>\<open>struct mrp_unit\<close> that it
  uses (mapped addresses, 0 for null). \<^verbatim>\<open>pbus\<close> is the access history of its board.
\<close>

record powctrl =
  powctrl_dbglevel :: int
  powctrl_major :: int
  powctrl_timer_enable :: u32
  powctrl_blink :: int
  powctrl_blkcnt :: int
  powctrl_color :: u32
  pbase0 :: u32
  pbase2 :: u32
  pmrpregs :: u32
  pirq :: u32
  pflags :: u32
  puse :: int
  pbus :: bus

definition POWCTRL_DBG_NORMAL :: int where "POWCTRL_DBG_NORMAL = 1"

text \<open>The values the static initialisers give.\<close>

definition powctrl_static :: powctrl where
  "powctrl_static = \<lparr>powctrl_dbglevel = POWCTRL_DBG_NORMAL, powctrl_major = 0,
     powctrl_timer_enable = 0, powctrl_blink = 0, powctrl_blkcnt = 0, powctrl_color = 0,
     pbase0 = 0, pbase2 = 0, pmrpregs = 0, pirq = 0, pflags = 0, puse = 0, pbus = []\<rparr>"

definition MRP_TIMER_UNIT :: u32 where "MRP_TIMER_UNIT = 100 div 2"
definition LED_BLINK_WAIT_HIGH :: int where "LED_BLINK_WAIT_HIGH = 1"
definition LED_BLINK_OFF :: int where "LED_BLINK_OFF = 0"
definition MRP_POWEROFF_REQ :: u16 where "MRP_POWEROFF_REQ = push_bit 10 1"
definition MRP_POWEROFF_ACK :: u16 where "MRP_POWEROFF_ACK = push_bit 3 1"
definition MRP_SHUTDOWN_REQ :: u16 where "MRP_SHUTDOWN_REQ = push_bit 2 1"
definition MRP_TLED_MASK :: u16 where "MRP_TLED_MASK = 3"
definition MRP_TLED_ORANGE :: u32 where "MRP_TLED_ORANGE = 0"
definition MRP_TLED_OFF :: u16 where "MRP_TLED_OFF = 3"
definition MRPF_DETECT :: u32 where "MRPF_DETECT = 1"

lemmas powctrl_consts [flag_defs] =
  MRP_TIMER_UNIT_def LED_BLINK_WAIT_HIGH_def LED_BLINK_OFF_def MRP_POWEROFF_REQ_def
  MRP_POWEROFF_ACK_def MRP_SHUTDOWN_REQ_def MRP_TLED_MASK_def MRP_TLED_ORANGE_def
  MRP_TLED_OFF_def MRPF_DETECT_def POWCTRL_DBG_NORMAL_def

text \<open>The driver's one timer object and the number of its handler.\<close>

definition powctrl_timer :: nat where "powctrl_timer = 1"
definition POWCTRL_OBSERVE :: nat where "POWCTRL_OBSERVE = 1"

section \<open>Register helpers\<close>

definition powctrl_get_f1c :: "mrp_dev \<Rightarrow> powctrl \<Rightarrow> u16 \<times> powctrl" where
  "powctrl_get_f1c dev s = (case rd16 dev F1C (pbus s) of (v, h) \<Rightarrow> (v, s\<lparr>pbus := h\<rparr>))"

definition powctrl_set_f1c :: "u16 \<Rightarrow> powctrl \<Rightarrow> powctrl" where
  "powctrl_set_f1c v s = s\<lparr>pbus := wr16 F1C v (pbus s)\<rparr>"

definition powctrl_set_color :: "mrp_dev \<Rightarrow> u16 \<Rightarrow> powctrl \<Rightarrow> powctrl" where
  "powctrl_set_color dev color s =
     (let (temp, s) = powctrl_get_f1c dev s;
          temp = temp AND NOT MRP_TLED_MASK;
          temp = temp OR (color AND MRP_TLED_MASK)
      in powctrl_set_f1c temp s)"

definition powctrl_turn_tled :: "mrp_dev \<Rightarrow> powctrl \<Rightarrow> powctrl" where
  "powctrl_turn_tled dev s =
     (let (v, s) = powctrl_get_f1c dev s;
          color = v AND MRP_TLED_MASK
      in if ucast color \<noteq> powctrl_color s then powctrl_set_color dev (ucast (powctrl_color s)) s
         else powctrl_set_color dev MRP_TLED_OFF s)"

definition powctrl_poweroff_ack :: "mrp_dev \<Rightarrow> bool \<Rightarrow> powctrl \<Rightarrow> powctrl" where
  "powctrl_poweroff_ack dev acknak s =
     (let (bid, h) = rd16 dev BID (pbus s);
          s = s\<lparr>pbus := h\<rparr>
      in if bid \<noteq> 0x4126 then s
         else let (temp, s) = powctrl_get_f1c dev s;
                  temp = (if acknak then temp OR MRP_POWEROFF_ACK else temp AND NOT MRP_POWEROFF_ACK)
              in powctrl_set_f1c temp s)"

text \<open>The counting loops of \<^verbatim>\<open>powctrl_poweroff_request\<close> only burn time; the last read is kept.\<close>

definition powctrl_poweroff_request :: "mrp_dev \<Rightarrow> powctrl \<Rightarrow> powctrl" where
  "powctrl_poweroff_request dev s =
     (let (temp, s) = powctrl_get_f1c dev s;
          temp = temp OR MRP_SHUTDOWN_REQ;
          s = powctrl_set_f1c temp s;
          s = s\<lparr>powctrl_timer_enable := 1\<rparr>
      in snd (powctrl_get_f1c dev s))"

definition powctrl_system_poweroff :: "mrp_dev \<Rightarrow> powctrl \<Rightarrow> powctrl" where
  "powctrl_system_poweroff dev s = powctrl_poweroff_ack dev False s"

definition powctrl_reset_mrp :: "powctrl \<Rightarrow> powctrl" where
  "powctrl_reset_mrp s =
     (let h = wr16 RST 0x8000 (pbus s);
          h = wr16 FST 0xc0c0 h;
          h = wr16 FST 0 h;
          h = wr16 RST 0 h
      in s\<lparr>pbus := h\<rparr>)"

definition powctrl_reset_pif :: "mrp_dev \<Rightarrow> powctrl \<Rightarrow> powctrl" where
  "powctrl_reset_pif dev s =
     (let (temp, h) = rd32 dev IDK50 (pbus s);
          temp = temp AND NOT 0x20;
          temp = temp OR 0x40000000;
          h = wr32 IDK50 temp h;
          temp = temp AND NOT 0x40000000;
          h = wr32 IDK50 temp h;
          (temp, h) = rd32 dev IDK4C h;
          temp = temp OR 0x40;
          h = wr32 IDK4C temp h
      in s\<lparr>pbus := h\<rparr>)"

text \<open>
  All of these go through the pointers \<^verbatim>\<open>mrp_unit.mrpregs\<close> and \<^verbatim>\<open>mrp_unit.base0\<close>. The driver itself uses them only once the windows
  are mapped: \<^verbatim>\<open>powctrl_init\<close> comes to the first access behind the mapping, and the device and the timer exist only
  after it (lemma \<^verbatim>\<open>reach_alive\<close> below). The system call \<^verbatim>\<open>sys_reboot\<close> uses three of them without asking whether there is a board. These
  are the three as that caller sees them: \<^verbatim>\<open>None\<close> is the access through the null pointer.
\<close>

definition windows_mapped :: "powctrl \<Rightarrow> bool" where
  "windows_mapped s \<longleftrightarrow> pbase0 s \<noteq> 0 \<and> pmrpregs s \<noteq> 0"

definition call_reset_pif :: "mrp_dev \<Rightarrow> powctrl \<Rightarrow> powctrl option" where
  "call_reset_pif dev s = (if pbase0 s = 0 then None else Some (powctrl_reset_pif dev s))"

definition call_poweroff_request :: "mrp_dev \<Rightarrow> powctrl \<Rightarrow> powctrl option" where
  "call_poweroff_request dev s = (if pmrpregs s = 0 then None else Some (powctrl_poweroff_request dev s))"

definition call_system_poweroff :: "mrp_dev \<Rightarrow> powctrl \<Rightarrow> powctrl option" where
  "call_system_poweroff dev s = (if pmrpregs s = 0 then None else Some (powctrl_system_poweroff dev s))"

section \<open>The polling timer\<close>

text \<open>Filling in the timer object and linking it: the last four lines of \<^verbatim>\<open>powctrl_observe_status\<close>.\<close>

definition powctrl_arm :: "u32 \<Rightarrow> timer_base \<Rightarrow> timer_base" where
  "powctrl_arm jiffies b =
     add_timer powctrl_timer
       (b\<lparr>tobj := (tobj b)(powctrl_timer :=
          \<lparr>expires = jiffies + MRP_TIMER_UNIT, data = 0, tfunction = POWCTRL_OBSERVE\<rparr>)\<rparr>)"

definition powctrl_blink_step :: "mrp_dev \<Rightarrow> powctrl \<Rightarrow> powctrl" where
  "powctrl_blink_step dev s =
     (if powctrl_blink s \<noteq> 0 then
        (if powctrl_blkcnt s \<ge> powctrl_blink s
         then (powctrl_turn_tled dev s)\<lparr>powctrl_blkcnt := 0\<rparr>
         else s\<lparr>powctrl_blkcnt := powctrl_blkcnt s + 1\<rparr>)
      else s\<lparr>powctrl_blkcnt := 0\<rparr>)"

definition powctrl_observe_status ::
    "mrp_dev \<Rightarrow> u32 \<Rightarrow> timer_base \<times> powctrl \<Rightarrow> timer_base \<times> powctrl" where
  "powctrl_observe_status dev jiffies bs =
     (let (b, s) = bs
      in if powctrl_timer_enable s \<noteq> 0 then
           let s = powctrl_reset_pif dev s;
               s = powctrl_blink_step dev s;
               (temp, s) = powctrl_get_f1c dev s
           in if temp AND MRP_POWEROFF_REQ \<noteq> 0 then (b, s)
              else (powctrl_arm jiffies b, s)
         else (powctrl_arm jiffies b, s))"

section \<open>The ioctl interface\<close>

text \<open>The command encoding of \<^verbatim>\<open>include/asm-i386/ioctl.h\<close>.\<close>

definition IOC_DIR :: "u32 \<Rightarrow> u32" where "IOC_DIR nr = drop_bit 30 nr AND 3"
definition IOC_TYPE :: "u32 \<Rightarrow> u32" where "IOC_TYPE nr = drop_bit 8 nr AND 0xff"
definition IOC_NR :: "u32 \<Rightarrow> u32" where "IOC_NR nr = nr AND 0xff"
definition IOC_SIZE :: "u32 \<Rightarrow> u32" where "IOC_SIZE nr = drop_bit 16 nr AND 0x3fff"
definition IOC_WRITE :: u32 where "IOC_WRITE = 1"
definition IOC_READ :: u32 where "IOC_READ = 2"

definition IOC :: "u32 \<Rightarrow> u32 \<Rightarrow> u32 \<Rightarrow> u32 \<Rightarrow> u32" where
  "IOC dir typ nr sz = push_bit 30 dir OR push_bit 8 typ OR nr OR push_bit 16 sz"

definition POWCTRL_IOC_MAGIC :: u32 where "POWCTRL_IOC_MAGIC = 0x62"
definition POWCTRL_IOC_MAXNR :: u32 where "POWCTRL_IOC_MAXNR = 8"
definition POWCTRL_IOCPOWEROFF :: u32 where "POWCTRL_IOCPOWEROFF = IOC 0 POWCTRL_IOC_MAGIC 3 0"
definition POWCTRL_IOCPOWSTAT :: u32 where "POWCTRL_IOCPOWSTAT = IOC 0 POWCTRL_IOC_MAGIC 4 0"
definition POWCTRL_IOCTIMER :: u32 where
  "POWCTRL_IOCTIMER = IOC IOC_WRITE POWCTRL_IOC_MAGIC 5 2"
definition POWCTRL_IOC_TLED_COLOR :: u32 where
  "POWCTRL_IOC_TLED_COLOR = IOC IOC_WRITE POWCTRL_IOC_MAGIC 6 2"
definition POWCTRL_IOC_TLED_BLINK :: u32 where
  "POWCTRL_IOC_TLED_BLINK = IOC IOC_WRITE POWCTRL_IOC_MAGIC 7 2"
definition POWCTRL_IOCPOWDBG :: u32 where
  "POWCTRL_IOCPOWDBG = IOC IOC_WRITE POWCTRL_IOC_MAGIC 8 4"

lemmas ioc_defs [flag_defs] =
  IOC_DIR_def IOC_TYPE_def IOC_NR_def IOC_SIZE_def IOC_WRITE_def IOC_READ_def IOC_def
  POWCTRL_IOC_MAGIC_def POWCTRL_IOC_MAXNR_def POWCTRL_IOCPOWEROFF_def POWCTRL_IOCPOWSTAT_def
  POWCTRL_IOCTIMER_def POWCTRL_IOC_TLED_COLOR_def POWCTRL_IOC_TLED_BLINK_def
  POWCTRL_IOCPOWDBG_def

text \<open>
  The calling process: what \<^verbatim>\<open>verify_area\<close> answers for its address space (0 or a negative
  error, for a read or a write check) and its memory, read as the C types the driver copies.
  For the commands that copy, the check before the switch is the one \<^verbatim>\<open>copy_from_user\<close> makes
  again.
\<close>

record user_space =
  verify_read :: "u32 \<Rightarrow> u32 \<Rightarrow> int"
  verify_write :: "u32 \<Rightarrow> u32 \<Rightarrow> int"
  user16 :: "u32 \<Rightarrow> u16"
  user32 :: "u32 \<Rightarrow> u32"

definition powctrl_ioctl ::
    "mrp_dev \<Rightarrow> user_space \<Rightarrow> u32 \<Rightarrow> u32 \<Rightarrow> powctrl \<Rightarrow> int \<times> powctrl" where
  "powctrl_ioctl dev us cmd arg s =
     (let sz = IOC_SIZE cmd;
          r = (if IOC_DIR cmd AND IOC_READ \<noteq> 0 then verify_write us arg sz
               else if IOC_DIR cmd AND IOC_WRITE \<noteq> 0 then verify_read us arg sz
               else 0)
      in if IOC_TYPE cmd \<noteq> POWCTRL_IOC_MAGIC then (- EINVAL, s)
         else if IOC_NR cmd > POWCTRL_IOC_MAXNR then (- EINVAL, s)
         else if r \<noteq> 0 then (r, s)
         else
           let s = (if powctrl_timer_enable s \<noteq> 0 then powctrl_reset_pif dev s else s)
           in if cmd = POWCTRL_IOCPOWEROFF then (0, powctrl_poweroff_request dev s)
              else if cmd = POWCTRL_IOCPOWSTAT then
                (if powctrl_timer_enable s \<noteq> 0
                 then let (v, s) = powctrl_get_f1c dev s in (int (unat v), s)
                 else (- 1, s))
              else if cmd = POWCTRL_IOCTIMER then
                let rslt = int (unat (powctrl_timer_enable s));
                    s = s\<lparr>powctrl_timer_enable := (if user16 us arg \<noteq> 0 then 1 else 0)\<rparr>
                in (rslt, powctrl_reset_pif dev s)
              else if cmd = POWCTRL_IOC_TLED_COLOR then
                let rslt = int (unat (powctrl_color s));
                    s = s\<lparr>powctrl_blink := LED_BLINK_OFF, powctrl_blkcnt := 0,
                          powctrl_color := ucast (user16 us arg AND MRP_TLED_MASK)\<rparr>
                in (rslt, powctrl_set_color dev (ucast (powctrl_color s)) s)
              else if cmd = POWCTRL_IOC_TLED_BLINK then
                let rslt = powctrl_blink s;
                    s = s\<lparr>powctrl_blink := LED_BLINK_WAIT_HIGH, powctrl_blkcnt := 0,
                          powctrl_color := ucast (user16 us arg AND MRP_TLED_MASK)\<rparr>
                in (rslt, powctrl_set_color dev (ucast (powctrl_color s)) s)
              else if cmd = POWCTRL_IOCPOWDBG then
                (powctrl_dbglevel s, s\<lparr>powctrl_dbglevel := sint (user32 us arg)\<rparr>)
              else (- EINVAL, s))"

definition powctrl_open :: "powctrl \<Rightarrow> int \<times> powctrl" where
  "powctrl_open s = (0, s\<lparr>puse := puse s + 1\<rparr>)"

definition powctrl_release :: "powctrl \<Rightarrow> powctrl" where
  "powctrl_release s = s\<lparr>puse := puse s - 1\<rparr>"

section \<open>Initialisation\<close>

definition powctrl_base :: "pci_env \<Rightarrow> u8 \<Rightarrow> u8 \<Rightarrow> u8 \<Rightarrow> u32" where
  "powctrl_base env bs dev_fn where' =
     (case pcibios_read_config_dword env bs dev_fn where' of
        None \<Rightarrow> 0
      | Some val \<Rightarrow> if val AND 7 = 0 then val AND PCI_BASE_ADDRESS_MEM_MASK else 0)"

definition powctrl_remap :: "pci_env \<Rightarrow> u32 \<Rightarrow> u32" where
  "powctrl_remap env base =
     (if MAP_NR base < MAP_NR (high_memory env) then 0
      else let rc = vremap env (PAGE_ALIGN base) PAGE_SIZE
           in if rc = 0 then 0 else rc + (base AND NOT PAGE_MASK))"

definition POWCTRL_FOPS :: nat where "POWCTRL_FOPS = 1"

text \<open>
  The part of \<^verbatim>\<open>powctrl_init\<close> up to the detection of the board: every early return keeps the
  assignments made before it. The Boolean says whether the end was reached.
\<close>

definition powctrl_probe :: "pci_env \<Rightarrow> powctrl \<Rightarrow> bool \<times> powctrl" where
  "powctrl_probe env s =
     (if \<not> pcibios_present env then (False, s)
      else case pcibios_find_device env 0 of
        None \<Rightarrow> (False, s)
      | Some (pci_bus, pci_fn) \<Rightarrow>
          let base0 = powctrl_base env pci_bus pci_fn PCI_BASE_ADDRESS_0;
              base2 = powctrl_base env pci_bus pci_fn PCI_BASE_ADDRESS_2;
              base3 = powctrl_base env pci_bus pci_fn PCI_BASE_ADDRESS_3
          in if base0 = 0 then (False, s)
             else if base2 = 0 then (False, s)
             else if base3 = 0 then (False, s)
             else let rc = powctrl_remap env base0 in if rc = 0 then (False, s)
             else let s = s\<lparr>pbase0 := rc\<rparr>; rc = powctrl_remap env base2 in
                  if rc = 0 then (False, s)
             else let s = s\<lparr>pbase2 := rc\<rparr>; rc = powctrl_remap env base3 in
                  if rc = 0 then (False, s)
             else let s = s\<lparr>pmrpregs := rc\<rparr> in
               (case pcibios_read_config_byte env pci_bus pci_fn PCI_INTERRUPT_LINE of
                  None \<Rightarrow> (False, s)
                | Some irq \<Rightarrow>
                    (True, s\<lparr>pirq := ucast irq, pflags := pflags s OR MRPF_DETECT\<rparr>)))"

definition powctrl_init ::
    "pci_env \<Rightarrow> mrp_dev \<Rightarrow> u32 \<Rightarrow> devices \<times> timer_base \<times> powctrl
       \<Rightarrow> int \<times> devices \<times> timer_base \<times> powctrl" where
  "powctrl_init env dev jiffies st =
     (let (d, b, s) = st;
          (found, s) = powctrl_probe env s
      in if \<not> found then (0, d, b, s)
         else let (iRc, d) = register_chrdev 0 ''powctrl'' (Some POWCTRL_FOPS) d
              in if iRc \<le> 0 then (0, d, b, s)
                 else let s = s\<lparr>powctrl_major := iRc\<rparr>;
                          s = powctrl_reset_mrp s;
                          s = powctrl_reset_pif dev s;
                          s = powctrl_poweroff_ack dev True s;
                          s = s\<lparr>powctrl_blink := LED_BLINK_OFF, powctrl_color := MRP_TLED_ORANGE\<rparr>;
                          s = powctrl_set_color dev (ucast (powctrl_color s)) s;
                          s = s\<lparr>powctrl_timer_enable := 1\<rparr>
                      in (0, d, powctrl_arm jiffies b, s))"

text \<open>
  \<^verbatim>\<open>cleanup_module\<close>: the last component of the result lists the mappings handed to \<^verbatim>\<open>vfree\<close>.
\<close>

definition powctrl_cleanup ::
    "devices \<times> timer_base \<times> powctrl \<Rightarrow> devices \<times> timer_base \<times> u32 list" where
  "powctrl_cleanup st =
     (let (d, b, s) = st
      in if 0 \<ge> powctrl_major s then (d, b, [])
         else let b = snd (del_timer powctrl_timer b);
                  d = snd (unregister_chrdev (nat (powctrl_major s)) ''powctrl'' d)
              in (d, b, [pbase0 s, pbase2 s, pmrpregs s]))"

section \<open>What the register helpers do\<close>

lemma get_f1c_eq:
  "powctrl_get_f1c dev s =
     (dev16 dev (pbus s) F1C, s\<lparr>pbus := Rd16 F1C (dev16 dev (pbus s) F1C) # pbus s\<rparr>)"
  by (simp add: powctrl_get_f1c_def rd16_def Let_def)

lemma set_color_eq:
  "powctrl_set_color dev color s =
     (let f = dev16 dev (pbus s) F1C
      in s\<lparr>pbus := Wr16 F1C (f AND NOT MRP_TLED_MASK OR (color AND MRP_TLED_MASK)) # Rd16 F1C f # pbus s\<rparr>)"
  by (simp add: powctrl_set_color_def powctrl_set_f1c_def get_f1c_eq wr16_def Let_def)

text \<open>The variables besides the access history, which the register helpers leave alone.\<close>

definition pvars :: "powctrl \<Rightarrow> powctrl" where
  "pvars s = s\<lparr>pbus := []\<rparr>"

definition later :: "powctrl \<Rightarrow> powctrl \<Rightarrow> bool" where
  "later s s' \<longleftrightarrow> (\<exists>evs. pbus s' = evs @ pbus s)"

lemma laterI: "pbus s' = evs @ pbus s \<Longrightarrow> later s s'"
  by (auto simp: later_def)

lemma later_refl [simp]: "later s s" "later s (s\<lparr>powctrl_blkcnt := n\<rparr>)"
  by (simp_all add: later_def)

lemma later_trans: "later s t \<Longrightarrow> later t u \<Longrightarrow> later s u"
  by (auto simp: later_def)

lemma later_seen: "later s s' \<Longrightarrow> e \<in> set (pbus s) \<Longrightarrow> e \<in> set (pbus s')"
  by (auto simp: later_def)

lemma pvars_get_f1c [unit_frame]: "pvars (snd (powctrl_get_f1c dev s)) = pvars s"
  by (simp add: get_f1c_eq pvars_def)

lemma pvars_set_color [unit_frame]: "pvars (powctrl_set_color dev c s) = pvars s"
  by (simp add: set_color_eq pvars_def Let_def)

lemma pvars_turn_tled [unit_frame]: "pvars (powctrl_turn_tled dev s) = pvars s"
  by (simp add: powctrl_turn_tled_def get_f1c_eq pvars_set_color) (simp add: pvars_def)

lemma pvars_poweroff_ack [unit_frame]: "pvars (powctrl_poweroff_ack dev a s) = pvars s"
  by (simp add: powctrl_poweroff_ack_def powctrl_set_f1c_def get_f1c_eq rd16_def Let_def pvars_def)

lemma pvars_reset_pif [unit_frame]: "pvars (powctrl_reset_pif dev s) = pvars s"
  by (simp add: powctrl_reset_pif_def rd32_def Let_def pvars_def)

lemma pvars_reset_mrp [unit_frame]: "pvars (powctrl_reset_mrp s) = pvars s"
  by (simp add: powctrl_reset_mrp_def Let_def pvars_def)

lemma pvars_eqD:
  "pvars s = pvars t \<Longrightarrow> powctrl_blink s = powctrl_blink t"
  "pvars s = pvars t \<Longrightarrow> powctrl_blkcnt s = powctrl_blkcnt t"
  "pvars s = pvars t \<Longrightarrow> powctrl_color s = powctrl_color t"
  "pvars s = pvars t \<Longrightarrow> powctrl_timer_enable s = powctrl_timer_enable t"
  "pvars s = pvars t \<Longrightarrow> powctrl_major s = powctrl_major t"
  "pvars s = pvars t \<Longrightarrow> windows_mapped s = windows_mapped t"
  "pvars s = pvars t \<Longrightarrow> pbase0 s = pbase0 t"
  "pvars s = pvars t \<Longrightarrow> pmrpregs s = pmrpregs t"
  by (cases s; cases t; simp add: pvars_def windows_mapped_def)+

lemma later_set_color: "later s (powctrl_set_color dev c s)"
  by (simp add: set_color_eq Let_def later_def)

lemma later_turn_tled: "later s (powctrl_turn_tled dev s)"
  by (simp add: powctrl_turn_tled_def get_f1c_eq set_color_eq Let_def later_def)

lemma later_poweroff_ack: "later s (powctrl_poweroff_ack dev a s)"
  by (simp add: powctrl_poweroff_ack_def powctrl_set_f1c_def get_f1c_eq rd16_def wr16_def Let_def later_def)

lemma later_reset_pif: "later s (powctrl_reset_pif dev s)"
  by (simp add: powctrl_reset_pif_def rd32_def wr32_def Let_def later_def)

lemma later_poweroff_request: "later s (powctrl_poweroff_request dev s)"
  by (simp add: powctrl_poweroff_request_def powctrl_set_f1c_def get_f1c_eq wr16_def Let_def later_def)

lemma later_blink_step: "later s (powctrl_blink_step dev s)"
  using later_turn_tled [of s dev] by (auto simp: powctrl_blink_step_def later_def)

lemmas powctrl_later =
  later_set_color later_turn_tled later_poweroff_ack later_reset_pif later_poweroff_request
  later_blink_step

section \<open>The driver as a state machine\<close>

text \<open>
  The type invariant of the driver's variables: the blink period is off or 1, the blink counter
  never passes it, the colour fits the LED field, the polling switch is 0 or 1.
\<close>

definition powctrl_inv :: "powctrl \<Rightarrow> bool" where
  "powctrl_inv s \<longleftrightarrow>
     (powctrl_blink s = LED_BLINK_OFF \<or> powctrl_blink s = LED_BLINK_WAIT_HIGH) \<and>
     0 \<le> powctrl_blkcnt s \<and> powctrl_blkcnt s \<le> powctrl_blink s \<and>
     powctrl_color s < 4 \<and>
     (powctrl_timer_enable s = 0 \<or> powctrl_timer_enable s = 1)"

text \<open>A read of F1C at which the board asked for the power to be cut.\<close>

definition poweroff_seen :: "powctrl \<Rightarrow> bool" where
  "poweroff_seen s \<longleftrightarrow> (\<exists>v. Rd16 F1C v \<in> set (pbus s) \<and> v AND MRP_POWEROFF_REQ \<noteq> 0)"

text \<open>
  The steps: a process issues an ioctl, opens or closes the device; the polling timer expires
  (the timer code detaches it, then calls the handler); the reboot system call uses the three
  entry points; the rest of the kernel adds and deletes its own timers.
\<close>

inductive powctrl_step :: "mrp_dev \<Rightarrow> timer_base \<times> powctrl \<Rightarrow> timer_base \<times> powctrl \<Rightarrow> bool"
  for dev where
  step_ioctl: "powctrl_step dev (b, s) (b, snd (powctrl_ioctl dev us cmd arg s))"
| step_open: "powctrl_step dev (b, s) (b, snd (powctrl_open s))"
| step_release: "powctrl_step dev (b, s) (b, powctrl_release s)"
| step_expire: "pending b powctrl_timer \<Longrightarrow>
    powctrl_step dev (b, s)
      (powctrl_observe_status dev jiffies (snd (detach_timer powctrl_timer b), s))"
| step_request: "powctrl_step dev (b, s) (b, powctrl_poweroff_request dev s)"
| step_poweroff: "powctrl_step dev (b, s) (b, powctrl_system_poweroff dev s)"
| step_pif: "powctrl_step dev (b, s) (b, powctrl_reset_pif dev s)"
| step_other: "index_ok b' \<Longrightarrow> pending b' powctrl_timer = pending b powctrl_timer \<Longrightarrow>
    powctrl_step dev (b, s) (b', s)"

inductive powctrl_reach :: "mrp_dev \<Rightarrow> timer_base \<times> powctrl \<Rightarrow> bool" for dev where
  reach_init: "powctrl_init env dev jiffies (d, b, powctrl_static) = (r, d', b', s') \<Longrightarrow>
    index_ok b \<Longrightarrow> powctrl_major s' > 0 \<Longrightarrow> powctrl_reach dev (b', s')"
| reach_step: "powctrl_reach dev st \<Longrightarrow> powctrl_step dev st st' \<Longrightarrow> powctrl_reach dev st'"

lemma inv_pvars:
  assumes "pvars s = pvars t"
  shows "powctrl_inv s = powctrl_inv t"
  by (simp add: powctrl_inv_def pvars_eqD [OF assms])

lemma led_bits_less: "ucast ((x :: u16) AND MRP_TLED_MASK) < (4 :: u32)"
proof -
  have "ucast (x AND 3) = (ucast x AND 3 :: u32)"
    by (rule bit_word_eqI) (auto simp: bit_simps dest: bit_imp_le_length)
  also have "\<dots> \<le> 3" by (rule word_and_le1)
  also have "(3 :: u32) < 4" by simp
  finally show ?thesis by (simp only: MRP_TLED_MASK_def)
qed

lemma blink_step_inv: "powctrl_inv s \<Longrightarrow> powctrl_inv (powctrl_blink_step dev s)"
proof -
  assume inv: "powctrl_inv s"
  have eqs: "powctrl_blink (powctrl_turn_tled dev s) = powctrl_blink s"
    "powctrl_color (powctrl_turn_tled dev s) = powctrl_color s"
    "powctrl_timer_enable (powctrl_turn_tled dev s) = powctrl_timer_enable s"
    by (rule pvars_eqD [OF pvars_turn_tled])+
  show ?thesis
    using inv unfolding powctrl_blink_step_def powctrl_inv_def powctrl_consts
    by (auto simp: eqs)
qed

lemma poweroff_request_inv: "powctrl_inv s \<Longrightarrow> powctrl_inv (powctrl_poweroff_request dev s)"
  by (simp add: powctrl_poweroff_request_def powctrl_set_f1c_def get_f1c_eq powctrl_inv_def Let_def)

lemma ioctl_inv: "powctrl_inv s \<Longrightarrow> powctrl_inv (snd (powctrl_ioctl dev us cmd arg s))"
proof -
  assume inv: "powctrl_inv s"
  define t where "t = (if powctrl_timer_enable s \<noteq> 0 then powctrl_reset_pif dev s else s)"
  have t: "powctrl_inv t"
    using inv inv_pvars [OF pvars_reset_pif, of dev s] by (simp add: t_def)
  have "powctrl_inv (powctrl_reset_pif dev (t\<lparr>powctrl_timer_enable := v\<rparr>))" if "v = 0 \<or> v = 1" for v
    using t that inv_pvars [OF pvars_reset_pif] by (simp add: powctrl_inv_def)
  moreover have "powctrl_inv (powctrl_set_color dev c
      (t\<lparr>powctrl_blink := n, powctrl_blkcnt := 0, powctrl_color := ucast (w AND MRP_TLED_MASK)\<rparr>))"
    if "n = LED_BLINK_OFF \<or> n = LED_BLINK_WAIT_HIGH" for c n and w :: u16
    using t that led_bits_less [of w] inv_pvars [OF pvars_set_color]
    by (auto simp: powctrl_inv_def powctrl_consts)
  moreover have "powctrl_inv (t\<lparr>powctrl_dbglevel := n\<rparr>)" for n
    using t by (simp add: powctrl_inv_def)
  moreover have "powctrl_inv (t\<lparr>pbus := h\<rparr>)" for h
    using t by (simp add: powctrl_inv_def)
  ultimately show ?thesis
    using inv t poweroff_request_inv [OF t]
    by (simp add: powctrl_ioctl_def Let_def t_def [symmetric] get_f1c_eq)
qed

lemma ioctl_later: "later s (snd (powctrl_ioctl dev us cmd arg s))"
proof -
  define t where "t = (if powctrl_timer_enable s \<noteq> 0 then powctrl_reset_pif dev s else s)"
  have t: "later s t"
    by (simp add: t_def later_reset_pif)
  have "later s (powctrl_reset_pif dev (t\<lparr>powctrl_timer_enable := v\<rparr>))" for v
    using t later_reset_pif [of "t\<lparr>powctrl_timer_enable := v\<rparr>" dev] by (auto simp: later_def)
  moreover have "later s (powctrl_set_color dev c
      (t\<lparr>powctrl_blink := n, powctrl_blkcnt := 0, powctrl_color := w\<rparr>))" for c n w
    using t later_set_color
      [of "t\<lparr>powctrl_blink := n, powctrl_blkcnt := 0, powctrl_color := w\<rparr>" dev c]
    by (auto simp: later_def)
  moreover have "later s (t\<lparr>powctrl_dbglevel := n\<rparr>)" "later s (t\<lparr>pbus := e # pbus t\<rparr>)" for n e
    using t by (auto simp: later_def)
  ultimately show ?thesis
    using t later_trans [OF t later_poweroff_request]
    by (simp add: powctrl_ioctl_def Let_def t_def [symmetric] get_f1c_eq)
qed

text \<open>No operation after the set up changes the mapping.\<close>

lemma mapped_request: "windows_mapped (powctrl_poweroff_request dev s) = windows_mapped s"
  by (simp add: powctrl_poweroff_request_def powctrl_set_f1c_def get_f1c_eq windows_mapped_def Let_def)

lemma mapped_upd [simp]:
  "windows_mapped (s\<lparr>powctrl_timer_enable := e\<rparr>) = windows_mapped s" "windows_mapped (s\<lparr>powctrl_dbglevel := g\<rparr>) = windows_mapped s"
  "windows_mapped (s\<lparr>powctrl_blink := n\<rparr>) = windows_mapped s" "windows_mapped (s\<lparr>powctrl_blkcnt := k\<rparr>) = windows_mapped s"
  "windows_mapped (s\<lparr>powctrl_color := c\<rparr>) = windows_mapped s" "windows_mapped (s\<lparr>pbus := h\<rparr>) = windows_mapped s"
  "windows_mapped (s\<lparr>puse := u\<rparr>) = windows_mapped s" "windows_mapped (s\<lparr>powctrl_major := j\<rparr>) = windows_mapped s"
  by (simp_all add: windows_mapped_def)

lemmas mapped_helpers =
  mapped_request pvars_eqD(6) [OF pvars_reset_pif] pvars_eqD(6) [OF pvars_reset_mrp] pvars_eqD(6) [OF pvars_set_color]
  pvars_eqD(6) [OF pvars_turn_tled] pvars_eqD(6) [OF pvars_poweroff_ack]

lemma mapped_ioctl: "windows_mapped (snd (powctrl_ioctl dev us cmd arg s)) = windows_mapped s"
  by (simp add: powctrl_ioctl_def Let_def get_f1c_eq mapped_helpers)

lemma mapped_observe: "windows_mapped (snd (powctrl_observe_status dev jiffies (b, s))) = windows_mapped s"
  by (simp add: powctrl_observe_status_def powctrl_blink_step_def get_f1c_eq Let_def mapped_helpers)

lemma observe_inv:
  assumes "powctrl_inv s"
  shows "powctrl_inv (snd (powctrl_observe_status dev jiffies (b, s)))"
proof -
  define t where "t = powctrl_blink_step dev (powctrl_reset_pif dev s)"
  have "powctrl_inv t"
    unfolding t_def using assms inv_pvars [OF pvars_reset_pif] blink_step_inv by blast
  moreover have "powctrl_inv (t\<lparr>pbus := h\<rparr>)" if "powctrl_inv t" for h
    using that by (simp add: powctrl_inv_def)
  ultimately show ?thesis
    using assms by (simp add: powctrl_observe_status_def get_f1c_eq Let_def t_def [symmetric])
qed

lemma observe_later: "later s (snd (powctrl_observe_status dev jiffies (b, s)))"
proof -
  define t where "t = powctrl_blink_step dev (powctrl_reset_pif dev s)"
  have t: "later s t"
    unfolding t_def by (rule later_trans [OF later_reset_pif later_blink_step])
  moreover have "later s (t\<lparr>pbus := e # pbus t\<rparr>)" for e
    using t by (auto simp: later_def)
  ultimately show ?thesis
    by (simp add: powctrl_observe_status_def get_f1c_eq Let_def t_def [symmetric])
qed

lemma powctrl_arm_pending:
  assumes "index_ok b"
  shows "pending (powctrl_arm jiffies b) powctrl_timer" and "index_ok (powctrl_arm jiffies b)"
proof -
  have "index_ok (b\<lparr>tobj := f\<rparr>)" for f
    using assms by (simp add: index_ok_def)
  then show "pending (powctrl_arm jiffies b) powctrl_timer" "index_ok (powctrl_arm jiffies b)"
    unfolding powctrl_arm_def by (simp_all add: wheel.pend_add wheel.ok_add)
qed

text \<open>The handler either links its timer again or has just read a power-off request.\<close>

lemma observe_rearms:
  assumes "index_ok b" "powctrl_observe_status dev jiffies (b, s) = (b', s')"
  shows "index_ok b' \<and> (pending b' powctrl_timer \<or> poweroff_seen s')"
  using assms powctrl_arm_pending [OF assms(1), of jiffies]
  by (auto simp: powctrl_observe_status_def get_f1c_eq Let_def poweroff_seen_def split: if_splits)

lemma seen_later: "later s s' \<Longrightarrow> poweroff_seen s \<Longrightarrow> poweroff_seen s'"
  by (auto simp: poweroff_seen_def dest: later_seen)

definition powctrl_alive :: "timer_base \<times> powctrl \<Rightarrow> bool" where
  "powctrl_alive st \<longleftrightarrow> powctrl_inv (snd st) \<and> windows_mapped (snd st) \<and> index_ok (fst st) \<and>
     (pending (fst st) powctrl_timer \<or> poweroff_seen (snd st))"

lemma step_alive:
  assumes "powctrl_step dev st st'" "powctrl_alive st"
  shows "powctrl_alive st'"
  using assms
proof (induction rule: powctrl_step.induct)
  case (step_ioctl b s us cmd arg)
  then show ?case using ioctl_inv mapped_ioctl seen_later [OF ioctl_later] by (auto simp: powctrl_alive_def)
next
  case (step_expire b s jiffies)
  let ?b = "snd (detach_timer powctrl_timer b)"
  obtain b' s' where o: "powctrl_observe_status dev jiffies (?b, s) = (b', s')" by fastforce
  have "index_ok ?b" using step_expire by (simp add: powctrl_alive_def index_ok_def)
  then show ?case
    using observe_rearms [OF _ o] observe_inv [of s dev jiffies ?b] mapped_observe [of dev jiffies ?b s] step_expire
    by (simp add: powctrl_alive_def o)
next
  case (step_request b s)
  then show ?case
    using poweroff_request_inv mapped_request seen_later [OF later_poweroff_request] by (auto simp: powctrl_alive_def)
next
  case (step_poweroff b s)
  then show ?case
    using inv_pvars [OF pvars_poweroff_ack] seen_later [OF later_poweroff_ack]
    by (auto simp: powctrl_alive_def powctrl_system_poweroff_def mapped_helpers)
next
  case (step_pif b s)
  then show ?case
    using inv_pvars [OF pvars_reset_pif] seen_later [OF later_reset_pif] by (auto simp: powctrl_alive_def mapped_helpers)
qed (auto simp: powctrl_alive_def powctrl_open_def powctrl_release_def powctrl_inv_def poweroff_seen_def)

lemma or_flag: "(f OR m) AND m = (m :: 'a :: len word)"
  by (rule bit_word_eqI) (auto simp: bit_simps)

lemma probe_static:
  "powctrl_probe env s = (found, s') \<Longrightarrow>
     pbus s' = pbus s \<and> powctrl_blink s' = powctrl_blink s \<and> powctrl_blkcnt s' = powctrl_blkcnt s \<and>
     powctrl_major s' = powctrl_major s \<and> (found \<longrightarrow> windows_mapped s' \<and> pflags s' AND MRPF_DETECT = MRPF_DETECT)"
  by (auto simp: powctrl_probe_def windows_mapped_def or_flag Let_def split: if_splits option.splits)

lemma probe_fields:
  assumes "powctrl_probe env s = (found, t)"
  shows "\<exists>w0 w2 w3 i f. t = s\<lparr>pbase0 := w0, pbase2 := w2, pmrpregs := w3, pirq := i, pflags := f\<rparr>"
proof -
  have "s\<lparr>pbase0 := pbase0 t, pbase2 := pbase2 t, pmrpregs := pmrpregs t, pirq := pirq t, pflags := pflags t\<rparr> = t"
    using assms by (auto simp: powctrl_probe_def Let_def split: if_splits option.splits)
  then show ?thesis by metis
qed

lemma init_alive:
  assumes init: "powctrl_init env dev jiffies (d, b, powctrl_static) = (r, d', b', s')"
    and ok: "index_ok b" and major: "powctrl_major s' > 0"
  shows "powctrl_alive (b', s')"
proof -
  obtain found t where probe: "powctrl_probe env powctrl_static = (found, t)" by fastforce
  have t: "powctrl_blkcnt t = 0" "powctrl_major t = 0"
    using probe_static [OF probe] by (simp_all add: powctrl_static_def)
  obtain iRc d2 where reg: "register_chrdev 0 ''powctrl'' (Some POWCTRL_FOPS) d = (iRc, d2)"
    by fastforce
  define u where "u = powctrl_poweroff_ack dev True
    (powctrl_reset_pif dev (powctrl_reset_mrp (t\<lparr>powctrl_major := iRc\<rparr>)))"
  have u: "powctrl_blkcnt u = 0"
    unfolding u_def using t
    by (simp add: pvars_eqD(2) [OF pvars_poweroff_ack] pvars_eqD(2) [OF pvars_reset_pif]
        pvars_eqD(2) [OF pvars_reset_mrp])
  have "found \<and> iRc > 0"
    using init probe reg major t by (auto simp: powctrl_init_def Let_def split: if_splits)
  then have s': "s' = (powctrl_set_color dev (ucast MRP_TLED_ORANGE)
       (u\<lparr>powctrl_blink := LED_BLINK_OFF, powctrl_color := MRP_TLED_ORANGE\<rparr>))\<lparr>powctrl_timer_enable := 1\<rparr>"
    and b': "b' = powctrl_arm jiffies b"
    using init probe reg by (simp_all add: powctrl_init_def Let_def u_def)
  have "powctrl_inv s'"
    unfolding s' using u
    by (simp add: powctrl_inv_def set_color_eq Let_def powctrl_consts)
  moreover have "windows_mapped s'"
    unfolding s' u_def using probe_static [OF probe] \<open>found \<and> iRc > 0\<close> by (simp add: mapped_helpers)
  ultimately show ?thesis
    using powctrl_arm_pending [OF ok] by (simp add: powctrl_alive_def b')
qed

lemma reach_alive: "powctrl_reach dev st \<Longrightarrow> powctrl_alive st"
  by (induction rule: powctrl_reach.induct) (auto intro: init_alive step_alive)

section \<open>Properties\<close>

text \<open>
  C9: In every state the driver can reach after a successful initialisation, whatever ioctls,
  opens, closes, timer expiries and reboot calls happen in whatever order, its variables are in
  range (blink period 0 or 1, counter within it, colour below 4, polling switch 0 or 1), the
  register windows it uses are mapped, and the polling timer is pending unless some read of F1C has returned a power-off request.
\<close>

theorem powctrl_polling:
  assumes "powctrl_reach dev (b, s)"
  shows "powctrl_inv s \<and> windows_mapped s \<and> (pending b powctrl_timer \<or> poweroff_seen s)"
  using reach_alive [OF assms] by (simp add: powctrl_alive_def)

text \<open>A board and a machine for the witnesses.\<close>

definition demo_pci :: pci_env where
  "demo_pci = \<lparr>pcibios_present = True, pcibios_find_device = (\<lambda>_. Some (0, 0x48)),
     pcibios_read_config_dword = (\<lambda>_ _ _. Some 0xe0000000),
     pcibios_read_config_byte = (\<lambda>_ _ _. Some 11), high_memory = 0x4000000,
     vremap = (\<lambda>page n. 0x1000 + page)\<rparr>"

definition demo_dev :: mrp_dev where
  "demo_dev = \<lparr>dev16 = (\<lambda>h r. if r = BID then 0x4126 else case lastw r h of None \<Rightarrow> 0 | Some v \<Rightarrow> v),
     dev32 = (\<lambda>h r. 0), devfifo = (\<lambda>h. 0)\<rparr>"

definition demo_init :: "int \<times> devices \<times> timer_base \<times> powctrl" where
  "demo_init = powctrl_init demo_pci demo_dev 0 (empty_devices, empty_base (\<lambda>_. \<lparr>expires = 0, data = 0, tfunction = 0\<rparr>), powctrl_static)"

lemma demo_reach:
  "powctrl_reach demo_dev (fst (snd (snd demo_init)), snd (snd (snd demo_init)))"
proof (rule reach_init)
  show "powctrl_init demo_pci demo_dev 0 (empty_devices, empty_base (\<lambda>_. \<lparr>expires = 0, data = 0, tfunction = 0\<rparr>), powctrl_static)
    = (fst demo_init, fst (snd demo_init), fst (snd (snd demo_init)), snd (snd (snd demo_init)))"
    by (simp add: demo_init_def)
  show "index_ok (empty_base (\<lambda>_. \<lparr>expires = 0, data = 0, tfunction = 0\<rparr>))"
    by (simp add: index_ok_def empty_base_def TVR_SIZE_def TVN_SIZE_def)
  show "0 < powctrl_major (snd (snd (snd demo_init)))"
    by code_simp
qed

theorem powctrl_polling_witness:
  "powctrl_inv (snd (snd (snd demo_init))) \<and> windows_mapped (snd (snd (snd demo_init))) \<and>
     (pending (fst (snd (snd demo_init))) powctrl_timer \<or> poweroff_seen (snd (snd (snd demo_init))))"
  by (rule powctrl_polling [OF demo_reach])

text \<open>
  C27: One poll, exactly. When the timer code calls the handler (its timer just detached), the
  timer is pending again afterwards, due \<^verbatim>\<open>MRP_TIMER_UNIT\<close> ticks later, unless polling is
  enabled and the last register read of the poll, of F1C, has the power-off request bit set.
\<close>

theorem powctrl_observe_exact:
  assumes ok: "index_ok b" and idle: "\<not> pending b powctrl_timer"
    and call: "powctrl_observe_status dev jiffies (b, s) = (b', s')"
  shows "(pending b' powctrl_timer \<longleftrightarrow>
      powctrl_timer_enable s = 0 \<or> (\<exists>v. hd (pbus s') = Rd16 F1C v \<and> v AND MRP_POWEROFF_REQ = 0)) \<and>
    (pending b' powctrl_timer \<longrightarrow> expires (tobj b' powctrl_timer) = jiffies + MRP_TIMER_UNIT)"
  using call idle powctrl_arm_pending [OF ok, of jiffies]
  by (auto simp: powctrl_observe_status_def get_f1c_eq Let_def powctrl_arm_def add_timer_def
      split: if_splits)

theorem powctrl_observe_exact_witness:
  "\<exists>b' s'. powctrl_observe_status demo_dev 7
      (snd (detach_timer powctrl_timer (fst (snd (snd demo_init)))), snd (snd (snd demo_init))) = (b', s') \<and>
     (pending b' powctrl_timer \<longleftrightarrow> powctrl_timer_enable (snd (snd (snd demo_init))) = 0 \<or>
        (\<exists>v. hd (pbus s') = Rd16 F1C v \<and> v AND MRP_POWEROFF_REQ = 0))"
proof -
  let ?b = "snd (detach_timer powctrl_timer (fst (snd (snd demo_init))))"
  obtain b' s' where o:
    "powctrl_observe_status demo_dev 7 (?b, snd (snd (snd demo_init))) = (b', s')" by fastforce
  have "index_ok ?b"
    using reach_alive [OF demo_reach] by (simp add: powctrl_alive_def index_ok_def)
  moreover have "\<not> pending ?b powctrl_timer"
    by (simp add: pending_detach_timer)
  ultimately show ?thesis
    using powctrl_observe_exact [OF _ _ o] o by blast
qed

text \<open>
  The bits of F1C that drive the LED, as the driver last wrote them, and a board that shows them:
  reading F1C returns the LED field last written.
\<close>

definition led :: "powctrl \<Rightarrow> u16 option" where
  "led s = map_option (\<lambda>v. v AND MRP_TLED_MASK) (lastw F1C (pbus s))"

definition led_latched :: "mrp_dev \<Rightarrow> bool" where
  "led_latched dev \<longleftrightarrow>
     (\<forall>h v. lastw F1C h = Some v \<longrightarrow> dev16 dev h F1C AND MRP_TLED_MASK = v AND MRP_TLED_MASK)"

definition poll :: "mrp_dev \<Rightarrow> u32 \<Rightarrow> powctrl \<Rightarrow> powctrl" where
  "poll dev jiffies s =
     snd (powctrl_observe_status dev jiffies (empty_base (\<lambda>_. \<lparr>expires = 0, data = 0, tfunction = 0\<rparr>), s))"

lemma poll_eq:
  "powctrl_timer_enable s \<noteq> 0 \<Longrightarrow>
     poll dev j s = snd (powctrl_get_f1c dev (powctrl_blink_step dev (powctrl_reset_pif dev s)))"
  by (simp add: poll_def powctrl_observe_status_def get_f1c_eq Let_def)

lemma led_reset_pif: "led (powctrl_reset_pif dev s) = led s"
  by (simp add: led_def powctrl_reset_pif_def rd32_def wr32_def Let_def)

lemma led_bookkeeping:
  "led (t\<lparr>powctrl_blkcnt := n, pbus := Rd16 r v # pbus t\<rparr>) = led t"
  "led (t\<lparr>pbus := Rd16 r v # pbus t\<rparr>) = led t"
  by (simp_all add: led_def)

lemma led_turn_tled:
  assumes "led_latched dev" "led s = Some c"
  shows "led (powctrl_turn_tled dev s) =
    Some (if ucast c \<noteq> powctrl_color s then ucast (powctrl_color s) AND MRP_TLED_MASK
          else MRP_TLED_OFF AND MRP_TLED_MASK)"
proof -
  obtain v where v: "lastw F1C (pbus s) = Some v" "c = v AND MRP_TLED_MASK"
    using assms(2) by (auto simp: led_def)
  have "dev16 dev (pbus s) F1C AND MRP_TLED_MASK = c"
    using assms(1) v by (simp add: led_latched_def)
  then show ?thesis
    by (simp add: powctrl_turn_tled_def get_f1c_eq set_color_eq Let_def led_def replace_field)
qed

lemma poll_waits:
  assumes "powctrl_timer_enable s = 1" "powctrl_blink s = 1" "powctrl_blkcnt s = 0"
  shows "led (poll dev j s) = led s \<and> powctrl_blkcnt (poll dev j s) = 1 \<and>
     powctrl_blink (poll dev j s) = 1 \<and> powctrl_timer_enable (poll dev j s) = 1 \<and>
     powctrl_color (poll dev j s) = powctrl_color s"
  using assms led_reset_pif [of dev s] pvars_eqD [OF pvars_reset_pif [of dev s]]
  by (simp add: poll_eq powctrl_blink_step_def get_f1c_eq led_bookkeeping)

lemma poll_turns:
  assumes "led_latched dev" "led s = Some c"
    and "powctrl_timer_enable s = 1" "powctrl_blink s = 1" "powctrl_blkcnt s = 1"
  shows "led (poll dev j s) =
      Some (if ucast c \<noteq> powctrl_color s then ucast (powctrl_color s) AND MRP_TLED_MASK
            else MRP_TLED_OFF AND MRP_TLED_MASK) \<and>
     powctrl_blkcnt (poll dev j s) = 0 \<and> powctrl_blink (poll dev j s) = 1 \<and>
     powctrl_timer_enable (poll dev j s) = 1 \<and> powctrl_color (poll dev j s) = powctrl_color s"
proof -
  let ?t = "powctrl_reset_pif dev s"
  have t: "led ?t = Some c" by (simp add: led_reset_pif assms(2))
  note vars = pvars_eqD [OF pvars_reset_pif [of dev s]] pvars_eqD [OF pvars_turn_tled [of dev ?t]]
  show ?thesis
    using assms(3-) vars led_turn_tled [OF assms(1) t]
    by (simp add: poll_eq powctrl_blink_step_def get_f1c_eq led_bookkeeping)
qed

text \<open>
  C28: The LED blinks with a period of four polls: from a state that blinks and shows the chosen
  colour (not \<^verbatim>\<open>OFF\<close>), the second poll switches the LED off, the fourth switches the colour on
  again, and the polls in between leave it alone; on a board that latches the LED field of F1C.
\<close>

theorem powctrl_blink_cycle:
  assumes dev: "led_latched dev"
    and on: "powctrl_timer_enable s = 1" "powctrl_blink s = LED_BLINK_WAIT_HIGH" "powctrl_blkcnt s = 0"
    and col: "powctrl_color s < 3" "led s = Some (ucast (powctrl_color s))"
  shows "led (poll dev j1 s) = led s \<and>
    led (poll dev j2 (poll dev j1 s)) = Some MRP_TLED_OFF \<and>
    led (poll dev j3 (poll dev j2 (poll dev j1 s))) = Some MRP_TLED_OFF \<and>
    led (poll dev j4 (poll dev j3 (poll dev j2 (poll dev j1 s)))) = led s \<and>
    powctrl_blkcnt (poll dev j4 (poll dev j3 (poll dev j2 (poll dev j1 s)))) = 0"
proof -
  have small: "powctrl_color s = 0 \<or> powctrl_color s = 1 \<or> powctrl_color s = 2"
    using col(1) by (auto simp: word_less_nat_alt word_unat_eq_iff)
  let ?c = "ucast (powctrl_color s) :: u16"
  have cback: "ucast ?c = powctrl_color s" "?c AND MRP_TLED_MASK = ?c"
    and off: "ucast MRP_TLED_OFF \<noteq> powctrl_color s" "MRP_TLED_OFF AND MRP_TLED_MASK = MRP_TLED_OFF"
    using small by (auto simp: powctrl_consts)
  note s1 = poll_waits [of s dev j1]
  note s2 = poll_turns [OF dev, of "poll dev j1 s" ?c j2]
  note s3 = poll_waits [of "poll dev j2 (poll dev j1 s)" dev j3]
  note s4 = poll_turns [OF dev, of "poll dev j3 (poll dev j2 (poll dev j1 s))" MRP_TLED_OFF j4]
  show ?thesis
    using s1 s2 s3 s4 on col cback off by (simp add: powctrl_consts(2))
qed

definition demo_blink :: powctrl where
  "demo_blink = powctrl_static\<lparr>powctrl_timer_enable := 1, powctrl_blink := 1, powctrl_color := 2,
     pbus := [Wr16 F1C 0x102]\<rparr>"

theorem powctrl_blink_cycle_witness:
  "led (poll demo_dev 50 demo_blink) = led demo_blink \<and>
   led (poll demo_dev 100 (poll demo_dev 50 demo_blink)) = Some MRP_TLED_OFF"
proof -
  have "led_latched demo_dev"
    by (simp add: led_latched_def demo_dev_def)
  moreover have "powctrl_timer_enable demo_blink = 1" "powctrl_blink demo_blink = LED_BLINK_WAIT_HIGH"
    "powctrl_blkcnt demo_blink = 0" "powctrl_color demo_blink < 3"
    "led demo_blink = Some (ucast (powctrl_color demo_blink))"
    by (simp_all add: demo_blink_def powctrl_static_def led_def powctrl_consts)
  ultimately show ?thesis
    using powctrl_blink_cycle [of demo_dev demo_blink 50 100 150 200] by blast
qed

lemma ioctl_tled_color:
  assumes "verify_read us arg 2 = 0"
  shows "powctrl_ioctl dev us POWCTRL_IOC_TLED_COLOR arg s =
    (int (unat (powctrl_color s)),
     let t = (if powctrl_timer_enable s \<noteq> 0 then powctrl_reset_pif dev s else s)
     in powctrl_set_color dev (ucast (ucast (user16 us arg AND MRP_TLED_MASK) :: u32))
         (t\<lparr>powctrl_blink := LED_BLINK_OFF, powctrl_blkcnt := 0,
            powctrl_color := ucast (user16 us arg AND MRP_TLED_MASK)\<rparr>))"
  using assms pvars_eqD(3) [OF pvars_reset_pif, of dev s]
  by (simp add: powctrl_ioctl_def ioc_defs Let_def)

lemma ucast_up_down_u16: "ucast (ucast (x :: u16) :: u32) = x"
  by (rule bit_word_eqI) (auto simp: bit_simps dest: bit_imp_le_length)

lemma writes_to_reset_pif: "writes_to r (pbus (powctrl_reset_pif dev s)) = writes_to r (pbus s)"
  by (simp add: powctrl_reset_pif_def rd32_def wr32_def Let_def)

text \<open>
  The LED colour command. When the caller's argument can be read, it returns the previous
  colour, stops blinking, and ends by writing F1C once: the value just read from F1C with the two
  LED bits replaced by those of the argument and every other bit (the power-off handshake among
  them) as it was.
\<close>

theorem powctrl_led_color:
  assumes "verify_read us arg 2 = 0"
    and "powctrl_ioctl dev us POWCTRL_IOC_TLED_COLOR arg s = (r, s')"
  shows "r = int (unat (powctrl_color s)) \<and> powctrl_blink s' = LED_BLINK_OFF \<and>
    (\<exists>f v h. pbus s' = Wr16 F1C v # Rd16 F1C f # h \<and>
       writes_to F1C h = writes_to F1C (pbus s) \<and>
       v AND MRP_TLED_MASK = user16 us arg AND MRP_TLED_MASK \<and>
       (\<forall>n. n AND MRP_TLED_MASK = 0 \<longrightarrow> v AND n = f AND n))"
proof -
  define t where "t = (if powctrl_timer_enable s \<noteq> 0 then powctrl_reset_pif dev s else s)"
  define c where "c = user16 us arg AND MRP_TLED_MASK"
  let ?f = "dev16 dev (pbus t) F1C"
  have r: "r = int (unat (powctrl_color s))" and
    s': "s' = powctrl_set_color dev c (t\<lparr>powctrl_blink := LED_BLINK_OFF, powctrl_blkcnt := 0,
            powctrl_color := ucast c\<rparr>)"
    using assms(2) by (simp_all add: ioctl_tled_color [OF assms(1)] t_def c_def ucast_up_down_u16)
  have b: "pbus s' = Wr16 F1C (?f AND NOT MRP_TLED_MASK OR (c AND MRP_TLED_MASK)) # Rd16 F1C ?f # pbus t"
    and blink: "powctrl_blink s' = LED_BLINK_OFF"
    by (simp_all add: s' set_color_eq Let_def)
  have "c AND MRP_TLED_MASK = user16 us arg AND MRP_TLED_MASK"
    by (simp add: c_def and.assoc)
  moreover have "writes_to F1C (pbus t) = writes_to F1C (pbus s)"
    by (simp add: t_def writes_to_reset_pif)
  moreover have "(?f AND NOT MRP_TLED_MASK OR (c AND MRP_TLED_MASK)) AND n = ?f AND n"
    if "n AND MRP_TLED_MASK = 0" for n
    by (rule replace_field_other) (metis that and.commute)
  ultimately show ?thesis
    using r b blink by (auto simp: replace_field)
qed

definition demo_user :: user_space where
  "demo_user = \<lparr>verify_read = (\<lambda>_ _. 0), verify_write = (\<lambda>_ _. 0), user16 = (\<lambda>_. 0x11),
     user32 = (\<lambda>_. 0)\<rparr>"

theorem powctrl_led_color_witness:
  "\<exists>r s'. powctrl_ioctl demo_dev demo_user POWCTRL_IOC_TLED_COLOR 0 demo_blink = (r, s') \<and>
     r = 2 \<and> powctrl_blink s' = LED_BLINK_OFF"
proof -
  obtain r s' where i: "powctrl_ioctl demo_dev demo_user POWCTRL_IOC_TLED_COLOR 0 demo_blink = (r, s')"
    by fastforce
  have "verify_read demo_user 0 2 = 0" by (simp add: demo_user_def)
  from powctrl_led_color [OF this i] i show ?thesis
    by (auto simp: demo_blink_def)
qed

text \<open>
  What the ioctl interface refuses. A command of another driver or above the highest number,
  or one whose argument fails the access check, changes nothing at all; any other command that is
  not one of the six implemented ones returns \<^verbatim>\<open>-EINVAL\<close> and leaves the driver's variables and the
  control register F1C as they were (the register read and write commands declared in the header
  are among these).
\<close>

theorem powctrl_ioctl_refuses:
  "(IOC_TYPE cmd \<noteq> POWCTRL_IOC_MAGIC \<or> IOC_NR cmd > POWCTRL_IOC_MAXNR \<longrightarrow>
      powctrl_ioctl dev us cmd arg s = (- EINVAL, s)) \<and>
   (IOC_TYPE cmd = POWCTRL_IOC_MAGIC \<and> IOC_NR cmd \<le> POWCTRL_IOC_MAXNR \<and>
      IOC_DIR cmd = IOC_WRITE \<and> verify_read us arg (IOC_SIZE cmd) = e \<and> e \<noteq> 0 \<longrightarrow>
      powctrl_ioctl dev us cmd arg s = (e, s)) \<and>
   (cmd \<notin> {POWCTRL_IOCPOWEROFF, POWCTRL_IOCPOWSTAT, POWCTRL_IOCTIMER, POWCTRL_IOC_TLED_COLOR,
            POWCTRL_IOC_TLED_BLINK, POWCTRL_IOCPOWDBG} \<and>
      verify_read us arg (IOC_SIZE cmd) = 0 \<and> verify_write us arg (IOC_SIZE cmd) = 0 \<longrightarrow>
      fst (powctrl_ioctl dev us cmd arg s) = - EINVAL \<and>
      pvars (snd (powctrl_ioctl dev us cmd arg s)) = pvars s \<and>
      writes_to F1C (pbus (snd (powctrl_ioctl dev us cmd arg s))) = writes_to F1C (pbus s))"
proof -
  have rw: "IOC_WRITE AND IOC_READ = 0" "IOC_WRITE AND IOC_WRITE \<noteq> 0"
    by (simp_all add: IOC_WRITE_def IOC_READ_def)
  show ?thesis
    using rw by (auto simp: powctrl_ioctl_def Let_def pvars_reset_pif writes_to_reset_pif)
qed

theorem powctrl_ioctl_refuses_witness:
  "powctrl_ioctl demo_dev demo_user 0x5401 0 demo_blink = (- EINVAL, demo_blink)"
proof -
  have "IOC_TYPE 0x5401 \<noteq> POWCTRL_IOC_MAGIC"
    by (simp add: IOC_TYPE_def POWCTRL_IOC_MAGIC_def)
  then show ?thesis
    using powctrl_ioctl_refuses [where cmd = "0x5401" and dev = demo_dev and us = demo_user and arg = 0
        and s = demo_blink] by blast
qed

text \<open>
  C29: Initialisation always returns 0. If the board is found and mapped and a major number is free, the driver owns a fresh major number,
  polling is enabled, its timer is pending and due \<^verbatim>\<open>MRP_TIMER_UNIT\<close> ticks later, and the LED bits were set to 0 (the colour \<^verbatim>\<open>MRP_TLED_ORANGE\<close> of the driver, which the
  header for its users calls mixed). Otherwise device table, timers and registers are
  untouched, and so are the variables apart from the fields of \<^verbatim>\<open>mrp_unit\<close>: these keep what the probe put there, with nothing unmapped again. In
  particular, when only the major number is missing, all windows stay mapped and the board stays marked as detected.
\<close>

theorem powctrl_init_outcome:
  assumes init: "powctrl_init env dev jiffies (d, b, s) = (r, d', b', s')"
    and fresh: "powctrl_major s = 0" and ok: "index_ok b"
  shows "r = 0 \<and>
    (fst (powctrl_probe env s) \<longrightarrow> windows_mapped s' \<and> pflags s' AND MRPF_DETECT = MRPF_DETECT) \<and>
    (if fst (powctrl_probe env s) \<and> 0 < fst (register_chrdev 0 ''powctrl'' (Some POWCTRL_FOPS) d) then
       powctrl_major s' > 0 \<and>
       get_chrfops (nat (powctrl_major s')) 0 d = None \<and>
       get_chrfops (nat (powctrl_major s')) 0 d' = Some POWCTRL_FOPS \<and>
       pending b' powctrl_timer \<and> expires (tobj b' powctrl_timer) = jiffies + MRP_TIMER_UNIT \<and>
       powctrl_timer_enable s' = 1 \<and> led s' = Some 0
     else
       d' = d \<and> b' = b \<and> s' = snd (powctrl_probe env s) \<and>
       (\<exists>w0 w2 w3 i f. s' = s\<lparr>pbase0 := w0, pbase2 := w2, pmrpregs := w3, pirq := i, pflags := f\<rparr>))"
proof -
  obtain found t where probe: "powctrl_probe env s = (found, t)" by fastforce
  obtain iRc d2 where reg: "register_chrdev 0 ''powctrl'' (Some POWCTRL_FOPS) d = (iRc, d2)"
    by fastforce
  note same = probe_static [OF probe]
  show ?thesis
  proof (cases "found \<and> iRc > 0")
    case True
    define u where "u = powctrl_poweroff_ack dev True
      (powctrl_reset_pif dev (powctrl_reset_mrp (t\<lparr>powctrl_major := iRc\<rparr>)))"
    have "pvars u = pvars (t\<lparr>powctrl_major := iRc\<rparr>)"
      by (simp add: u_def unit_frame)
    then have u: "powctrl_major u = iRc" "pflags u = pflags t" "windows_mapped u"
      using same True by (cases u, cases t, simp add: pvars_def windows_mapped_def)+
    have s': "s' = (powctrl_set_color dev (ucast MRP_TLED_ORANGE)
         (u\<lparr>powctrl_blink := LED_BLINK_OFF, powctrl_color := MRP_TLED_ORANGE\<rparr>))\<lparr>powctrl_timer_enable := 1\<rparr>"
      and rest: "b' = powctrl_arm jiffies b" "d' = d2" "r = 0"
      using init probe reg True by (simp_all add: powctrl_init_def Let_def u_def)
    have "powctrl_major s' = iRc" "pflags s' = pflags t" "windows_mapped s'" "powctrl_timer_enable s' = 1"
      using u by (simp_all add: s' set_color_eq Let_def)
    moreover have "led s' = Some 0"
      by (simp add: s' set_color_eq Let_def led_def replace_field MRP_TLED_ORANGE_def)
    moreover have "expires (tobj b' powctrl_timer) = jiffies + MRP_TIMER_UNIT"
      by (simp add: rest(1) powctrl_arm_def add_timer_def)
    ultimately show ?thesis
      using rest True same probe reg chr.dynamic_free [OF reg] chr.dynamic_found [OF reg]
        powctrl_arm_pending [OF ok] by simp
  next
    case False
    have "\<exists>w0 w2 w3 i f. t = s\<lparr>pbase0 := w0, pbase2 := w2, pmrpregs := w3, pirq := i, pflags := f\<rparr>"
      by (rule probe_fields [OF probe])
    moreover have "s' = t" "d' = d" "b' = b" "r = 0"
      using False init probe reg chr.dynamic_failed [OF reg]
      by (auto simp: powctrl_init_def Let_def split: if_splits)
    ultimately show ?thesis using False probe reg same by auto
  qed
qed

theorem powctrl_init_outcome_witness:
  "fst demo_init = 0 \<and> powctrl_major (snd (snd (snd demo_init))) = 127 \<and>
   get_chrfops 127 0 (fst (snd demo_init)) = Some POWCTRL_FOPS \<and> windows_mapped (snd (snd (snd demo_init))) \<and>
   led (snd (snd (snd demo_init))) = Some 0"
proof -
  let ?b = "empty_base (\<lambda>_. \<lparr>expires = 0, data = 0, tfunction = 0\<rparr>)"
  have i: "powctrl_init demo_pci demo_dev 0 (empty_devices, ?b, powctrl_static)
      = (fst demo_init, fst (snd demo_init), fst (snd (snd demo_init)), snd (snd (snd demo_init)))"
    by (simp add: demo_init_def)
  have m: "powctrl_major (snd (snd (snd demo_init))) = 127"
    by code_simp
  have p: "fst (powctrl_probe demo_pci powctrl_static)"
      "0 < fst (register_chrdev 0 ''powctrl'' (Some POWCTRL_FOPS) empty_devices)" "powctrl_major powctrl_static = 0"
    by code_simp+
  have "index_ok ?b"
    by (simp add: index_ok_def empty_base_def TVR_SIZE_def TVN_SIZE_def)
  with powctrl_init_outcome [OF i] m p show ?thesis by simp
qed

text \<open>
  When the register window lands on the right page. With \<^verbatim>\<open>vremap\<close> mapping whole pages,
  \<^verbatim>\<open>powctrl_remap\<close> returns the window on the physical base address exactly when that address is
  page aligned: it rounds the base up to the next page before it maps, and then adds the page
  offset. For any other base the registers it hands out are one page too high.
\<close>

theorem powctrl_remap_window:
  assumes "window k env" and "\<not> MAP_NR base < MAP_NR (high_memory env)"
    and "k + PAGE_ALIGN base \<noteq> 0"
  shows "powctrl_remap env base = k + base \<longleftrightarrow> base AND NOT PAGE_MASK = 0"
proof -
  have "powctrl_remap env base = k + (PAGE_ALIGN base + (base AND NOT PAGE_MASK))"
    using assms PAGE_ALIGN_aligned [of base]
    by (simp add: powctrl_remap_def window_def add.assoc)
  then show ?thesis
    by (simp add: align_plus_offset)
qed

theorem powctrl_remap_window_witness:
  "powctrl_remap demo_pci 0xe0000100 \<noteq> 0x1000 + 0xe0000100"
proof -
  have "window 0x1000 demo_pci"
    by (simp add: window_def demo_pci_def)
  moreover have "\<not> MAP_NR 0xe0000100 < MAP_NR (high_memory demo_pci)"
    by (simp add: MAP_NR_def demo_pci_def)
  moreover have "(0x1000 :: u32) + PAGE_ALIGN 0xe0000100 \<noteq> 0"
    by (simp add: PAGE_ALIGN_def PAGE_MASK_def PAGE_SIZE_def)
  moreover have "(0xe0000100 :: u32) AND NOT PAGE_MASK \<noteq> 0"
    by (simp add: PAGE_MASK_def PAGE_SIZE_def)
  ultimately show ?thesis
    using powctrl_remap_window [of "0x1000" demo_pci "0xe0000100"] by blast
qed

end
