(* ===== verification/Reboot.thy ===== *)
theory Reboot
  imports Powctrl
begin

text \<open>
  The reboot system call of \<^verbatim>\<open>kernel/sys.c\<close> as the PlayStation 2 TOOL configures it
  (\<^verbatim>\<open>CONFIG_PS2_SBC_POWCTRL\<close> set, no GDTH controller, no APM power-off), together with the
  Ctrl-Alt-Del handler: who may reboot, which magic numbers are needed, and what each request
  does to the power control registers.
\<close>

section \<open>State and outcome\<close>

text \<open>
  \<^verbatim>\<open>C_A_D\<close> is the flag for Ctrl-Alt-Del; \<^verbatim>\<open>killed\<close> lists the \<^verbatim>\<open>sys_kill\<close> and
  \<^verbatim>\<open>kill_proc\<close> calls made, newest first, each with the history of the board bus at that moment;
  \<^verbatim>\<open>printed\<close> lists the messages, newest first.
\<close>

record reboot_state =
  C_A_D :: int
  killed :: "(int \<times> int \<times> bus) list"
  printed :: "string list"
  rpow :: powctrl

text \<open>\<^verbatim>\<open>NullFault\<close>: the kernel accesses a register window of a board that is not mapped.\<close>

datatype reboot_outcome = Returned int | HardReset | Exited int | NullFault

definition SIGKILL :: int where "SIGKILL = 9"
definition SIGINT :: int where "SIGINT = 2"

definition sys_kill :: "int \<Rightarrow> int \<Rightarrow> reboot_state \<Rightarrow> reboot_state" where
  "sys_kill pid sig st = st\<lparr>killed := (pid, sig, pbus (rpow st)) # killed st\<rparr>"

definition rprintk :: "string \<Rightarrow> reboot_state \<Rightarrow> reboot_state" where
  "rprintk msg st = st\<lparr>printed := msg # printed st\<rparr>"

definition sys_reboot ::
    "mrp_dev \<Rightarrow> bool \<Rightarrow> u32 \<Rightarrow> u32 \<Rightarrow> u32 \<Rightarrow> reboot_state \<Rightarrow> reboot_outcome \<times> reboot_state" where
  "sys_reboot dev suser magic magic_too flag st =
     (if \<not> suser then (Returned (- EPERM), st)
      else if magic \<noteq> 0xfee1dead \<or> magic_too \<noteq> 672274793 then (Returned (- EINVAL), st)
      else if flag = 0x01234567 then
        (case call_system_poweroff dev (rpow st) of
           None \<Rightarrow> (NullFault, st)
         | Some p \<Rightarrow> (HardReset, st\<lparr>rpow := p\<rparr>))
      else if flag = 0x89ABCDEF then (Returned 0, st\<lparr>C_A_D := 1\<rparr>)
      else if flag = 0 then (Returned 0, st\<lparr>C_A_D := 0\<rparr>)
      else if flag = 0xCDEF0123 then
        (case call_reset_pif dev (rpow st) of
           None \<Rightarrow> (NullFault, st)
         | Some p \<Rightarrow>
             let st = st\<lparr>rpow := p\<rparr>
             in case call_poweroff_request dev (rpow st) of
                  None \<Rightarrow> (NullFault, st)
                | Some p \<Rightarrow>
                    let st = st\<lparr>rpow := p\<rparr>;
                        st = rprintk ''<0>System halted\<newline>'' st;
                        st = sys_kill (- 1) SIGKILL st;
                        st = rprintk ''<0>Wait for auto-poweroff ...'' st
                    in case call_system_poweroff dev (rpow st) of
                         None \<Rightarrow> (NullFault, st)
                       | Some p \<Rightarrow> (Exited 0, st\<lparr>rpow := p\<rparr>))
      else (Returned (- EINVAL), st))"

text \<open>\<^verbatim>\<open>ctrl_alt_del\<close>: reset at once, or send SIGINT to init with \<^verbatim>\<open>kill_proc\<close>.\<close>

definition kill_proc :: "int \<Rightarrow> int \<Rightarrow> reboot_state \<Rightarrow> reboot_state" where
  "kill_proc pid sig st = st\<lparr>killed := (pid, sig, pbus (rpow st)) # killed st\<rparr>"

definition ctrl_alt_del :: "reboot_state \<Rightarrow> reboot_outcome option \<times> reboot_state" where
  "ctrl_alt_del st = (if C_A_D st \<noteq> 0 then (Some HardReset, st) else (None, kill_proc 1 SIGINT st))"

section \<open>The registers behind it\<close>

lemma poweroff_request_writes:
  "writes_to F1C (pbus (powctrl_poweroff_request dev s)) =
     writes_to F1C (pbus s) @ [dev16 dev (pbus s) F1C OR MRP_SHUTDOWN_REQ]"
  by (simp add: powctrl_poweroff_request_def powctrl_set_f1c_def get_f1c_eq wr16_def Let_def)

lemma system_poweroff_writes:
  "writes_to F1C (pbus (powctrl_system_poweroff dev s)) =
     writes_to F1C (pbus s) @
       (if dev16 dev (pbus s) BID = 0x4126
        then [dev16 dev (Rd16 BID 0x4126 # pbus s) F1C AND NOT MRP_POWEROFF_ACK] else [])"
  by (simp add: powctrl_system_poweroff_def powctrl_poweroff_ack_def powctrl_set_f1c_def get_f1c_eq
      rd16_def wr16_def Let_def)

section \<open>Properties\<close>

text \<open>
  Who can touch the power: a caller without root, or with a wrong magic number, or with an
  unknown flag changes nothing and gets an error; the two Ctrl-Alt-Del settings never access the
  board.
\<close>

theorem sys_reboot_guarded:
  "(\<not> suser \<longrightarrow> sys_reboot dev suser magic magic_too flag st = (Returned (- EPERM), st)) \<and>
   (suser \<and> (magic \<noteq> 0xfee1dead \<or> magic_too \<noteq> 672274793) \<longrightarrow>
      sys_reboot dev suser magic magic_too flag st = (Returned (- EINVAL), st)) \<and>
   (suser \<and> flag \<notin> {0x01234567, 0x89ABCDEF, 0, 0xCDEF0123} \<longrightarrow>
      sys_reboot dev suser magic magic_too flag st = (Returned (- EINVAL), st)) \<and>
   (flag \<in> {0x89ABCDEF, 0} \<longrightarrow>
      rpow (snd (sys_reboot dev suser magic magic_too flag st)) = rpow st)"
  by (auto simp: sys_reboot_def)

theorem sys_reboot_guarded_witness:
  "sys_reboot demo_dev False 0xfee1dead 672274793 0xCDEF0123
     \<lparr>C_A_D = 1, killed = [], printed = [], rpow = demo_blink\<rparr> =
   (Returned (- EPERM), \<lparr>C_A_D = 1, killed = [], printed = [], rpow = demo_blink\<rparr>)"
  using sys_reboot_guarded [of False demo_dev "0xfee1dead" 672274793 "0xCDEF0123"
      "\<lparr>C_A_D = 1, killed = [], printed = [], rpow = demo_blink\<rparr>"]
  by blast

text \<open>
  C10: The order of a halt, with root and the right magic numbers. On a machine whose power control windows are mapped, the halt request writes F1C
  first with the shutdown request bit set; with that as the only write so far it kills every
  process; then, if the board identification register BID reads 0x4126, it writes F1C
  once more with the power-off acknowledge bit clear, and otherwise writes nothing more. It
  leaves polling enabled, and it ends in \<^verbatim>\<open>do_exit\<close>. Without a mapped board the call faults on the null pointer before it has written F1C or
  killed any process.
\<close>

theorem sys_reboot_halt_order:
  assumes "sys_reboot dev True 0xfee1dead 672274793 0xCDEF0123 st = (out, st')"
  shows "if windows_mapped (rpow st) then
      out = Exited 0 \<and> powctrl_timer_enable (rpow st') = 1 \<and>
      (\<exists>h v w bid. killed st' = (- 1, SIGKILL, h) # killed st \<and>
         writes_to F1C h = writes_to F1C (pbus (rpow st)) @ [v] \<and> v AND MRP_SHUTDOWN_REQ = MRP_SHUTDOWN_REQ \<and> w AND MRP_POWEROFF_ACK = 0 \<and>
         bid = dev16 dev h BID \<and> Rd16 BID bid \<in> set (pbus (rpow st')) \<and>
         writes_to F1C (pbus (rpow st')) =
           writes_to F1C (pbus (rpow st)) @ v # (if bid = 0x4126 then [w] else []))
    else out = NullFault \<and> killed st' = killed st \<and> writes_to F1C (pbus (rpow st')) = writes_to F1C (pbus (rpow st))"
proof (cases "windows_mapped (rpow st)")
  case True
  define p where "p = powctrl_poweroff_request dev (powctrl_reset_pif dev (rpow st))"
  have m: "pbase0 (rpow st) \<noteq> 0" "pmrpregs (powctrl_reset_pif dev (rpow st)) \<noteq> 0" "pmrpregs p \<noteq> 0"
    using True mapped_request [of dev "powctrl_reset_pif dev (rpow st)"] pvars_eqD(6) [OF pvars_reset_pif, of dev "rpow st"]
    by (simp_all add: windows_mapped_def p_def)
  let ?v = "dev16 dev (pbus (powctrl_reset_pif dev (rpow st))) F1C OR MRP_SHUTDOWN_REQ"
  let ?w = "dev16 dev (Rd16 BID 0x4126 # pbus p) F1C AND NOT MRP_POWEROFF_ACK"
  have out: "out = Exited 0" "killed st' = (- 1, SIGKILL, pbus p) # killed st"
    and pow: "rpow st' = powctrl_system_poweroff dev p"
    using assms m
    by (auto simp: sys_reboot_def sys_kill_def rprintk_def Let_def p_def call_reset_pif_def call_poweroff_request_def
        call_system_poweroff_def)
  have h: "writes_to F1C (pbus p) = writes_to F1C (pbus (rpow st)) @ [?v]"
    by (simp add: p_def poweroff_request_writes writes_to_reset_pif)
  have en: "powctrl_timer_enable p = 1"
    by (simp add: p_def powctrl_poweroff_request_def powctrl_set_f1c_def get_f1c_eq Let_def)
  have bid: "Rd16 BID (dev16 dev (pbus p) BID) \<in> set (pbus (rpow st'))"
    by (simp add: pow powctrl_system_poweroff_def powctrl_poweroff_ack_def powctrl_set_f1c_def
        get_f1c_eq rd16_def wr16_def Let_def)
  have w: "writes_to F1C (pbus (rpow st')) = writes_to F1C (pbus (rpow st)) @ ?v #
      (if dev16 dev (pbus p) BID = 0x4126 then [?w] else [])"
    unfolding pow system_poweroff_writes
    by (simp add: p_def poweroff_request_writes writes_to_reset_pif)
  have "powctrl_timer_enable (rpow st') = 1"
    using en pvars_eqD(4) [OF pvars_poweroff_ack] by (simp add: pow powctrl_system_poweroff_def)
  moreover have "?v AND MRP_SHUTDOWN_REQ = MRP_SHUTDOWN_REQ" "?w AND MRP_POWEROFF_ACK = 0"
    by (simp_all only: set_and_mask clear_and_mask)
  ultimately have "out = Exited 0 \<and> powctrl_timer_enable (rpow st') = 1 \<and>
      (\<exists>h v w bid. killed st' = (- 1, SIGKILL, h) # killed st \<and>
         writes_to F1C h = writes_to F1C (pbus (rpow st)) @ [v] \<and> v AND MRP_SHUTDOWN_REQ = MRP_SHUTDOWN_REQ \<and> w AND MRP_POWEROFF_ACK = 0 \<and>
         bid = dev16 dev h BID \<and> Rd16 BID bid \<in> set (pbus (rpow st')) \<and>
         writes_to F1C (pbus (rpow st')) =
           writes_to F1C (pbus (rpow st)) @ v # (if bid = 0x4126 then [w] else []))"
    using out bid w h by blast
  then show ?thesis using True by simp
next
  case False
  then have "pbase0 (rpow st) = 0 \<or> pmrpregs (powctrl_reset_pif dev (rpow st)) = 0"
    using pvars_eqD(8) [OF pvars_reset_pif, of dev "rpow st"] by (simp add: windows_mapped_def)
  then show ?thesis
    using False assms writes_to_reset_pif [of F1C dev "rpow st"]
    by (auto simp: sys_reboot_def Let_def call_reset_pif_def call_poweroff_request_def split: if_splits)
qed

theorem sys_reboot_halt_order_witness:
  "(\<exists>out st'. sys_reboot demo_dev True 0xfee1dead 672274793 0xCDEF0123
      \<lparr>C_A_D = 0, killed = [], printed = [], rpow = snd (snd (snd demo_init))\<rparr> = (out, st') \<and> out = Exited 0 \<and>
      (\<exists>h. killed st' = [(- 1, SIGKILL, h)])) \<and>
   (\<exists>st'. sys_reboot demo_dev True 0xfee1dead 672274793 0xCDEF0123
      \<lparr>C_A_D = 0, killed = [], printed = [], rpow = powctrl_static\<rparr> = (NullFault, st') \<and> killed st' = [])"
proof -
  let ?st = "\<lparr>C_A_D = 0, killed = [], printed = [], rpow = snd (snd (snd demo_init))\<rparr>"
  let ?off = "\<lparr>C_A_D = 0, killed = [], printed = [], rpow = powctrl_static\<rparr>"
  obtain out st' where r: "sys_reboot demo_dev True 0xfee1dead 672274793 0xCDEF0123 ?st = (out, st')" by fastforce
  obtain out0 st0 where r0: "sys_reboot demo_dev True 0xfee1dead 672274793 0xCDEF0123 ?off = (out0, st0)" by fastforce
  have "windows_mapped (rpow ?st)" using reach_alive [OF demo_reach] by (simp add: powctrl_alive_def)
  moreover have "\<not> windows_mapped (rpow ?off)" by (simp add: windows_mapped_def powctrl_static_def)
  ultimately show ?thesis
    using sys_reboot_halt_order [OF r] sys_reboot_halt_order [OF r0] r r0 by auto
qed

end
