(* ===== verification/Timer_Wheel.thy ===== *)
theory Timer_Wheel
  imports Timers
begin

text \<open>
  Why the timer vectors work: an invariant that says which timers each slot may hold at a given
  \<^verbatim>\<open>timer_jiffies\<close>, its preservation by insertion, cascading and the advance of time, and from it
  that at every tick the slot about to run holds exactly the timers that are due, and that no
  timer is lost on the way. Times are read as natural numbers, for an uptime in which the tick
  counter has not come within \<open>2\<^sup>2\<^sup>6\<close> ticks of its wrap-around.
\<close>

section \<open>Times, blocks and the invariant\<close>

definition time :: "timer_base \<Rightarrow> nat" where
  "time b = unat (timer_jiffies b)"

definition due :: "timer_base \<Rightarrow> nat \<Rightarrow> nat" where
  "due b t = unat (expires (tobj b t))"

text \<open>A slot of vector \<^verbatim>\<open>l\<close> spans \<open>2 ^ shift l\<close> ticks, a block.\<close>

fun shift :: "tv \<Rightarrow> nat" where
  "shift TV1 = 0"
| "shift TV2 = 8"
| "shift TV3 = 14"
| "shift TV4 = 20"
| "shift TV5 = 26"

text \<open>
  The block the vector's index points to: the next one to be cascaded. Before the cascade of the
  present tick it is the first block that starts now or later, after it the first that starts
  later.
\<close>

definition blk :: "bool \<Rightarrow> nat \<Rightarrow> nat \<Rightarrow> nat" where
  "blk cascaded now s = (if cascaded then now div 2 ^ s + 1 else (now + 2 ^ s - 1) div 2 ^ s)"

definition in_block :: "nat \<Rightarrow> nat \<Rightarrow> nat \<Rightarrow> nat \<Rightarrow> bool" where
  "in_block c s i e \<longleftrightarrow> i = e div 2 ^ s mod 64 \<and> c \<le> e div 2 ^ s \<and> e div 2 ^ s < c + 64"

definition in_root :: "nat \<Rightarrow> nat \<Rightarrow> nat \<Rightarrow> bool" where
  "in_root now i e \<longleftrightarrow>
     i = e mod 256 \<and> now \<le> e \<and> e < now + 256 \<or> i = now mod 256 \<and> e < now"

definition winv :: "(tv \<Rightarrow> bool) \<Rightarrow> timer_base \<Rightarrow> bool" where
  "winv ph b \<longleftrightarrow>
     tindex b TV1 = time b mod 256 \<and>
     (\<forall>l. l \<noteq> TV1 \<longrightarrow> tindex b l = blk (ph l) (time b) (shift l) mod 64) \<and>
     (\<forall>i. \<forall>t \<in> set (tvec b TV1 i). in_root (time b) i (due b t)) \<and>
     (\<forall>l i. l \<noteq> TV1 \<longrightarrow> (\<forall>t \<in> set (tvec b l i).
        in_block (blk (ph l) (time b) (shift l)) (shift l) i (due b t))) \<and>
     tself b = []"

text \<open>The invariant between ticks.\<close>

abbreviation wheel_ok :: "timer_base \<Rightarrow> bool" where
  "wheel_ok b \<equiv> winv (\<lambda>_. False) b"

definition unwrapped :: "timer_base \<Rightarrow> bool" where
  "unwrapped b \<longleftrightarrow> time b < 2 ^ 32 - 2 ^ 26"

section \<open>Block arithmetic\<close>

lemma add_blocks: "(a + k * 2 ^ s) div 2 ^ s = a div 2 ^ s + (k :: nat)"
  by (simp add: div_mult_self1 add.commute)

lemma add_block: "(a + 2 ^ s) div 2 ^ s = a div 2 ^ s + (1 :: nat)"
  using add_blocks [of a 1 s] by simp

lemma blk_lower:
  assumes "now + 2 ^ s \<le> e"
  shows "blk p now s \<le> e div 2 ^ s"
proof -
  have "(now + 2 ^ s) div 2 ^ s \<le> e div 2 ^ s"
    using assms by (rule div_le_mono)
  moreover have "(now + 2 ^ s - 1) div 2 ^ s \<le> (now + 2 ^ s) div 2 ^ s"
    by (rule div_le_mono) simp
  ultimately show ?thesis
    by (auto simp add: blk_def add_block)
qed

lemma blk_False_le: "blk False now s \<le> blk True now s"
proof -
  have "(now + 2 ^ s - 1) div 2 ^ s \<le> (now + 2 ^ s) div 2 ^ s"
    by (rule div_le_mono) simp
  then show ?thesis by (simp add: blk_def add_block)
qed

lemma blk_upper:
  assumes "e < now + 64 * 2 ^ s"
  shows "e div 2 ^ s < blk p now s + 64"
proof -
  have "e div 2 ^ s \<le> (now + 64 * 2 ^ s - 1) div 2 ^ s"
    using assms by (intro div_le_mono) simp
  also have "now + 64 * 2 ^ s - 1 = (now + 2 ^ s - 1) + 63 * 2 ^ s"
    by simp
  also have "\<dots> div 2 ^ s = (now + 2 ^ s - 1) div 2 ^ s + 63"
    by (rule add_blocks)
  finally have "e div 2 ^ s < blk False now s + 64"
    by (simp add: blk_def)
  also have "blk False now s + 64 \<le> blk p now s + 64"
    using blk_False_le by (cases p) simp_all
  finally show ?thesis .
qed

lemma blk_no_boundary:
  assumes "\<not> 2 ^ s dvd now"
  shows "blk False now s = blk True now s"
proof -
  let ?d = "2 ^ s :: nat" and ?q = "now div 2 ^ s" and ?r = "now mod 2 ^ s"
  have r: "0 < ?r" "?r < ?d"
    using assms by (simp_all add: mod_greater_zero_iff_not_dvd)
  have "now + ?d - 1 = (?r + ?d - 1) + ?q * ?d"
    using r div_mult_mod_eq [of now ?d] by linarith
  then have "(now + ?d - 1) div ?d = (?r + ?d - 1) div ?d + ?q"
    by (simp only: add_blocks)
  also have "(?r + ?d - 1) div ?d = 1"
  proof (rule div_nat_eqI)
    show "?d * 1 \<le> ?r + ?d - 1" using r by linarith
    have "?d * Suc 1 = ?d + ?d" by simp
    then show "?r + ?d - 1 < ?d * Suc 1" using r by linarith
  qed
  finally show ?thesis by (simp add: blk_def)
qed

lemma blk_boundary:
  assumes "2 ^ s dvd now"
  shows "blk False now s = now div 2 ^ s"
proof -
  let ?d = "2 ^ s :: nat"
  have d: "0 < ?d" by simp
  obtain k where k: "now = ?d * k" using assms by (rule dvdE)
  have "(?d * k + ?d - 1) div ?d = k"
  proof (rule div_nat_eqI)
    show "?d * k \<le> ?d * k + ?d - 1" using d by linarith
    have "?d * Suc k = ?d * k + ?d" by simp
    then show "?d * k + ?d - 1 < ?d * Suc k" using d by linarith
  qed
  then show ?thesis by (simp add: blk_def k)
qed

lemma blk_step: "blk True now s = blk False (now + 1) s"
  by (simp add: blk_def add_block)

text \<open>Within 64 consecutive blocks the slot number tells the block.\<close>

lemma same_slot_same_block:
  assumes "c \<le> (x :: nat)" "x < c + 64" "x mod 64 = c mod 64"
  shows "x = c"
proof -
  have "64 dvd x - c"
    using assms by (simp add: mod_eq_dvd_iff_nat)
  moreover have "x - c < 64"
    using assms by linarith
  ultimately show ?thesis
    using assms(1) by (auto dest: dvd_imp_le)
qed

section \<open>Where a timer is put\<close>

text \<open>The slot \<^verbatim>\<open>internal_add_timer\<close> chooses, in natural numbers.\<close>

definition place :: "nat \<Rightarrow> nat \<Rightarrow> tv \<times> nat" where
  "place now e =
     (if e < now then (TV1, now mod 256)
      else if e - now < 2 ^ 8 then (TV1, e mod 256)
      else if e - now < 2 ^ 14 then (TV2, e div 2 ^ 8 mod 64)
      else if e - now < 2 ^ 20 then (TV3, e div 2 ^ 14 mod 64)
      else if e - now < 2 ^ 26 then (TV4, e div 2 ^ 20 mod 64)
      else (TV5, e div 2 ^ 26 mod 64))"

lemma unat_slot:
  "unat ((e :: u32) AND 255) = unat e mod 256"
  "unat (drop_bit n (e :: u32) AND 63) = unat e div 2 ^ n mod 64"
proof -
  have "e AND 255 = e AND mask 8" "drop_bit n e AND 63 = drop_bit n e AND mask 6"
    by (simp_all add: mask_eq_exp_minus_1)
  then show "unat (e AND 255) = unat e mod 256"
    and "unat (drop_bit n e AND 63) = unat e div 2 ^ n mod 64"
    by (simp_all only: unat_and_mask unat_drop_div) simp_all
qed

lemma unat_diff_u32:
  "unat ((x :: u32) - y) = (if unat y \<le> unat x then unat x - unat y else unat x + 2 ^ 32 - unat y)"
  using unat_sub_if' [of x y] by simp

definition addable :: "timer_base \<Rightarrow> nat \<Rightarrow> bool" where
  "addable b t \<longleftrightarrow> time b < 2 ^ 32 - 2 ^ 26 \<and> due b t < 2 ^ 32 - 1"

lemma add_place:
  assumes "addable b t" and "tindex b TV1 = time b mod 256"
  shows "internal_add_timer t b = insert_timer t (fst (place (time b) (due b t)))
     (snd (place (time b) (due b t))) b"
proof -
  let ?e = "expires (tobj b t)" and ?n = "timer_jiffies b"
  have n: "unat ?n < 4227858432" and e: "unat ?e < 4294967295"
    using assms(1) by (simp_all add: addable_def time_def due_def)
  have d: "unat (?e - ?n) = (if unat ?n \<le> unat ?e then unat ?e - unat ?n
      else unat ?e + 4294967296 - unat ?n)"
    using unat_diff_u32 [of ?e ?n] by simp
  show ?thesis
  proof (cases "unat ?e < unat ?n")
    case True
    then have "67108864 \<le> unat (?e - ?n)"
      using d n by simp
    then show ?thesis
      using True assms(2)
      by (simp add: internal_add_timer_def Let_def place_def time_def due_def word_less_nat_alt)
  next
    case False
    then have "unat (?e - ?n) = unat ?e - unat ?n"
      using d by simp
    then show ?thesis
      using False e
      by (simp add: internal_add_timer_def Let_def place_def time_def due_def word_less_nat_alt
          unat_slot)
  qed
qed

lemma place_slot: "snd (place now e) \<in> set (slots (fst (place now e)))"
  by (auto simp: place_def slots_def TVR_SIZE_def TVN_SIZE_def)

text \<open>A timer due within one block of a vector goes to a faster vector.\<close>

lemma place_faster:
  assumes "l \<noteq> TV1" "now \<le> e" "e < now + 2 ^ shift l"
  shows "fst (place now e) \<noteq> l"
  using assms by (cases l) (auto simp: place_def)

lemma place_in_root:
  assumes "fst (place now e) = TV1"
  shows "in_root now (snd (place now e)) e"
  using assms by (auto simp: place_def in_root_def split: if_splits)

lemma place_in_block:
  assumes "fst (place now e) = l" "l \<noteq> TV1" "e < 2 ^ 32"
  shows "in_block (blk p now (shift l)) (shift l) (snd (place now e)) e"
proof -
  have "now + 2 ^ shift l \<le> e" "e < now + 64 * 2 ^ shift l"
    and "snd (place now e) = e div 2 ^ shift l mod 64"
    using assms by (cases l; auto simp: place_def split: if_splits)+
  then show ?thesis
    using blk_lower blk_upper by (simp add: in_block_def)
qed

lemma insert_timer_time [simp]: "time (insert_timer t l i b) = time b"
  by (simp add: time_def)

lemma insert_timer_due [simp]: "due (insert_timer t l i b) = due b"
  by (simp add: due_def fun_eq_iff)

lemma add_winv:
  assumes "winv ph b" "addable b t"
  shows "winv ph (internal_add_timer t b)"
proof -
  define p where "p = place (time b) (due b t)"
  have ix: "tindex b TV1 = time b mod 256" using assms(1) by (simp add: winv_def)
  have lt: "due b t < 2 ^ 32" using assms(2) by (simp add: addable_def)
  have root: "fst p = TV1 \<Longrightarrow> in_root (time b) (snd p) (due b t)"
    unfolding p_def by (rule place_in_root)
  have block: "fst p \<noteq> TV1 \<Longrightarrow>
      in_block (blk (ph (fst p)) (time b) (shift (fst p))) (shift (fst p)) (snd p) (due b t)"
    unfolding p_def by (rule place_in_block [OF refl _ lt])
  show ?thesis
    unfolding add_place [OF assms(2) ix] p_def [symmetric]
    using assms(1) root block
    by (auto simp: winv_def tvec_insert_timer)
qed

section \<open>Cascading\<close>

lemma winv_index_ok: "winv ph b \<Longrightarrow> index_ok b"
  by (auto simp: winv_def index_ok_def TVR_SIZE_def TVN_SIZE_def)

lemma winv_phase:
  assumes "winv ph b"
    and "\<And>l. l \<noteq> TV1 \<Longrightarrow> ph l \<noteq> ph' l \<Longrightarrow> \<not> 2 ^ shift l dvd time b"
  shows "winv ph' b"
proof -
  have "blk (ph' l) (time b) (shift l) = blk (ph l) (time b) (shift l)" if "l \<noteq> TV1" for l
    using assms(2) [OF that] blk_no_boundary [of "shift l" "time b"]
    by (cases "ph l"; cases "ph' l") auto
  then show ?thesis
    using assms(1) by (simp add: winv_def)
qed

text \<open>
  Re-adding timers that are due within one block of vector \<^verbatim>\<open>l\<close> keeps the invariant, leaves that
  vector alone, and links each of them into another one.
\<close>

definition elsewhere :: "tv \<Rightarrow> timer_base \<Rightarrow> nat \<Rightarrow> bool" where
  "elsewhere l b t \<longleftrightarrow> (\<exists>k i. k \<noteq> l \<and> i \<in> set (slots k) \<and> t \<in> set (tvec b k i))"

lemma mem_insert_timer:
  "u \<in> set (tvec (insert_timer t l i b) k j) \<longleftrightarrow> k = l \<and> j = i \<and> u = t \<or> u \<in> set (tvec b k j)"
  by (auto simp: tvec_insert_timer)

lemma fold_add:
  assumes "winv ph b" "l \<noteq> TV1" "unwrapped b"
    and "\<forall>t \<in> set ts. time b \<le> due b t \<and> due b t < time b + 2 ^ shift l"
  shows "winv ph (fold internal_add_timer ts b)
    \<and> tvec (fold internal_add_timer ts b) l = tvec b l
    \<and> tindex (fold internal_add_timer ts b) = tindex b
    \<and> tobj (fold internal_add_timer ts b) = tobj b
    \<and> timer_jiffies (fold internal_add_timer ts b) = timer_jiffies b
    \<and> (\<forall>u. elsewhere l (fold internal_add_timer ts b) u \<longleftrightarrow> u \<in> set ts \<or> elsewhere l b u)"
  using assms
proof (induction ts arbitrary: b)
  case Nil
  then show ?case by simp
next
  case (Cons t ts)
  define b1 where "b1 = internal_add_timer t b"
  have sh: "2 ^ shift l \<le> (2 ^ 26 :: nat)"
    by (cases l) simp_all
  have t: "time b \<le> due b t" "due b t < time b + 2 ^ shift l"
    using Cons.prems(4) by simp_all
  have ad: "addable b t"
    using t sh Cons.prems(3) by (simp add: addable_def unwrapped_def)
  define p where "p = place (time b) (due b t)"
  have b1: "b1 = insert_timer t (fst p) (snd p) b"
    unfolding b1_def p_def using Cons.prems(1) by (intro add_place ad) (simp add: winv_def)
  have pl: "fst p \<noteq> l" and ps: "snd p \<in> set (slots (fst p))"
    unfolding p_def using place_faster [OF Cons.prems(2) t] place_slot by auto
  have e1: "elsewhere l b1 u \<longleftrightarrow> u = t \<or> elsewhere l b u" for u
    unfolding b1 elsewhere_def mem_insert_timer using pl ps by auto
  have v1: "tvec b1 l = tvec b l"
    unfolding b1 using pl by (auto simp: tvec_insert_timer fun_eq_iff)
  have tm: "time b1 = time b" "due b1 = due b"
    unfolding b1 by simp_all
  have "winv ph b1" unfolding b1_def by (rule add_winv [OF Cons.prems(1) ad])
  from Cons.IH [OF this Cons.prems(2)] Cons.prems(3,4)
  have "winv ph (fold internal_add_timer ts b1)
    \<and> tvec (fold internal_add_timer ts b1) l = tvec b1 l
    \<and> tindex (fold internal_add_timer ts b1) = tindex b1
    \<and> tobj (fold internal_add_timer ts b1) = tobj b1
    \<and> timer_jiffies (fold internal_add_timer ts b1) = timer_jiffies b1
    \<and> (\<forall>u. elsewhere l (fold internal_add_timer ts b1) u \<longleftrightarrow> u \<in> set ts \<or> elsewhere l b1 u)"
    by (simp add: tm unwrapped_def)
  moreover have "fold internal_add_timer (t # ts) b = fold internal_add_timer ts b1"
    by (simp add: b1_def)
  moreover have "tindex b1 = tindex b" "tobj b1 = tobj b" "timer_jiffies b1 = timer_jiffies b"
    unfolding b1 by simp_all
  ultimately show ?case
    using v1 e1 by auto
qed

lemma pending_elsewhere:
  "tself b = [] \<Longrightarrow>
   pending b u \<longleftrightarrow> elsewhere l b u \<or> (\<exists>i \<in> set (slots l). u \<in> set (tvec b l i))"
  by (auto simp: pending_iff elsewhere_def)

text \<open>The block a slot is cascaded in starts now.\<close>

lemma cascade_slot_due:
  assumes w: "winv ph b" and l: "l \<noteq> TV1" "\<not> ph l" "2 ^ shift l dvd time b"
    and t: "t \<in> set (tvec b l (tindex b l))"
  shows "time b \<le> due b t \<and> due b t < time b + 2 ^ shift l"
proof -
  let ?c = "time b div 2 ^ shift l" and ?d = "2 ^ shift l :: nat"
  have c: "blk (ph l) (time b) (shift l) = ?c"
    using l by (simp add: blk_boundary)
  have "in_block ?c (shift l) (tindex b l) (due b t)" "tindex b l = ?c mod 64"
    using w l t c by (auto simp: winv_def)
  then have "due b t div ?d mod 64 = ?c mod 64" "?c \<le> due b t div ?d" "due b t div ?d < ?c + 64"
    by (simp_all add: in_block_def)
  then have q: "due b t div ?d = ?c"
    using same_slot_same_block by simp
  have T: "time b = ?c * ?d" using l(3) by simp
  have "due b t = ?c * ?d + due b t mod ?d" using q div_mult_mod_eq [of "due b t" ?d] by simp
  moreover have "due b t mod ?d < ?d" by simp
  ultimately show ?thesis using T by linarith
qed

text \<open>Cascading a vector at the start of one of its blocks: time and timers stay, the index moves on.\<close>

lemma cascade_timers_ok:
  assumes w: "winv ph b" and l: "l \<noteq> TV1" "\<not> ph l" "2 ^ shift l dvd time b"
    and u: "unwrapped b"
  shows "winv (ph(l := True)) (cascade_timers l b)
    \<and> tobj (cascade_timers l b) = tobj b
    \<and> timer_jiffies (cascade_timers l b) = timer_jiffies b
    \<and> tindex (cascade_timers l b) l = (time b div 2 ^ shift l + 1) mod 64
    \<and> pending (cascade_timers l b) = pending b"
proof -
  let ?i = "tindex b l" and ?c = "time b div 2 ^ shift l"
  define ts where "ts = tvec b l ?i"
  define b1 where "b1 = fold internal_add_timer ts b"
  define b2 where "b2 = cascade_timers l b"
  have "\<forall>t \<in> set ts. time b \<le> due b t \<and> due b t < time b + 2 ^ shift l"
    unfolding ts_def using cascade_slot_due [OF w l] by blast
  from fold_add [OF w l(1) u this]
  have w1: "winv ph b1" and v1: "tvec b1 l = tvec b l"
    and s1: "tindex b1 = tindex b" "tobj b1 = tobj b" "timer_jiffies b1 = timer_jiffies b"
    and e1: "\<And>x. elsewhere l b1 x \<longleftrightarrow> x \<in> set ts \<or> elsewhere l b x"
    unfolding b1_def by blast+
  have b2: "b2 = b1\<lparr>tvec := (tvec b1)(l := (tvec b l)(?i := [])),
      tindex := (tindex b)(l := (?i + 1) mod 64)\<rparr>"
    by (simp add: b2_def cascade_timers_def Let_def b1_def [symmetric] ts_def [symmetric] v1 s1
        TVN_SIZE_def)
  have c: "blk False (time b) (shift l) = ?c" "blk True (time b) (shift l) = ?c + 1"
    using l(3) by (simp_all add: blk_boundary) (simp add: blk_def)
  have i: "?i = ?c mod 64"
    using w l c by (simp add: winv_def)
  have ix: "tindex b2 l = (?c + 1) mod 64"
    by (simp add: b2 i mod_simps)
  have t2: "time b1 = time b" "time b2 = time b" "due b1 = due b" "due b2 = due b"
    by (simp_all add: time_def due_def b2 s1 fun_eq_iff)
  have rest: "in_block (?c + 1) (shift l) j (due b x)" if "j \<noteq> ?i" "x \<in> set (tvec b l j)" for j x
  proof -
    have b: "in_block ?c (shift l) j (due b x)"
      using w l that(2) c by (auto simp: winv_def)
    then have "due b x div 2 ^ shift l \<noteq> ?c"
      using that(1) i by (auto simp: in_block_def)
    then show ?thesis
      using b by (auto simp: in_block_def)
  qed
  have w2: "winv (ph(l := True)) b2"
    using w1 l(1) ix rest unfolding winv_def t2
    by (auto simp: b2 s1 c)
  have p: "pending b2 x \<longleftrightarrow> pending b x" for x
  proof -
    have self: "tself b = []" "tself b2 = []"
      using w w2 by (simp_all add: winv_def)
    have "?i \<in> set (slots l)"
      using winv_index_ok [OF w] by (simp add: index_ok_iff)
    moreover have "elsewhere l b2 x \<longleftrightarrow> x \<in> set ts \<or> elsewhere l b x"
      unfolding e1 [symmetric] by (auto simp: elsewhere_def b2)
    moreover have "tvec b2 l = (tvec b l)(?i := [])"
      by (simp add: b2)
    ultimately show ?thesis
      unfolding pending_elsewhere [OF self(1), of _ l] pending_elsewhere [OF self(2), of _ l]
      by (auto simp: ts_def)
  qed
  show ?thesis
    unfolding b2_def [symmetric] using w2 ix p by (auto simp: b2 s1)
qed

text \<open>The vectors in the order of their spans: each block is 64 blocks of the one before.\<close>

fun chain :: "tv list \<Rightarrow> bool" where
  "chain (l # k # ls) \<longleftrightarrow> shift k = shift l + 6 \<and> chain (k # ls)"
| "chain _ \<longleftrightarrow> True"

lemma chain_shift: "chain (l # ls) \<Longrightarrow> k \<in> set ls \<Longrightarrow> shift l + 6 \<le> shift k"
  by (induction "l # ls" arbitrary: l ls rule: chain.induct) auto

lemma next_index_wraps:
  assumes "2 ^ s dvd (now :: nat)"
  shows "(now div 2 ^ s + 1) mod 64 = 1 \<longleftrightarrow> 2 ^ (s + 6) dvd now"
proof -
  obtain k where k: "now = 2 ^ s * k" using assms by (rule dvdE)
  have "2 ^ (s + 6) dvd now \<longleftrightarrow> 64 dvd k"
    by (simp add: k power_add)
  also have "\<dots> \<longleftrightarrow> (k + 1) mod 64 = 1"
    by (simp add: mod_Suc dvd_eq_mod_eq_0)
  finally show ?thesis by (simp add: k)
qed

text \<open>
  The cascade loop stops exactly where the slower vectors are not at the start of a block.
\<close>

lemma cascade_loop_ok:
  assumes "winv ph b" "unwrapped b" "chain ls" "distinct ls" "TV1 \<notin> set ls"
    and "\<forall>l. l \<noteq> TV1 \<longrightarrow> ph l \<longleftrightarrow> l \<notin> set ls"
    and "ls \<noteq> [] \<longrightarrow> 2 ^ shift (hd ls) dvd time b"
  shows "winv (\<lambda>_. True) (cascade_loop ls b)
    \<and> tobj (cascade_loop ls b) = tobj b
    \<and> timer_jiffies (cascade_loop ls b) = timer_jiffies b
    \<and> pending (cascade_loop ls b) = pending b"
  using assms
proof (induction ls arbitrary: b ph)
  case Nil
  have "winv (\<lambda>_. True) b"
    by (rule winv_phase [OF Nil(1)]) (use Nil(6) in auto)
  then show ?case by simp
next
  case (Cons l ls)
  define b1 where "b1 = cascade_timers l b"
  have l: "l \<noteq> TV1" "\<not> ph l" "2 ^ shift l dvd time b" using Cons.prems by auto
  have w1: "winv (ph(l := True)) b1" and f1: "tobj b1 = tobj b" "timer_jiffies b1 = timer_jiffies b"
    "pending b1 = pending b" and i1: "tindex b1 l = (time b div 2 ^ shift l + 1) mod 64"
    using cascade_timers_ok [OF Cons.prems(1) l Cons.prems(2)] unfolding b1_def by blast+
  have t1: "time b1 = time b" by (simp add: time_def f1)
  have wrap: "tindex b1 l = 1 \<longleftrightarrow> 2 ^ (shift l + 6) dvd time b"
    unfolding i1 by (rule next_index_wraps [OF l(3)])
  show ?case
  proof (cases "tindex b1 l = 1")
    case True
    have "chain ls" "ls \<noteq> [] \<longrightarrow> 2 ^ shift (hd ls) dvd time b1"
      using Cons.prems(3) True wrap t1 by (cases ls; simp)+
    moreover have "unwrapped b1" using Cons.prems(2) by (simp add: unwrapped_def t1)
    ultimately have "winv (\<lambda>_. True) (cascade_loop ls b1)
        \<and> tobj (cascade_loop ls b1) = tobj b1
        \<and> timer_jiffies (cascade_loop ls b1) = timer_jiffies b1
        \<and> pending (cascade_loop ls b1) = pending b1"
      using Cons.prems by (intro Cons.IH [OF w1]) auto
    then show ?thesis
      using True by (simp add: b1_def [symmetric] f1)
  next
    case False
    have "winv (\<lambda>_. True) b1"
    proof (rule winv_phase [OF w1])
      fix k assume "k \<noteq> TV1" "(ph(l := True)) k \<noteq> True"
      then have "k \<in> set ls" using Cons.prems(6) by (auto split: if_splits)
      then have "2 ^ (shift l + 6) dvd (2 ^ shift k :: nat)"
        using chain_shift [OF Cons.prems(3)] by (simp add: le_imp_power_dvd)
      then show "\<not> 2 ^ shift k dvd time b1"
        using False wrap t1 dvd_trans by metis
    qed
    then show ?thesis
      using False by (simp add: b1_def [symmetric] f1)
  qed
qed

lemma cascade_if_wrapped_ok:
  assumes "wheel_ok b" "unwrapped b"
  shows "winv (\<lambda>_. True) (cascade_if_wrapped b)
    \<and> tobj (cascade_if_wrapped b) = tobj b
    \<and> timer_jiffies (cascade_if_wrapped b) = timer_jiffies b
    \<and> pending (cascade_if_wrapped b) = pending b"
proof (cases "tindex b TV1 = 0")
  case True
  then have "256 dvd time b" using assms(1) by (auto simp: winv_def)
  then have d: "2 ^ shift TV2 dvd time b" by simp
  let ?ph = "\<lambda>l. l = TV1"
  have "winv ?ph b" using assms(1) by (auto simp: winv_def)
  moreover have "\<forall>l. l \<noteq> TV1 \<longrightarrow> ?ph l \<longleftrightarrow> l \<notin> set [TV2, TV3, TV4, TV5]"
  proof (intro allI impI)
    fix l show "l \<noteq> TV1 \<Longrightarrow> ?ph l \<longleftrightarrow> l \<notin> set [TV2, TV3, TV4, TV5]" by (cases l) simp_all
  qed
  ultimately show ?thesis
    using cascade_loop_ok [of ?ph b "[TV2, TV3, TV4, TV5]"] assms(2) d True
    unfolding cascade_if_wrapped_def by simp
next
  case False
  then have n: "\<not> 256 dvd time b" using assms(1) by (simp add: winv_def dvd_eq_mod_eq_0)
  have "winv (\<lambda>_. True) b"
  proof (rule winv_phase [OF assms(1)])
    fix l assume "l \<noteq> TV1"
    then have "256 dvd (2 ^ shift l :: nat)" by (cases l) simp_all
    then show "\<not> 2 ^ shift l dvd time b" using n dvd_trans by metis
  qed
  then show ?thesis using False by (simp add: cascade_if_wrapped_def)
qed

section \<open>The slot that runs\<close>

definition due_now :: "timer_base \<Rightarrow> nat set" where
  "due_now b = {t. pending b t \<and> due b t \<le> time b}"

abbreviation run_list :: "timer_base \<Rightarrow> nat list" where
  "run_list b \<equiv> tvec b TV1 (tindex b TV1)"

lemma in_root_run:
  assumes "in_root now i e"
  shows "i = now mod 256 \<longleftrightarrow> e \<le> now"
proof
  assume i: "i = now mod 256"
  show "e \<le> now"
  proof (rule ccontr)
    assume "\<not> e \<le> now"
    then have e: "e mod 256 = now mod 256" "now \<le> e" "e - now < 256" "0 < e - now"
      using assms i by (auto simp: in_root_def)
    then have "256 dvd e - now" by (simp add: mod_eq_dvd_iff_nat)
    then show False using e by (auto dest: dvd_imp_le)
  qed
next
  assume "e \<le> now"
  then show "i = now mod 256" using assms by (auto simp: in_root_def)
qed

lemma in_block_later:
  assumes "in_block (blk True now s) s i e"
  shows "now < e"
proof -
  have "now div 2 ^ s < e div 2 ^ s"
    using assms by (simp add: in_block_def blk_def)
  then show ?thesis
    using div_le_mono [of e now "2 ^ s"] by (meson not_le)
qed

lemma run_list_due:
  assumes "winv (\<lambda>_. True) b"
  shows "set (run_list b) = due_now b"
proof -
  have ix: "tindex b TV1 = time b mod 256" and self: "tself b = []"
    and root: "\<And>i t. t \<in> set (tvec b TV1 i) \<Longrightarrow> in_root (time b) i (due b t)"
    and block: "\<And>l i t. l \<noteq> TV1 \<Longrightarrow> t \<in> set (tvec b l i) \<Longrightarrow> time b < due b t"
    using assms in_block_later unfolding winv_def by blast+
  have "tindex b TV1 \<in> set (slots TV1)"
    using winv_index_ok [OF assms] by (simp add: index_ok_iff)
  then have "t \<in> due_now b" if "t \<in> set (run_list b)" for t
    using that ix in_root_run [OF root [OF that]] by (auto simp: due_now_def pending_iff)
  moreover have "t \<in> set (run_list b)" if p: "pending b t" "due b t \<le> time b" for t
  proof -
    obtain l i where li: "t \<in> set (tvec b l i)" using p(1) self by (auto simp: pending_iff)
    have "l = TV1" using block [OF _ li] p(2) by force
    moreover have "i = time b mod 256"
      using in_root_run [OF root] li p(2) \<open>l = TV1\<close> by blast
    ultimately show ?thesis using li ix by simp
  qed
  ultimately show ?thesis by (auto simp: due_now_def)
qed

text \<open>Once the slot is empty the tick may pass.\<close>

lemma next_tick_ok:
  assumes w: "winv (\<lambda>_. True) b" and e: "run_list b = []" and u: "time b < 2 ^ 32 - 1"
  shows "wheel_ok (next_tick b) \<and> time (next_tick b) = time b + 1
    \<and> tobj (next_tick b) = tobj b \<and> pending (next_tick b) = pending b"
proof -
  let ?b = "next_tick b"
  have t: "time ?b = time b + 1"
    using u unat_add_lem [of "timer_jiffies b" 1] by (simp add: time_def next_tick_def)
  have d: "due ?b = due b" and v: "tvec ?b = tvec b" and s: "tself ?b = tself b"
    by (simp_all add: due_def next_tick_def fun_eq_iff)
  have ix: "tindex b TV1 = time b mod 256"
    and root: "\<And>i t. t \<in> set (tvec b TV1 i) \<Longrightarrow> in_root (time b) i (due b t)"
    using w unfolding winv_def by blast+
  have "in_root (time b + 1) i (due b t)" if m: "t \<in> set (tvec b TV1 i)" for i t
  proof -
    have "i \<noteq> time b mod 256" using m e ix by auto
    then have "time b < due b t" using in_root_run [OF root [OF m]] by simp
    then show ?thesis using root [OF m] by (auto simp: in_root_def)
  qed
  moreover have "tindex ?b TV1 = (time b + 1) mod 256"
    by (simp add: next_tick_def ix TVR_SIZE_def mod_simps)
  moreover have "tindex ?b l = tindex b l" if "l \<noteq> TV1" for l
    using that by (simp add: next_tick_def)
  ultimately have "wheel_ok ?b"
    using w unfolding winv_def t d v s blk_step by auto
  moreover have "pending ?b = pending b"
    by (simp add: fun_eq_iff pending_iff v s)
  ultimately show ?thesis using t by (simp add: next_tick_def)
qed

lemma detach_winv: "winv ph b \<Longrightarrow> winv ph (snd (detach_timer t b))"
  by (auto simp: winv_def time_def due_def detach_timer_def)

lemma detach_time [simp]:
  "time (snd (detach_timer t b)) = time b" "due (snd (detach_timer t b)) = due b"
  by (simp_all add: time_def due_def fun_eq_iff)

lemma due_now_detach: "due_now (snd (detach_timer t b)) = due_now b - {t}"
  by (auto simp: due_now_def pending_detach_timer)

section \<open>Running the timers\<close>

text \<open>The loop test \<^verbatim>\<open>(long)(jiffies - timer_jiffies) >= 0\<close> of times less than \<open>2\<^sup>3\<^sup>1\<close> apart.\<close>

lemma tick_pending:
  assumes "unat (n :: u32) \<le> unat j" "unat j < unat n + 2 ^ 31"
  shows "0 \<le> sint (j - n)"
  unfolding sint_nonneg using assms by (simp add: unat_diff_u32)

lemma tick_done: "unat (n :: u32) = unat j + 1 \<Longrightarrow> sint (j - n) < 0"
  using unat_diff_u32 [of j n] sint_nonneg [of "j - n"] by simp

text \<open>
  Timer functions that may delete timers and add ones that are not due yet, but keep the
  vectors in order. They run with interrupts enabled, so the clock may go on meanwhile; \<^verbatim>\<open>I\<close> describes the states of the rest of the
  kernel that can come up, and in these the clock stays within \<^verbatim>\<open>J\<close>.
\<close>

definition polite :: "('k \<Rightarrow> bool) \<Rightarrow> nat \<Rightarrow> ('k \<Rightarrow> u32) \<Rightarrow> 'k tcall \<Rightarrow> bool" where
  "polite I J jiffies call \<longleftrightarrow>
     (\<forall>k. I k \<longrightarrow> unat (jiffies k) \<le> J) \<and>
     (\<forall>f d b k. winv (\<lambda>_. True) b \<longrightarrow> unwrapped b \<longrightarrow> I k \<longrightarrow>
       (let s' = call f d (b, k)
        in winv (\<lambda>_. True) (fst s') \<and> time (fst s') = time b \<and> due_now (fst s') \<subseteq> due_now b
           \<and> I (snd s') \<and> unat (jiffies k) \<le> unat (jiffies (snd s'))))"

lemma politeD:
  assumes "polite I J jiffies call" "I k"
  shows "unat (jiffies k) \<le> J"
    "winv (\<lambda>_. True) b \<Longrightarrow> unwrapped b \<Longrightarrow> call f d (b, k) = (b', k') \<Longrightarrow>
      winv (\<lambda>_. True) b' \<and> time b' = time b \<and> due_now b' \<subseteq> due_now b \<and> I k' \<and> unat (jiffies k) \<le> unat (jiffies k')"
  using assms unfolding polite_def Let_def by (blast, metis fst_conv snd_conv)

lemma run_slot_polite:
  assumes "polite I J jiffies call" "winv (\<lambda>_. True) b" "unwrapped b" "I k"
  shows "\<exists>b' k'. run_slot call (b, k) = Some (b', k') \<and> winv (\<lambda>_. True) b'
    \<and> time b' = time b \<and> run_list b' = [] \<and> I k' \<and> unat (jiffies k) \<le> unat (jiffies k')"
  using assms(2-)
proof (induction "card (due_now b)" arbitrary: b k rule: less_induct)
  case less
  show ?case
  proof (cases "run_list b")
    case Nil
    then show ?thesis using less.prems by (subst run_slot.simps) simp
  next
    case (Cons t ts)
    let ?b = "snd (detach_timer t b)" and ?o = "tobj b t"
    obtain b1 k1 where c: "call (tfunction ?o) (data ?o) (?b, k) = (b1, k1)" by fastforce
    have w: "winv (\<lambda>_. True) ?b" by (rule detach_winv [OF less.prems(1)])
    have uw: "unwrapped ?b" using less.prems(2) by (simp add: unwrapped_def)
    have b1: "winv (\<lambda>_. True) b1" "time b1 = time b" "due_now b1 \<subseteq> due_now b - {t}" "I k1" "unat (jiffies k) \<le> unat (jiffies k1)"
      using politeD(2) [OF assms(1) less.prems(3) w uw c] by (simp_all add: due_now_detach)
    have "finite (due_now b)" "t \<in> due_now b"
      unfolding run_list_due [OF less.prems(1), symmetric] by (simp_all add: Cons)
    then have "due_now b1 \<subset> due_now b" using b1(3) by blast
    then have "card (due_now b1) < card (due_now b)"
      using \<open>finite (due_now b)\<close> by (simp add: psubset_card_mono)
    moreover have "unwrapped b1" using less.prems(2) b1(2) by (simp add: unwrapped_def)
    ultimately obtain b2 k2 where "run_slot call (b1, k1) = Some (b2, k2)" "winv (\<lambda>_. True) b2" "time b2 = time b"
        "run_list b2 = []" "I k2" "unat (jiffies k1) \<le> unat (jiffies k2)"
      using less.hyps [of b1 k1] b1 by auto
    then show ?thesis using b1(5) by (subst run_slot.simps) (simp add: Cons c)
  qed
qed

lemma run_timer_list_polite:
  assumes "polite I J jiffies call" "wheel_ok b" "I k" "time b \<le> unat (jiffies k)"
    "J < time b + 2 ^ 31" "J < 2 ^ 32 - 2 ^ 26"
  shows "\<exists>b' k'. run_timer_list jiffies call (b, k) = Some (b', k') \<and> wheel_ok b' \<and> I k'
    \<and> unat (jiffies k) \<le> unat (jiffies k') \<and> time b' = unat (jiffies k') + 1
    \<and> (\<forall>t. pending b' t \<longrightarrow> unat (jiffies k') < due b' t)"
  using assms(2-5)
proof (induction "J - time b" arbitrary: b k rule: less_induct)
  case less
  define b0 where "b0 = cascade_if_wrapped b"
  have J: "unat (jiffies k) \<le> J" using politeD(1) [OF assms(1) less.prems(2)] .
  have u: "unwrapped b" using less.prems(3) J assms(6) by (simp add: unwrapped_def)
  from cascade_if_wrapped_ok [OF less.prems(1) u]
  have w0: "winv (\<lambda>_. True) b0" and t0: "time b0 = time b"
    unfolding b0_def time_def by auto
  have u0: "unwrapped b0" using u by (simp add: unwrapped_def t0)
  obtain b1 k1 where r1: "run_slot call (b0, k) = Some (b1, k1)" "winv (\<lambda>_. True) b1"
    "time b1 = time b" "run_list b1 = []" "I k1" "unat (jiffies k) \<le> unat (jiffies k1)"
    using run_slot_polite [OF assms(1) w0 u0 less.prems(2)] t0 by auto
  have J1: "unat (jiffies k1) \<le> J" using politeD(1) [OF assms(1) r1(5)] .
  define b2 where "b2 = next_tick b1"
  have lt: "time b1 < 2 ^ 32 - 1" using less.prems(3) J assms(6) r1(3) by simp
  have b2: "wheel_ok b2" "time b2 = time b + 1" "tobj b2 = tobj b1" "pending b2 = pending b1"
    using next_tick_ok [OF r1(2,4) lt] r1(3) by (simp_all add: b2_def)
  have none: "time b < due b2 t" if "pending b2 t" for t
    using run_list_due [OF r1(2)] r1(3,4) that b2 by (auto simp: due_now_def due_def not_le)
  have go: "0 \<le> sint (jiffies k - timer_jiffies b)"
    using less.prems(3,4) J by (intro tick_pending) (simp_all add: time_def)
  have step: "run_timer_list jiffies call (b, k) = run_timer_list jiffies call (b2, k1)"
    by (subst run_timer_list.simps) (simp add: go r1(1) b0_def [symmetric] b2_def)
  show ?case
  proof (cases "time b = unat (jiffies k1)")
    case True
    have "run_timer_list jiffies call (b2, k1) = Some (b2, k1)"
      using tick_done [of "timer_jiffies b2" "jiffies k1"] b2(2) True
      by (subst run_timer_list.simps) (simp add: time_def)
    then show ?thesis using step b2 True r1(5,6) none by simp
  next
    case False
    then have "time b2 \<le> unat (jiffies k1)" using less.prems(3) r1(6) b2(2) by linarith
    moreover from this have "J - time b2 < J - time b" using J1 b2(2) by linarith
    moreover have "J < time b2 + 2 ^ 31" using less.prems(4) b2(2) by linarith
    ultimately obtain b' k' where "run_timer_list jiffies call (b2, k1) = Some (b', k')" "wheel_ok b'" "I k'"
        "unat (jiffies k1) \<le> unat (jiffies k')" "time b' = unat (jiffies k') + 1"
        "\<forall>t. pending b' t \<longrightarrow> unat (jiffies k') < due b' t"
      using less.hyps [of b2 k1] b2(1) r1(5) by blast
    then show ?thesis unfolding step using r1(6) by auto
  qed
qed

text \<open>
  Timer functions that leave the timers alone: then which functions run, and in which order, is
  determined.
\<close>

definition quiet :: "(nat \<Rightarrow> u32 \<Rightarrow> 'k \<Rightarrow> 'k) \<Rightarrow> 'k tcall" where
  "quiet h f d s = (fst s, h f d (snd s))"

definition fire :: "(nat \<Rightarrow> u32 \<Rightarrow> 'k \<Rightarrow> 'k) \<Rightarrow> (nat \<Rightarrow> timer_list) \<Rightarrow> nat list \<Rightarrow> 'k \<Rightarrow> 'k" where
  "fire h obj ts = fold (\<lambda>t. h (tfunction (obj t)) (data (obj t))) ts"

lemma run_slot_quiet:
  assumes "winv (\<lambda>_. True) b"
  shows "\<exists>b' ts. run_slot (quiet h) (b, k) = Some (b', fire h (tobj b) ts k)
    \<and> distinct ts \<and> set ts = due_now b \<and> winv (\<lambda>_. True) b' \<and> run_list b' = []
    \<and> timer_jiffies b' = timer_jiffies b \<and> tobj b' = tobj b
    \<and> (\<forall>u. pending b' u \<longleftrightarrow> pending b u \<and> u \<notin> due_now b)"
  using assms
proof (induction "card (due_now b)" arbitrary: b k rule: less_induct)
  case less
  show ?case
  proof (cases "run_list b")
    case Nil
    then have "due_now b = {}" using run_list_due [OF less.prems] by simp
    then show ?thesis
      using less.prems Nil by (intro exI [of _ b] exI [of _ "[]"])
        (subst run_slot.simps, simp add: fire_def)
  next
    case (Cons t ts)
    define b1 where "b1 = snd (detach_timer t b)"
    let ?k = "h (tfunction (tobj b t)) (data (tobj b t)) k"
    have w: "winv (\<lambda>_. True) b1" unfolding b1_def by (rule detach_winv [OF less.prems])
    have d1: "due_now b1 = due_now b - {t}" unfolding b1_def by (rule due_now_detach)
    have s1: "tobj b1 = tobj b" "timer_jiffies b1 = timer_jiffies b"
      "\<And>u. pending b1 u \<longleftrightarrow> u \<noteq> t \<and> pending b u"
      by (simp_all add: b1_def pending_detach_timer)
    have t: "t \<in> due_now b" "finite (due_now b)"
      unfolding run_list_due [OF less.prems, symmetric] by (simp_all add: Cons)
    then have "card (due_now b1) < card (due_now b)"
      unfolding d1 by (rule card_Diff1_less [rotated])
    from less.hyps [OF this w, of ?k] obtain b' us where
      r: "run_slot (quiet h) (b1, ?k) = Some (b', fire h (tobj b) us ?k)"
      and us: "distinct us" "set us = due_now b - {t}" "winv (\<lambda>_. True) b'" "run_list b' = []"
        "timer_jiffies b' = timer_jiffies b" "tobj b' = tobj b"
        "\<forall>u. pending b' u \<longleftrightarrow> pending b1 u \<and> u \<notin> due_now b - {t}"
      by (auto simp: s1 d1)
    have "run_slot (quiet h) (b, k) = Some (b', fire h (tobj b) (t # us) k)"
      using r by (subst run_slot.simps) (simp add: Cons quiet_def b1_def fire_def)
    moreover have "distinct (t # us) \<and> set (t # us) = due_now b" using us t by auto
    ultimately show ?thesis using us t s1(3) by blast
  qed
qed

lemma run_timer_list_quiet:
  assumes "wheel_ok b" "time b \<le> unat j" "unat j < time b + 2 ^ 31" "unat j < 2 ^ 32 - 2 ^ 26"
  shows "\<exists>b' ts. run_timer_list (\<lambda>_. j) (quiet h) (b, k) = Some (b', fire h (tobj b) ts k)
    \<and> distinct ts \<and> sorted (map (\<lambda>t. max (time b) (due b t)) ts)
    \<and> set ts = {t. pending b t \<and> due b t \<le> unat j}
    \<and> (\<forall>t. pending b' t \<longleftrightarrow> pending b t \<and> unat j < due b t)
    \<and> wheel_ok b' \<and> time b' = unat j + 1 \<and> tobj b' = tobj b"
  using assms
proof (induction "unat j - time b" arbitrary: b k rule: less_induct)
  case less
  define b0 where "b0 = cascade_if_wrapped b"
  have "unwrapped b" using less.prems by (simp add: unwrapped_def)
  from cascade_if_wrapped_ok [OF less.prems(1) this]
  have w0: "winv (\<lambda>_. True) b0" and f0: "time b0 = time b" "tobj b0 = tobj b"
    "pending b0 = pending b" unfolding b0_def time_def by auto
  have d0: "due_now b0 = {t. pending b t \<and> due b t \<le> time b}"
    by (simp add: due_now_def due_def f0)
  obtain b1 ts where r1: "run_slot (quiet h) (b0, k) = Some (b1, fire h (tobj b) ts k)"
    and ts: "distinct ts" "set ts = due_now b0" and w1: "winv (\<lambda>_. True) b1" "run_list b1 = []"
    and f1: "timer_jiffies b1 = timer_jiffies b0" "tobj b1 = tobj b"
      "\<forall>u. pending b1 u \<longleftrightarrow> pending b u \<and> u \<notin> due_now b0"
    using run_slot_quiet [OF w0, of h k] unfolding f0 by blast
  define b2 where "b2 = next_tick b1"
  have t1: "time b1 = time b" using f1(1) f0(1) by (simp add: time_def)
  have lt: "time b1 < 2 ^ 32 - 1" using less.prems(2,4) t1 by simp
  have b2: "wheel_ok b2" "time b2 = time b + 1" "tobj b2 = tobj b" "pending b2 = pending b1"
    using next_tick_ok [OF w1 lt] t1 f1 by (simp_all add: b2_def)
  have due2: "due b2 = due b" by (simp add: due_def b2 fun_eq_iff)
  have go: "0 \<le> sint (j - timer_jiffies b)"
    using less.prems(2,3) by (intro tick_pending) (simp_all add: time_def)
  have step: "run_timer_list (\<lambda>_. j) (quiet h) (b, k) =
      run_timer_list (\<lambda>_. j) (quiet h) (b2, fire h (tobj b) ts k)"
    by (subst run_timer_list.simps) (simp add: go r1 b0_def [symmetric] b2_def)
  have p2: "pending b2 t \<longleftrightarrow> pending b t \<and> time b < due b t" for t
    unfolding b2(4) using f1(3) d0 by (simp add: not_le) blast
  have s1: "sorted (map (\<lambda>t. max (time b) (due b t)) ts)"
  proof -
    have "map (\<lambda>t. max (time b) (due b t)) ts = replicate (length ts) (time b)"
      using ts(2) d0 by (intro replicate_eqI) auto
    then show ?thesis by simp
  qed
  show ?case
  proof (cases "time b = unat j")
    case True
    have "run_timer_list (\<lambda>_. j) (quiet h) (b2, fire h (tobj b) ts k) =
        Some (b2, fire h (tobj b) ts k)"
      using tick_done [of "timer_jiffies b2" j] b2(2) True
      by (subst run_timer_list.simps) (simp add: time_def)
    then show ?thesis using step ts s1 b2 p2 d0 True by auto
  next
    case False
    then have lt: "time b < unat j" using less.prems(2) by simp
    have "\<exists>b' us. run_timer_list (\<lambda>_. j) (quiet h) (b2, fire h (tobj b) ts k) =
          Some (b', fire h (tobj b2) us (fire h (tobj b) ts k))
      \<and> distinct us \<and> sorted (map (\<lambda>t. max (time b2) (due b2 t)) us)
      \<and> set us = {t. pending b2 t \<and> due b2 t \<le> unat j}
      \<and> (\<forall>t. pending b' t \<longleftrightarrow> pending b2 t \<and> unat j < due b2 t)
      \<and> wheel_ok b' \<and> time b' = unat j + 1 \<and> tobj b' = tobj b2"
    proof (rule less.hyps)
      show "unat j < time b2 + 2 ^ 31" unfolding b2(2) by (rule less_le_trans [OF less.prems(3)]) (rule add_right_mono, simp)
      show "unat j < 2 ^ 32 - 2 ^ 26" by (rule less.prems(4))
    qed (use lt b2 in auto)
    then obtain b' us where r2: "run_timer_list (\<lambda>_. j) (quiet h) (b2, fire h (tobj b) ts k) =
          Some (b', fire h (tobj b) us (fire h (tobj b) ts k))"
      and us: "distinct us" "sorted (map (\<lambda>t. max (time b + 1) (due b t)) us)"
        "set us = {t. pending b2 t \<and> due b t \<le> unat j}"
        "\<forall>t. pending b' t \<longleftrightarrow> pending b2 t \<and> unat j < due b t"
        "wheel_ok b'" "time b' = unat j + 1" "tobj b' = tobj b"
      unfolding due2 b2(2,3) by blast
    have "map (\<lambda>t. max (time b + 1) (due b t)) us = map (\<lambda>t. max (time b) (due b t)) us"
      using us(3) p2 by (intro map_cong) auto
    then have "sorted (map (\<lambda>t. max (time b) (due b t)) us)"
      using us(2) by (simp only:)
    then have "sorted (map (\<lambda>t. max (time b) (due b t)) (ts @ us))"
      using us(3) s1 ts(2) d0 p2 by (auto simp: sorted_append)
    moreover have "distinct (ts @ us)" using us(1,3) ts d0 p2 by auto
    moreover have "set (ts @ us) = {t. pending b t \<and> due b t \<le> unat j}"
      using us(3) ts(2) d0 p2 less.prems(2) by auto
    moreover have "\<forall>t. pending b' t \<longleftrightarrow> pending b t \<and> unat j < due b t"
      using us(4) p2 less.prems(2) by auto
    moreover have "run_timer_list (\<lambda>_. j) (quiet h) (b, k) =
        Some (b', fire h (tobj b) (ts @ us) k)"
      using step r2 by (simp add: fire_def)
    ultimately show ?thesis using us(5-7) by blast
  qed
qed

section \<open>A timer that re-arms itself\<close>

text \<open>What the board drivers' timer functions do: delete the timer, set it \<^verbatim>\<open>n\<close> ticks ahead, add it.\<close>

definition set_expires :: "nat \<Rightarrow> u32 \<Rightarrow> timer_base \<Rightarrow> timer_base" where
  "set_expires t e b = b\<lparr>tobj := (tobj b)(t := (tobj b t)\<lparr>expires := e\<rparr>)\<rparr>"

definition rearm :: "nat \<Rightarrow> u32 \<Rightarrow> timer_base \<Rightarrow> timer_base" where
  "rearm t n b = add_timer t (set_expires t (timer_jiffies b + n) (snd (del_timer t b)))"

lemma set_expires_simps [simp]:
  "tvec (set_expires t e b) = tvec b" "tindex (set_expires t e b) = tindex b"
  "tself (set_expires t e b) = tself b" "time (set_expires t e b) = time b"
  "due (set_expires t e b) = (due b)(t := unat e)"
  by (auto simp: set_expires_def time_def due_def fun_eq_iff)

lemma set_expires_winv:
  "winv ph b \<Longrightarrow> \<not> pending b t \<Longrightarrow> (\<And>l i. t \<notin> set (tvec b l i)) \<Longrightarrow> winv ph (set_expires t e b)"
  unfolding winv_def by (auto simp: fun_upd_apply)

lemma rearm_ok:
  assumes "winv ph b" "unwrapped b" "0 < unat n" "unat n < 2 ^ 26"
  shows "winv ph (rearm t n b) \<and> time (rearm t n b) = time b \<and> due_now (rearm t n b) \<subseteq> due_now b"
proof -
  let ?b = "snd (detach_timer t b)" and ?e = "timer_jiffies b + n"
  let ?c = "set_expires t ?e ?b"
  have e: "unat ?e = time b + unat n"
    using assms(2,4) unat_add_lem [of "timer_jiffies b" n] by (simp add: unwrapped_def time_def)
  have w: "winv ph ?c"
    by (rule set_expires_winv [OF detach_winv [OF assms(1)]])
      (simp_all add: pending_detach_timer, simp add: detach_timer_def)
  have "addable ?c t"
    using assms(2,4) by (simp add: addable_def unwrapped_def e)
  note add = add_winv [OF w this]
  have r: "rearm t n b = internal_add_timer t ?c"
    by (simp add: rearm_def add_timer_def del_timer_def split_def Let_def)
  have d: "due (internal_add_timer t ?c) = due ?c" "time (internal_add_timer t ?c) = time b"
    by (simp_all add: due_def time_def fun_eq_iff set_expires_def)
  have "pending (internal_add_timer t ?c) u \<longleftrightarrow> u = t \<or> pending b u" for u
    using pending_internal_add_timer [OF winv_index_ok [OF w]] pending_detach_timer
    by (auto simp: pending_iff)
  then show ?thesis
    using add assms(3) by (auto simp: r d due_now_def e)
qed

text \<open>A function that re-arms a timer, and while which a clock interrupt comes in as long as there are any left.\<close>

definition slow_rearm :: "nat \<Rightarrow> u32 \<Rightarrow> (u32 \<times> nat) tcall" where
  "slow_rearm t n f d s =
     (rearm t n (fst s), case snd s of (j, 0) \<Rightarrow> (j, 0) | (j, Suc i) \<Rightarrow> (j + 1, i))"

lemma rearm_polite:
  assumes "0 < unat n" "unat n < 2 ^ 26" "J < 2 ^ 32 - 1"
  shows "polite (\<lambda>(j, i). unat j + i \<le> J) J fst (slow_rearm t n)"
proof -
  have clock: "unat (j + 1 :: u32) = unat j + 1" if "unat j + Suc i \<le> J" for j i
    using that assms(3) unat_add_lem [of j 1] by simp
  show ?thesis
    unfolding polite_def slow_rearm_def Let_def
    using rearm_ok [of "\<lambda>_. True" _ n t] assms(1,2) by (auto simp: clock split: nat.splits)
qed

lemma empty_wheel: "wheel_ok (empty_base objs)"
  by (auto simp: winv_def empty_base_def time_def blk_def)

section \<open>Properties of the timer lists\<close>

text \<open>A wheel with timers due at ticks 0, 300 and 20000, one in each of the first three vectors.\<close>

definition demo_objs :: "nat \<Rightarrow> timer_list" where
  "demo_objs t = \<lparr>expires = (if t = 1 then 0 else if t = 2 then 300 else 20000), data = 0, tfunction = t\<rparr>"

definition demo_wheel :: timer_base where
  "demo_wheel = add_timer 3 (add_timer 2 (add_timer 1 (empty_base demo_objs)))"

lemma demo_wheel_ok: "wheel_ok demo_wheel" "time demo_wheel = 0"
proof -
  have t: "time (add_timer t b) = time b" "due (add_timer t b) = due b" for t b
    by (simp_all add: add_timer_def time_def due_def fun_eq_iff)
  have z: "time (empty_base demo_objs) = 0" "due (empty_base demo_objs) u \<le> 20000" for u
    by (simp_all add: time_def due_def empty_base_def demo_objs_def)
  have a: "addable b u" if "time b = 0" "due b = due (empty_base demo_objs)" for b u
    using that z(2) [of u] by (simp add: addable_def)
  have s: "wheel_ok (add_timer u b)"
    if "wheel_ok b" "time b = 0" "due b = due (empty_base demo_objs)" for b u
    using add_winv [OF that(1) a [OF that(2,3)]] by (simp add: add_timer_def)
  show "wheel_ok demo_wheel" "time demo_wheel = 0"
    unfolding demo_wheel_def by (simp_all add: s t z(1) empty_wheel)
qed

text \<open>
  C19: at a tick, after the cascade, the slot of the first vector that is about to run holds exactly
  the pending timers whose time has come, and the cascade neither loses nor invents a timer.
\<close>

theorem timer_tick_exact:
  assumes "wheel_ok b" "unwrapped b"
  shows "set (run_list (cascade_if_wrapped b)) = {t. pending b t \<and> due b t \<le> time b}
    \<and> pending (cascade_if_wrapped b) = pending b"
proof -
  let ?c = "cascade_if_wrapped b"
  have "winv (\<lambda>_. True) ?c" and c: "tobj ?c = tobj b" "timer_jiffies ?c = timer_jiffies b"
    "pending ?c = pending b"
    using cascade_if_wrapped_ok [OF assms] by blast+
  then have "set (run_list ?c) = due_now ?c"
    by (intro run_list_due)
  then show ?thesis
    by (simp add: due_now_def time_def due_def c)
qed

theorem timer_tick_exact_witness:
  "wheel_ok demo_wheel \<and> unwrapped demo_wheel
   \<and> set (run_list (cascade_if_wrapped demo_wheel)) =
       {t. pending demo_wheel t \<and> due demo_wheel t \<le> time demo_wheel}"
  using timer_tick_exact [of demo_wheel] demo_wheel_ok by (simp add: unwrapped_def)

text \<open>
  C4: when the timer functions leave the timers alone, \<^verbatim>\<open>run_timer_list\<close> returns, having called each
  timer that was pending and due by \<^verbatim>\<open>jiffies\<close> exactly once, in the order of their expiry (those
  already overdue first), and the timers still pending are exactly the ones due later.
\<close>

theorem timer_run_exact:
  assumes "wheel_ok b" "time b \<le> unat j" "unat j < time b + 2 ^ 31" "unat j < 2 ^ 32 - 2 ^ 26"
  shows "\<exists>b' ts. run_timer_list (\<lambda>_. j) (quiet h) (b, k) = Some (b', fire h (tobj b) ts k)
    \<and> distinct ts \<and> sorted (map (\<lambda>t. max (time b) (due b t)) ts)
    \<and> set ts = {t. pending b t \<and> due b t \<le> unat j}
    \<and> (\<forall>t. pending b' t \<longleftrightarrow> pending b t \<and> unat j < due b t)
    \<and> wheel_ok b' \<and> time b' = unat j + 1 \<and> tobj b' = tobj b"
  using assms by (rule run_timer_list_quiet)

theorem timer_run_exact_witness:
  "wheel_ok demo_wheel \<and>
   (\<exists>b' ts. run_timer_list (\<lambda>_. 1000) (quiet (\<lambda>f _ k. f # k)) (demo_wheel, []) =
        Some (b', fire (\<lambda>f _ k. f # k) (tobj demo_wheel) ts [])
      \<and> distinct ts \<and> set ts = {t. pending demo_wheel t \<and> due demo_wheel t \<le> 1000}
      \<and> (\<forall>t. pending b' t \<longleftrightarrow> pending demo_wheel t \<and> 1000 < due demo_wheel t))"
  using timer_run_exact [of demo_wheel 1000 "\<lambda>f _ k. f # k" "[]"] demo_wheel_ok by auto

text \<open>
  C20: \<^verbatim>\<open>run_timer_list\<close> returns for every set of timer functions that only delete timers and add
  timers that are not due yet, as the board drivers' do when they re-arm themselves, provided the clock stops short of some tick \<^verbatim>\<open>J\<close> while it runs:
  the functions run with interrupts enabled, and clock interrupts that come in meanwhile move \<^verbatim>\<open>jiffies\<close> on. Then the vectors
  are in order for the tick after the value \<^verbatim>\<open>jiffies\<close> has reached, and no timer due by then is left, nor one that became due while the others ran. Nothing is
  claimed for functions during which the clock goes on for ever.
\<close>

theorem timer_run_returns:
  assumes "polite I J jiffies call" "wheel_ok b" "I k" "time b \<le> unat (jiffies k)"
    "J < time b + 2 ^ 31" "J < 2 ^ 32 - 2 ^ 26"
  shows "\<exists>b' k'. run_timer_list jiffies call (b, k) = Some (b', k') \<and> wheel_ok b' \<and> I k'
    \<and> unat (jiffies k) \<le> unat (jiffies k') \<and> time b' = unat (jiffies k') + 1
    \<and> (\<forall>t. pending b' t \<longrightarrow> unat (jiffies k') < due b' t)"
  using assms by (rule run_timer_list_polite)

theorem timer_run_returns_witness:
  "polite (\<lambda>(j, i). unat j + i \<le> 1050) 1050 fst (slow_rearm 1 10) \<and>
   (\<exists>b' k'. run_timer_list fst (slow_rearm 1 10) (demo_wheel, (1000, 50)) = Some (b', k') \<and> wheel_ok b' \<and>
       1000 \<le> unat (fst k') \<and> unat (fst k') \<le> 1050 \<and> (\<forall>t. pending b' t \<longrightarrow> unat (fst k') < due b' t))"
proof -
  have p: "polite (\<lambda>(j, i). unat j + i \<le> 1050) 1050 fst (slow_rearm 1 10)"
    by (rule rearm_polite) simp_all
  obtain b' k' where "run_timer_list fst (slow_rearm 1 10) (demo_wheel, (1000, 50)) = Some (b', k')" "wheel_ok b'"
      "1000 \<le> unat (fst k')" "case k' of (j, i) \<Rightarrow> unat j + i \<le> 1050" "\<forall>t. pending b' t \<longrightarrow> unat (fst k') < due b' t"
    using timer_run_returns [OF p, of demo_wheel "(1000, 50)"] demo_wheel_ok by auto
  then show ?thesis using p by (auto split: prod.splits)
qed

end
