(* ===== verification/Deci.thy ===== *)
theory Deci
  imports Mrp_Board
begin

text \<open>
  DECI packets and the way they cross the FIFO port: byte memory read as little-endian words, the
  packet header with its checksum, and the word loops of \<^verbatim>\<open>mrp_put_fifo\<close> and \<^verbatim>\<open>mrp_get_fifo\<close>
  (\<^verbatim>\<open>include/linux/ps2mrp-psnet.h\<close>), which move the remainder modulo 8 first and the rest in
  strides of eight words. Both are shown to move the words in order, as a plain loop would.
\<close>

section \<open>Memory\<close>

type_synonym mem = "nat \<Rightarrow> u8"

text \<open>
  A buffer of \<^verbatim>\<open>kmalloc\<close>: its size and the bytes from its start. Bytes from the size on are those of
  whatever lies behind it: they can be read, and are not the driver's to write.
\<close>

record kbuf =
  ksize :: nat
  kbytes :: mem

definition half_at :: "mem \<Rightarrow> nat \<Rightarrow> u16" where
  "half_at m i = ucast (m i) OR push_bit 8 (ucast (m (i + 1)))"

definition word_at :: "mem \<Rightarrow> nat \<Rightarrow> u32" where
  "word_at m i = ucast (m i) OR push_bit 8 (ucast (m (i + 1))) OR push_bit 16 (ucast (m (i + 2)))
     OR push_bit 24 (ucast (m (i + 3)))"

definition set_word :: "mem \<Rightarrow> nat \<Rightarrow> u32 \<Rightarrow> mem" where
  "set_word m i w = m(i := ucast w, i + 1 := ucast (drop_bit 8 w), i + 2 := ucast (drop_bit 16 w),
     i + 3 := ucast (drop_bit 24 w))"

definition set_half :: "mem \<Rightarrow> nat \<Rightarrow> u16 \<Rightarrow> mem" where
  "set_half m i w = m(i := ucast w, i + 1 := ucast (drop_bit 8 w))"

lemma u8_no_bit: "8 \<le> n \<Longrightarrow> \<not> bit (x :: u8) n"
  using bit_imp_le_length [of x n] by auto

lemma bit_word_at:
  "bit (word_at m i) k \<longleftrightarrow> k < 32 \<and> bit (m (i + k div 8)) (k mod 8)"
proof -
  obtain q r where k: "k = 8 * q + r" and r: "r < 8"
    using mod_less_divisor [of 8 k] by (metis mult_div_mod_eq zero_less_numeral)
  have d: "k div 8 = q" "k mod 8 = r" using k r by simp_all
  consider "q = 0" | "q = 1" | "q = 2" | "q = 3" | "4 \<le> q" by linarith
  then show ?thesis
  proof cases
    case 5
    then show ?thesis using k r by (simp add: word_at_def bit_simps u8_no_bit)
  qed (use r in \<open>simp_all add: d, simp_all add: k word_at_def bit_simps u8_no_bit numeral_3_eq_3\<close>)
qed

lemma bit_half_at:
  "bit (half_at m i) k \<longleftrightarrow> k < 16 \<and> bit (m (i + k div 8)) (k mod 8)"
proof -
  obtain q r where k: "k = 8 * q + r" and r: "r < 8"
    using mod_less_divisor [of 8 k] by (metis mult_div_mod_eq zero_less_numeral)
  have d: "k div 8 = q" "k mod 8 = r" using k r by simp_all
  consider "q = 0" | "q = 1" | "2 \<le> q" by linarith
  then show ?thesis
  proof cases
    case 3
    then show ?thesis using k r by (simp add: half_at_def bit_simps u8_no_bit)
  qed (use r in \<open>simp_all add: d, simp_all add: k half_at_def bit_simps u8_no_bit\<close>)
qed

lemma set_word_byte: "b < 4 \<Longrightarrow> set_word m i w (i + b) = ucast (drop_bit (8 * b) w)"
proof -
  assume "b < 4"
  then consider "b = 0" | "b = 1" | "b = 2" | "b = 3" by linarith
  then show ?thesis by cases (simp_all add: set_word_def)
qed

lemma word_at_set_word [simp]: "word_at (set_word m i w) i = w"
proof (rule bit_word_eqI)
  fix k assume "k < LENGTH(32)"
  then have "k < 32" "k div 8 < 4" by simp_all
  then show "bit (word_at (set_word m i w) i) k \<longleftrightarrow> bit w k"
    by (simp add: bit_word_at set_word_byte bit_simps)
qed

lemma word_at_set_word_other:
  "j + 4 \<le> i \<or> i + 4 \<le> j \<Longrightarrow> word_at (set_word m i w) j = word_at m j"
  by (auto simp: word_at_def set_word_def)

lemma set_word_other: "k < i \<or> i + 4 \<le> k \<Longrightarrow> set_word m i w k = m k"
  by (auto simp: set_word_def)

lemma half_of_word:
  "half_at m i = ucast (word_at m i)" "half_at m (i + 2) = ucast (drop_bit 16 (word_at m i))"
proof -
  show "half_at m i = ucast (word_at m i)"
    by (rule bit_word_eqI) (simp add: bit_half_at bit_word_at bit_simps)
  show "half_at m (i + 2) = ucast (drop_bit 16 (word_at m i))"
  proof (rule bit_word_eqI)
    fix k assume "k < LENGTH(16)"
    moreover have "(8 * 2 + k) div 8 = 2 + k div 8" "(8 * 2 + k) mod 8 = k mod 8"
      by (rule div_mult_self4, simp) (rule mod_mult_self4)
    then have "(16 + k) div 8 = 2 + k div 8" "(16 + k) mod 8 = k mod 8"
      by simp_all
    ultimately show "bit (half_at m (i + 2)) k \<longleftrightarrow> bit (ucast (drop_bit 16 (word_at m i)) :: u16) k"
      by (simp add: bit_half_at bit_word_at bit_simps add.assoc)
  qed
qed

text \<open>Equal words, equal bytes.\<close>

lemma byte_of_word: "b < 4 \<Longrightarrow> m (i + b) = ucast (drop_bit (8 * b) (word_at m i))"
  by (rule bit_word_eqI) (auto simp: bit_word_at bit_simps)

lemma word_at_eqD:
  assumes "word_at m i = word_at m' j" "b < 4"
  shows "m (i + b) = m' (j + b)"
  using byte_of_word [OF assms(2), of m i] byte_of_word [OF assms(2), of m' j] assms(1) by simp

lemma words_eq_bytes:
  assumes "\<And>i. i < n \<Longrightarrow> word_at m (4 * i) = word_at m' (4 * i)" "k < 4 * n"
  shows "m k = m' k"
proof -
  have q: "k div 4 < n" and r: "k mod 4 < 4" using assms(2) by auto
  show ?thesis
    using word_at_eqD [OF assms(1) [OF q] r] by simp
qed

section \<open>Packets\<close>

text \<open>The fields of \<^verbatim>\<open>struct decihdr_s\<close> the driver looks at, by their offsets in the packed structure.\<close>

definition hdr_magic :: "mem \<Rightarrow> u16" where "hdr_magic m = half_at m 0"
definition hdr_size :: "mem \<Rightarrow> u16" where "hdr_size m = half_at m 2"
definition hdr_tag :: "mem \<Rightarrow> u8" where "hdr_tag m = m 12"
definition hdr_req :: "mem \<Rightarrow> u32" where "hdr_req m = word_at m 24"
definition hdr_cksum :: "mem \<Rightarrow> u32" where "hdr_cksum m = word_at m 28"

definition sizeof_hdr :: nat where "sizeof_hdr = 32"
definition DECI_MAGIC :: u16 where "DECI_MAGIC = 0xa14c"
definition REQ_TRESET :: u32 where "REQ_TRESET = 0x54010000"
definition REQ_ZACKNAK :: u32 where "REQ_ZACKNAK = 0x01010100"
definition MRP_MAX_PKT_SIZE :: nat where "MRP_MAX_PKT_SIZE = 0x4000"

definition deci_cksum :: "mem \<Rightarrow> u32" where
  "deci_cksum hdr =
     word_at hdr 0 + word_at hdr 4 + word_at hdr 8 + word_at hdr 12 + word_at hdr 16
     + word_at hdr 20 + word_at hdr 24"

text \<open>The acknowledgement \<^verbatim>\<open>mrp_read\<close> builds when a reset packet carried a tag.\<close>

definition acknak_pkt :: "u8 \<Rightarrow> mem" where
  "acknak_pkt tag =
     (let m = (\<lambda>_. 0);
          m = set_half m 0 DECI_MAGIC;
          m = set_half m 2 0x22;
          m = set_word m 24 REQ_ZACKNAK;
          m = m(32 := tag)
      in set_word m 28 (deci_cksum m))"

section \<open>The FIFO loops\<close>

primrec put_words :: "mem \<Rightarrow> nat \<Rightarrow> nat \<Rightarrow> bus \<Rightarrow> bus" where
  "put_words m off 0 h = h"
| "put_words m off (Suc n) h = put_words m (off + 4) n (wrfifo (word_at m off) h)"

primrec put_octets :: "mem \<Rightarrow> nat \<Rightarrow> nat \<Rightarrow> bus \<Rightarrow> bus" where
  "put_octets m off 0 h = h"
| "put_octets m off (Suc n) h = put_octets m (off + 32) n (put_words m off 8 h)"

text \<open>
  The fall-through switch on \<^verbatim>\<open>nw & 7\<close> and the loop over \<^verbatim>\<open>(signed int)nw >> 3\<close> strides.
\<close>

definition fifo_push :: "mem \<Rightarrow> u32 \<Rightarrow> bus \<Rightarrow> bus" where
  "fifo_push m nw h =
     (let r = unat (nw AND 7)
      in put_octets m (4 * r) (nat (sint nw div 8)) (put_words m 0 r h))"

text \<open>Reading into a buffer: \<^verbatim>\<open>None\<close> when a word would be stored outside it.\<close>

primrec get_words :: "mrp_dev \<Rightarrow> nat \<Rightarrow> nat \<Rightarrow> kbuf \<times> bus \<Rightarrow> (kbuf \<times> bus) option" where
  "get_words dev off 0 s = Some s"
| "get_words dev off (Suc n) s =
     (let (w, h) = rdfifo dev (snd s); k = fst s
      in if off + 4 \<le> ksize k
         then get_words dev (off + 4) n (k\<lparr>kbytes := set_word (kbytes k) off w\<rparr>, h)
         else None)"

primrec get_octets :: "mrp_dev \<Rightarrow> nat \<Rightarrow> nat \<Rightarrow> kbuf \<times> bus \<Rightarrow> (kbuf \<times> bus) option" where
  "get_octets dev off 0 s = Some s"
| "get_octets dev off (Suc n) s =
     Option.bind (get_words dev off 8 s) (get_octets dev (off + 32) n)"

definition fifo_pull :: "mrp_dev \<Rightarrow> nat \<Rightarrow> u32 \<Rightarrow> kbuf \<times> bus \<Rightarrow> (kbuf \<times> bus) option" where
  "fifo_pull dev off nw s =
     (let r = unat (nw AND 7)
      in Option.bind (get_words dev off r s) (get_octets dev (off + 4 * r) (unat (drop_bit 3 nw))))"

section \<open>The strides are the plain loop\<close>

lemma put_words_add: "put_words m off (a + b) h = put_words m (off + 4 * a) b (put_words m off a h)"
  by (induction a arbitrary: off h) (simp_all add: algebra_simps)

lemma put_octets_words: "put_octets m off n h = put_words m off (8 * n) h"
proof (induction n arbitrary: off h)
  case (Suc n)
  have "put_words m off (8 * Suc n) h = put_words m (off + 32) (8 * n) (put_words m off 8 h)"
    using put_words_add [of m off 8 "8 * n" h] by simp
  then show ?case using Suc.IH by simp
qed simp

lemma get_words_add:
  "get_words dev off (a + b) s = Option.bind (get_words dev off a s) (get_words dev (off + 4 * a) b)"
  by (induction a arbitrary: off s) (simp_all add: Let_def split_def algebra_simps)

lemma get_octets_words: "get_octets dev off n s = get_words dev off (8 * n) s"
proof (induction n arbitrary: off s)
  case (Suc n)
  have "get_words dev off (8 * Suc n) s =
      Option.bind (get_words dev off 8 s) (get_words dev (off + 32) (8 * n))"
    using get_words_add [of dev off 8 "8 * n" s] by simp
  then show ?case using Suc.IH by (simp cong: Option.bind_cong)
qed simp

lemma unat_and_7: "unat (nw AND 7 :: u32) = unat nw mod 8"
proof -
  have "nw AND 7 = nw AND mask 3" by (simp add: mask_eq_exp_minus_1)
  then show ?thesis by (simp only: unat_and_mask) simp
qed

lemma fifo_pull_words: "fifo_pull dev off nw s = get_words dev off (unat nw) s"
proof -
  have "get_words dev off (unat nw) s = Option.bind (get_words dev off (unat nw mod 8) s)
      (get_words dev (off + 4 * (unat nw mod 8)) (8 * (unat nw div 8)))"
    using get_words_add [of dev off "unat nw mod 8" "8 * (unat nw div 8)" s] by simp
  then show ?thesis
    by (simp add: fifo_pull_def unat_and_7 unat_drop_div get_octets_words [abs_def] Let_def)
qed

lemma fifo_push_words:
  assumes "unat nw < 2 ^ 31"
  shows "fifo_push m nw h = put_words m 0 (unat nw) h"
proof -
  have "nat (sint nw div 8) = unat nw div 8"
    using sint_small [OF assms] by (simp add: nat_div_distrib)
  moreover have "put_words m 0 (unat nw mod 8 + 8 * (unat nw div 8)) h =
      put_words m (4 * (unat nw mod 8)) (8 * (unat nw div 8)) (put_words m 0 (unat nw mod 8) h)"
    using put_words_add [of m 0 "unat nw mod 8" "8 * (unat nw div 8)" h] by simp
  ultimately show ?thesis
    by (simp add: fifo_push_def unat_and_7 put_octets_words Let_def)
qed

section \<open>What the loops move\<close>

definition words_of :: "mem \<Rightarrow> nat \<Rightarrow> u32 list" where
  "words_of m n = map (\<lambda>i. word_at m (4 * i)) [0..<n]"

lemma length_words_of [simp]: "length (words_of m n) = n"
  by (simp add: words_of_def)

lemma put_words_eq:
  "put_words m off n h = rev (map (\<lambda>i. FifoOut (word_at m (off + 4 * i))) [0..<n]) @ h"
proof (induction n arbitrary: off h)
  case (Suc n)
  have "[0..<Suc n] = 0 # map Suc [0..<n]" by (simp add: upt_conv_Cons map_Suc_upt del: upt_Suc)
  then show ?case
    using Suc.IH by (simp add: wrfifo_def algebra_simps comp_def del: upt_Suc)
qed simp

lemma fifo_sent_put_words: "fifo_sent (put_words m 0 n h) = fifo_sent h @ words_of m n"
proof -
  have "fifo_sent (rev (map FifoOut ws) @ h) = fifo_sent h @ ws" for ws h
    by (induction ws arbitrary: h rule: rev_induct) simp_all
  from this [of "words_of m n"] show ?thesis
    by (simp add: put_words_eq words_of_def comp_def)
qed

text \<open>
  The buffer after \<^verbatim>\<open>n\<close> words were stored from \<^verbatim>\<open>off\<close> on: the words taken, in order, and nothing else
  changed; the accesses are exactly the \<^verbatim>\<open>n\<close> FIFO reads.
\<close>

lemma get_words_effect:
  assumes "off + 4 * n \<le> ksize (fst s)"
  shows "\<exists>k' ws. get_words dev off n s = Some (k', rev (map FifoIn ws) @ snd s)
    \<and> length ws = n \<and> ksize k' = ksize (fst s)
    \<and> (\<forall>i < n. word_at (kbytes k') (off + 4 * i) = ws ! i)
    \<and> (\<forall>j. j < off \<or> off + 4 * n \<le> j \<longrightarrow> kbytes k' j = kbytes (fst s) j)"
  using assms
proof (induction n arbitrary: off s)
  case 0
  then show ?case by (cases s) auto
next
  case (Suc n)
  obtain k h where s: "s = (k, h)" by fastforce
  define w where "w = devfifo dev h"
  let ?k = "k\<lparr>kbytes := set_word (kbytes k) off w\<rparr>"
  have "off + 4 + 4 * n \<le> ksize (fst (?k, FifoIn w # h))" using Suc.prems by (simp add: s)
  from Suc.IH [OF this] obtain k' ws where
    g: "get_words dev (off + 4) n (?k, FifoIn w # h) = Some (k', rev (map FifoIn ws) @ FifoIn w # h)"
    and ws: "length ws = n" and sz: "ksize k' = ksize k"
    and wd: "\<forall>i < n. word_at (kbytes k') (off + 4 + 4 * i) = ws ! i"
    and fr: "\<forall>j. j < off + 4 \<or> off + 4 + 4 * n \<le> j \<longrightarrow> kbytes k' j = kbytes ?k j"
    by auto
  have w0: "word_at (kbytes k') off = w"
  proof -
    have "word_at (kbytes k') off = word_at (kbytes ?k) off"
      unfolding word_at_def using fr by simp
    then show ?thesis by simp
  qed
  have words: "word_at (kbytes k') (off + 4 * i) = (w # ws) ! i" if "i < Suc n" for i
    using wd w0 that by (cases i) (simp_all add: algebra_simps)
  have "get_words dev off (Suc n) s = Some (k', rev (map FifoIn (w # ws)) @ snd s)"
    using g Suc.prems by (simp add: s rdfifo_def w_def Let_def)
  moreover have "kbytes k' j = kbytes k j" if "j < off \<or> off + 4 * Suc n \<le> j" for j
    using fr that set_word_other [of j off] by auto
  ultimately show ?case
    using ws sz words s by (intro exI [of _ k'] exI [of _ "w # ws"]) auto
qed

lemma get_words_overrun:
  assumes "ksize (fst s) < off + 4 * n" "0 < n"
  shows "get_words dev off n s = None"
  using assms
proof (induction n arbitrary: off s)
  case (Suc n)
  show ?case
  proof (cases "off + 4 \<le> ksize (fst s)")
    case True
    then have "0 < n" using Suc.prems(1) by (cases n) auto
    then show ?thesis
      using Suc.IH [of "((fst s)\<lparr>kbytes := set_word (kbytes (fst s)) off (fst (rdfifo dev (snd s)))\<rparr>,
          snd (rdfifo dev (snd s)))" "off + 4"] Suc.prems(1) True
      by (simp add: Let_def split_def)
  next
    case False
    then show ?thesis by (simp add: Let_def split_def)
  qed
qed simp

lemma get_words_bus:
  "get_words dev off n s = Some s' \<Longrightarrow>
   \<exists>ws. snd s' = rev (map FifoIn ws) @ snd s \<and> length ws = n \<and> ksize (fst s') = ksize (fst s)"
proof (induction n arbitrary: off s)
  case (Suc n)
  let ?t = "((fst s)\<lparr>kbytes := set_word (kbytes (fst s)) off (devfifo dev (snd s))\<rparr>,
    FifoIn (devfifo dev (snd s)) # snd s)"
  have "get_words dev (off + 4) n ?t = Some s'"
    using Suc.prems by (simp add: rdfifo_def Let_def split: if_splits)
  from Suc.IH [OF this] obtain ws where
    "snd s' = rev (map FifoIn ws) @ FifoIn (devfifo dev (snd s)) # snd s" "length ws = n"
    "ksize (fst s') = ksize (fst s)" by auto
  then show ?case
    by (intro exI [of _ "devfifo dev (snd s) # ws"]) simp
qed simp

text \<open>Each word is what the device answered at its turn.\<close>

lemma get_words_values:
  assumes "get_words dev off n (k, h) = Some (k', rev (map FifoIn ws) @ h)" "length ws = n" "i < n"
  shows "ws ! i = devfifo dev (rev (map FifoIn (take i ws)) @ h)"
  using assms
proof (induction n arbitrary: off k h i ws)
  case (Suc n)
  obtain w vs where ws: "ws = w # vs" using Suc.prems(2) by (cases ws) auto
  have step: "get_words dev (off + 4) n
      (k\<lparr>kbytes := set_word (kbytes k) off (devfifo dev h)\<rparr>, FifoIn (devfifo dev h) # h) =
      Some (k', rev (map FifoIn vs) @ FifoIn w # h)"
    using Suc.prems(1) by (simp add: rdfifo_def Let_def ws split: if_splits)
  have w: "w = devfifo dev h"
    using get_words_bus [OF step] Suc.prems(2) ws by auto
  show ?case
    using Suc.IH [OF step [folded w]] Suc.prems(2,3) ws w by (cases i) auto
qed simp

section \<open>Words that come from the device\<close>

text \<open>Of the words taken from the FIFO, all but the first \<^verbatim>\<open>n\<close> are the answers of \<^verbatim>\<open>dev\<close>.\<close>

fun answered :: "mrp_dev \<Rightarrow> nat \<Rightarrow> bus \<Rightarrow> bool" where
  "answered dev n [] \<longleftrightarrow> True"
| "answered dev n (FifoIn w # h) \<longleftrightarrow>
     (length (fifo_taken h) < n \<or> w = devfifo dev h) \<and> answered dev n h"
| "answered dev n (FifoOut w # h) \<longleftrightarrow> answered dev n h"
| "answered dev n (Rd16 r v # h) \<longleftrightarrow> answered dev n h"
| "answered dev n (Wr16 r v # h) \<longleftrightarrow> answered dev n h"
| "answered dev n (Rd32 q w # h) \<longleftrightarrow> answered dev n h"
| "answered dev n (Wr32 q w # h) \<longleftrightarrow> answered dev n h"

lemma answered_start: "length (fifo_taken h) \<le> n \<Longrightarrow> answered dev n h"
  by (induction dev n h rule: answered.induct) auto

lemma get_words_answered:
  "get_words dev off n s = Some s' \<Longrightarrow> answered dev m (snd s) \<Longrightarrow> answered dev m (snd s')"
  by (induction n arbitrary: off s) (auto simp: rdfifo_def Let_def split: if_splits)

text \<open>A device that hands over \<^verbatim>\<open>ws\<close> once \<^verbatim>\<open>n\<close> words are taken.\<close>

definition feeds :: "mrp_dev \<Rightarrow> u32 list \<Rightarrow> nat \<Rightarrow> bool" where
  "feeds dev ws n \<longleftrightarrow>
     (\<forall>h i. length (fifo_taken h) = n + i \<longrightarrow> i < length ws \<longrightarrow> devfifo dev h = ws ! i)"

lemma answered_feeds:
  assumes "answered dev n h" "feeds dev ws n" "length (fifo_taken h) = n + m" "m \<le> length ws"
  shows "drop n (fifo_taken h) = take m ws"
  using assms
proof (induction dev n h arbitrary: m rule: answered.induct)
  case (2 dev n w h)
  show ?case
  proof (cases m)
    case 0
    then show ?thesis using 2 by simp
  next
    case (Suc j)
    then have l: "length (fifo_taken h) = n + j" "j < length ws" using 2 by simp_all
    moreover have "w = devfifo dev h" using 2(2) l by simp
    ultimately have "w = ws ! j" "drop n (fifo_taken h) = take j ws"
      using 2 l by (simp_all add: feeds_def)
    then show ?thesis using l by (simp add: Suc take_Suc_conv_app_nth)
  qed
qed simp_all

end
