(* ===== verification/Ringbuf.thy ===== *)
theory Ringbuf
  imports Kprelude
begin

text \<open>
  The byte ring of \<^verbatim>\<open>include/linux/ps2mrp-psnet.h\<close> that carries the control plane of the MRP
  driver: a buffer of 4096 bytes with free-running 32-bit indices that are masked at each access,
  and a count. The client must not put into a full ring or get from an empty one; under that
  contract the ring is a queue, also across the wrap-around of the indices.
\<close>

section \<open>State and operations\<close>

definition RINGBUF_SIZE :: u32 where "RINGBUF_SIZE = 0x1000"
definition RINGBUF_INDEX_MASK :: u32 where "RINGBUF_INDEX_MASK = 0xfff"

record ringbuf_s =
  buf :: "nat \<Rightarrow> u8"
  write_index :: u32
  read_index :: u32
  count :: u32

definition ringbuf_put :: "u8 \<Rightarrow> ringbuf_s \<Rightarrow> ringbuf_s" where
  "ringbuf_put x ring =
     (let index = unat (write_index ring AND RINGBUF_INDEX_MASK)
      in ring\<lparr>buf := (buf ring)(index := x), write_index := write_index ring + 1,
              count := count ring + 1\<rparr>)"

definition ringbuf_get :: "ringbuf_s \<Rightarrow> u8 \<times> ringbuf_s" where
  "ringbuf_get ring =
     (let index = unat (read_index ring AND RINGBUF_INDEX_MASK);
          rc = buf ring index
      in (rc, ring\<lparr>read_index := read_index ring + 1, count := count ring - 1\<rparr>))"

text \<open>The three assignments with which \<^verbatim>\<open>mrp_reset\<close> empties a ring.\<close>

definition ringbuf_clear :: "ringbuf_s \<Rightarrow> ringbuf_s" where
  "ringbuf_clear ring = ring\<lparr>read_index := 0, write_index := 0, count := 0\<rparr>"

section \<open>The ring as a queue\<close>

text \<open>The bytes between the indices, oldest first.\<close>

definition ring_contents :: "ringbuf_s \<Rightarrow> u8 list" where
  "ring_contents ring =
     map (\<lambda>i. buf ring ((unat (read_index ring) + i) mod 4096)) [0..<unat (count ring)]"

definition ring_ok :: "ringbuf_s \<Rightarrow> bool" where
  "ring_ok ring \<longleftrightarrow> write_index ring = read_index ring + count ring \<and> unat (count ring) \<le> 4096"

text \<open>What a client of a bounded byte queue relies on.\<close>

locale bounded_queue =
  fixes put :: "'x \<Rightarrow> 'q \<Rightarrow> 'q"
    and get :: "'q \<Rightarrow> 'x \<times> 'q"
    and contents :: "'q \<Rightarrow> 'x list"
    and ok :: "'q \<Rightarrow> bool"
    and capacity :: nat
  assumes bounded: "ok q \<Longrightarrow> length (contents q) \<le> capacity"
    and contents_put: "ok q \<Longrightarrow> length (contents q) < capacity \<Longrightarrow> contents (put x q) = contents q @ [x]"
    and ok_put: "ok q \<Longrightarrow> length (contents q) < capacity \<Longrightarrow> ok (put x q)"
    and get_head: "ok q \<Longrightarrow> contents q \<noteq> [] \<Longrightarrow> fst (get q) = hd (contents q)"
    and contents_get: "ok q \<Longrightarrow> contents q \<noteq> [] \<Longrightarrow> contents (snd (get q)) = tl (contents q)"
    and ok_get: "ok q \<Longrightarrow> contents q \<noteq> [] \<Longrightarrow> ok (snd (get q))"
begin

lemma put_all:
  "ok q \<Longrightarrow> length (contents q) + length xs \<le> capacity \<Longrightarrow>
   ok (fold put xs q) \<and> contents (fold put xs q) = contents q @ xs"
proof (induction xs arbitrary: q)
  case Nil
  then show ?case by simp
next
  case (Cons x xs)
  then have "ok (put x q)" "contents (put x q) = contents q @ [x]"
    by (simp_all add: ok_put contents_put)
  then show ?case
    using Cons.IH [of "put x q"] Cons.prems by simp
qed

primrec get_n :: "nat \<Rightarrow> 'q \<Rightarrow> 'x list \<times> 'q" where
  "get_n 0 q = ([], q)"
| "get_n (Suc n) q =
     (let (x, q) = get q; (xs, q) = get_n n q in (x # xs, q))"

lemma get_all:
  "ok q \<Longrightarrow> n \<le> length (contents q) \<Longrightarrow>
   fst (get_n n q) = take n (contents q) \<and> ok (snd (get_n n q))
     \<and> contents (snd (get_n n q)) = drop n (contents q)"
proof (induction n arbitrary: q)
  case 0
  then show ?case by simp
next
  case (Suc n)
  then have ne: "contents q \<noteq> []" by auto
  obtain x xs where c: "contents q = x # xs" using ne by (cases "contents q") auto
  have "ok (snd (get q))" "contents (snd (get q)) = xs" "fst (get q) = x"
    using Suc.prems(1) ne c by (simp_all add: ok_get contents_get get_head)
  then show ?case
    using Suc.IH [of "snd (get q)"] Suc.prems(2) c
    by (simp add: split_def Let_def)
qed

text \<open>What is put into a queue with room comes out behind what was there, in order.\<close>

lemma fifo:
  assumes "ok q" "length (contents q) + length xs \<le> capacity"
  shows "fst (get_n (length (contents q) + length xs) (fold put xs q)) = contents q @ xs"
  using put_all [OF assms] get_all [of "fold put xs q"] by simp

end

section \<open>The code's ring is such a queue\<close>

lemma ring_index: "unat (x AND RINGBUF_INDEX_MASK) = unat x mod 4096"
proof -
  have "x AND RINGBUF_INDEX_MASK = x AND mask 12"
    by (simp add: RINGBUF_INDEX_MASK_def mask_eq_exp_minus_1)
  then show ?thesis
    by (simp only: unat_and_mask) simp
qed

text \<open>4096 divides the range of the indices, so their wrap-around does not disturb the masking.\<close>

lemma unat_add_mod: "unat (x + y :: u32) mod 4096 = (unat x + unat y) mod 4096"
proof -
  have "unat (x + y) = (unat x + unat y) mod (4096 * 2 ^ 20)"
    by (simp add: unat_word_ariths)
  then show ?thesis
    by (simp only: mod_mod_cancel [OF dvd_triv_left])
qed

lemma ring_length [simp]: "length (ring_contents r) = unat (count r)"
  by (simp add: ring_contents_def)

lemma ring_slots_distinct:
  fixes a :: nat
  assumes "i < n" "n < 4096"
  shows "(a + n) mod 4096 \<noteq> (a + i) mod 4096"
proof
  assume "(a + n) mod 4096 = (a + i) mod 4096"
  then have "4096 dvd (a + n) - (a + i)"
    using assms by (subst mod_eq_dvd_iff_nat [symmetric]) auto
  then show False
    using assms by (auto dest: dvd_imp_le)
qed

lemma ring_put_contents:
  assumes "ring_ok r" "unat (count r) < 4096"
  shows "ring_contents (ringbuf_put x r) = ring_contents r @ [x]" and "ring_ok (ringbuf_put x r)"
proof -
  let ?r = "unat (read_index r)" and ?n = "unat (count r)"
  have n: "unat (count r + 1) = ?n + 1"
    using assms(2) unat_add_lem [of "count r" 1] by simp
  have w: "unat (write_index r AND RINGBUF_INDEX_MASK) = (?r + ?n) mod 4096"
    using assms(1) by (simp add: ring_index ring_ok_def unat_add_mod)
  have "(?r + i) mod 4096 \<noteq> (?r + ?n) mod 4096" if "i < ?n" for i
    using ring_slots_distinct [OF that assms(2)] by metis
  then show "ring_contents (ringbuf_put x r) = ring_contents r @ [x]"
    by (simp add: ring_contents_def ringbuf_put_def Let_def w n)
  show "ring_ok (ringbuf_put x r)"
    using assms n by (simp add: ring_ok_def ringbuf_put_def Let_def)
qed

lemma ring_get_contents:
  assumes "ring_ok r" "count r \<noteq> 0"
  shows "fst (ringbuf_get r) = hd (ring_contents r)"
    and "ring_contents (snd (ringbuf_get r)) = tl (ring_contents r)"
    and "ring_ok (snd (ringbuf_get r))"
proof -
  let ?r = "unat (read_index r)" and ?n = "unat (count r)"
  have pos: "0 < ?n" using assms(2) by (simp add: unat_gt_0)
  have n: "unat (count r - 1) = ?n - 1"
    using assms(2) by (simp add: unat_minus_one)
  have up: "[0..<?n] = 0 # map Suc [0..<?n - 1]"
    using pos by (simp add: upt_conv_Cons map_Suc_upt)
  have s: "(unat (read_index r + 1) + i) mod 4096 = (?r + Suc i) mod 4096" for i
  proof -
    have "(unat (read_index r + 1) + i) mod 4096 = (unat (read_index r + 1) mod 4096 + i) mod 4096"
      by (simp only: mod_add_left_eq)
    also have "\<dots> = (?r + Suc i) mod 4096"
      unfolding unat_add_mod by (simp add: mod_simps)
    finally show ?thesis .
  qed
  show "fst (ringbuf_get r) = hd (ring_contents r)"
    by (simp add: ringbuf_get_def ring_contents_def Let_def up ring_index)
  show "ring_contents (snd (ringbuf_get r)) = tl (ring_contents r)"
    by (simp add: ringbuf_get_def ring_contents_def Let_def up n s)
  show "ring_ok (snd (ringbuf_get r))"
    using assms n by (auto simp: ringbuf_get_def ring_ok_def Let_def)
qed

interpretation ring: bounded_queue ringbuf_put ringbuf_get ring_contents ring_ok 4096
proof unfold_locales
  fix q assume "ring_ok q"
  then show "length (ring_contents q) \<le> 4096" by (simp add: ring_ok_def)
next
  fix q x assume "ring_ok q" "length (ring_contents q) < 4096"
  then show "ring_contents (ringbuf_put x q) = ring_contents q @ [x]" "ring_ok (ringbuf_put x q)"
    by (simp_all add: ring_put_contents)
next
  fix q assume "ring_ok q" and ne: "ring_contents q \<noteq> []"
  have "count q \<noteq> 0" using ne by (auto simp: ring_contents_def)
  then show "fst (ringbuf_get q) = hd (ring_contents q)"
    "ring_contents (snd (ringbuf_get q)) = tl (ring_contents q)" "ring_ok (snd (ringbuf_get q))"
    using ring_get_contents [OF \<open>ring_ok q\<close>] by simp_all
qed

lemma ring_clear [simp]: "ring_ok (ringbuf_clear r)" "ring_contents (ringbuf_clear r) = []"
  by (simp_all add: ring_ok_def ringbuf_clear_def ring_contents_def)

section \<open>Properties of the ring\<close>

primrec ring_get_n :: "nat \<Rightarrow> ringbuf_s \<Rightarrow> u8 list \<times> ringbuf_s" where
  "ring_get_n 0 q = ([], q)"
| "ring_get_n (Suc n) q =
     (let (x, q) = ringbuf_get q; (xs, q) = ring_get_n n q in (x # xs, q))"

lemma ring_get_n_eq: "ring_get_n n q = ring.get_n n q"
  by (induction n arbitrary: q) simp_all

text \<open>
  C25: bytes put into a ring that has room for them come out unchanged and in order, behind the
  bytes that were there, wherever the free-running indices stand, their 32-bit wrap-around
  included.
\<close>

theorem ringbuf_fifo:
  assumes "ring_ok r" "unat (count r) + length xs \<le> 4096"
  shows "fst (ring_get_n (unat (count r) + length xs) (fold ringbuf_put xs r)) = ring_contents r @ xs
    \<and> ring_ok (fold ringbuf_put xs r)
    \<and> unat (count (fold ringbuf_put xs r)) = unat (count r) + length xs"
  using ring.fifo [OF assms(1), of xs] ring.put_all [OF assms(1), of xs] assms(2)
  by (metis ring_get_n_eq ring_length length_append)

definition demo_ring :: ringbuf_s where
  "demo_ring = \<lparr>buf = (\<lambda>_. 0), write_index = 0xffffffff, read_index = 0xffffffff, count = 0\<rparr>"

theorem ringbuf_fifo_witness:
  "ring_ok demo_ring \<and> unat (count demo_ring) + length [1, 2, 3 :: u8] \<le> 4096
   \<and> fst (ring_get_n 3 (fold ringbuf_put [1, 2, 3] demo_ring)) = [1, 2, 3]"
proof -
  have "ring_ok demo_ring" "unat (count demo_ring) = 0" "ring_contents demo_ring = []"
    by (simp_all add: demo_ring_def ring_ok_def ring_contents_def)
  then show ?thesis
    using ringbuf_fifo [of demo_ring "[1, 2, 3]"] by (simp add: numeral_3_eq_3)
qed

end
