(* ===== verification/Psnet.thy ===== *)
theory Psnet
  imports Deci Ringbuf
begin

text \<open>
  The MRP network driver \<^verbatim>\<open>drivers/char/ps2mrp-psnet.c\<close>, first part: the unit structure and the
  code that runs in the interrupt handler (FIFO transfers, packet reception, board reset and boot
  request, the two directions of the control plane, the dispatch on the interrupt status).
  \<^verbatim>\<open>printk\<close> and \<^verbatim>\<open>udelay\<close> have no effect on the state, but the registers a message reads are
  accesses to the board and are kept. \<^verbatim>\<open>mrp_debug\<close> has its initial value 99.
\<close>

section \<open>State\<close>

datatype wq = WQ1 | WQ2 | WQ3 | WQ4

text \<open>
  \<^verbatim>\<open>struct mrp_unit\<close>. Mapped addresses are words, 0 for null; a buffer pointer is a buffer or
  null; \<^verbatim>\<open>deci_out\<close> says whether it points to \<^verbatim>\<open>sendbuf\<close> (it never points elsewhere but null) and
  \<^verbatim>\<open>deci_in\<close> is an offset into \<^verbatim>\<open>recvbuf\<close>. \<^verbatim>\<open>mbus\<close> is the access history of the unit's board, \<^verbatim>\<open>wakes\<close>
  the wait queues woken so far, most recent first.
\<close>

record mrp_unit =
  flags :: u32
  irq :: u32
  base0 :: u32
  base2 :: u32
  regs :: u32
  sendbuf :: "kbuf option"
  recvbuf :: "kbuf option"
  deci_out :: bool
  deci_in :: "nat option"
  slen :: int
  rlen :: int
  nintr :: u32
  buf38 :: "kbuf option"
  nbytes38 :: int
  buf40 :: "kbuf option"
  nbytes40 :: int
  deci_tag_for_reset :: u8
  sendring :: ringbuf_s
  recvring :: ringbuf_s
  base4 :: u32
  reset_mode :: int
  mbus :: bus
  wakes :: "wq list"

definition MRPF_DETECT :: u32 where "MRPF_DETECT = 0x0001"
definition MRPF_VALID :: u32 where "MRPF_VALID = 0x0002"
definition MRPF_RESET :: u32 where "MRPF_RESET = 0x0004"
definition MRPF_OPENED :: u32 where "MRPF_OPENED = 0x0008"
definition MRPF_SBUSY :: u32 where "MRPF_SBUSY = 0x0010"
definition MRPF_RDONE :: u32 where "MRPF_RDONE = 0x0020"
definition MRPF_REQTAG :: u32 where "MRPF_REQTAG = 0x0040"
definition MRPF_CPOPEN :: u32 where "MRPF_CPOPEN = 0x0080"
definition MRPF_CPBUSY :: u32 where "MRPF_CPBUSY = 0x0100"

definition MRP_STATF_CPR :: u16 where "MRP_STATF_CPR = 0x01"
definition MRP_STATF_CPS :: u16 where "MRP_STATF_CPS = 0x02"
definition MRP_STATF_BOOTP :: u16 where "MRP_STATF_BOOTP = 0x04"
definition MRP_STATF_RESET :: u16 where "MRP_STATF_RESET = 0x08"
definition MRP_STATF_RECV :: u16 where "MRP_STATF_RECV = 0x10"
definition MRP_STATF_WAKE :: u16 where "MRP_STATF_WAKE = 0x20"

lemmas mrpf_defs [flag_defs] =
  MRPF_DETECT_def MRPF_VALID_def MRPF_RESET_def MRPF_OPENED_def MRPF_SBUSY_def MRPF_RDONE_def
  MRPF_REQTAG_def MRPF_CPOPEN_def MRPF_CPBUSY_def

lemmas statf_defs [flag_defs] =
  MRP_STATF_CPR_def MRP_STATF_CPS_def MRP_STATF_BOOTP_def MRP_STATF_RESET_def MRP_STATF_RECV_def
  MRP_STATF_WAKE_def

definition mrp_debug :: int where "mrp_debug = 99"

text \<open>
  The outcome of code that stores through pointers: it finishes, or it stores or loads where it
  must not. An outcome of \<^verbatim>\<open>None\<close>, where one occurs, is a loop that never ends.
\<close>

datatype 'a run = Done 'a | Fault

section \<open>Access helpers\<close>

definition rdr :: "mrp_dev \<Rightarrow> mreg \<Rightarrow> mrp_unit \<Rightarrow> u16 \<times> mrp_unit" where
  "rdr dev r u = (case rd16 dev r (mbus u) of (v, h) \<Rightarrow> (v, u\<lparr>mbus := h\<rparr>))"

definition wrr :: "mreg \<Rightarrow> u16 \<Rightarrow> mrp_unit \<Rightarrow> mrp_unit" where
  "wrr r v u = u\<lparr>mbus := wr16 r v (mbus u)\<rparr>"

definition orr :: "mrp_dev \<Rightarrow> mreg \<Rightarrow> u16 \<Rightarrow> mrp_unit \<Rightarrow> mrp_unit" where
  "orr dev r m u = u\<lparr>mbus := or16 dev r m (mbus u)\<rparr>"

definition andr :: "mrp_dev \<Rightarrow> mreg \<Rightarrow> u16 \<Rightarrow> mrp_unit \<Rightarrow> mrp_unit" where
  "andr dev r m u = u\<lparr>mbus := and16 dev r m (mbus u)\<rparr>"

definition wake_up :: "wq \<Rightarrow> mrp_unit \<Rightarrow> mrp_unit" where
  "wake_up q u = u\<lparr>wakes := q # wakes u\<rparr>"

definition set_flag :: "u32 \<Rightarrow> mrp_unit \<Rightarrow> mrp_unit" where
  "set_flag m u = u\<lparr>flags := flags u OR m\<rparr>"

definition clear_flag :: "u32 \<Rightarrow> mrp_unit \<Rightarrow> mrp_unit" where
  "clear_flag m u = u\<lparr>flags := flags u AND NOT m\<rparr>"

definition flag :: "u32 \<Rightarrow> mrp_unit \<Rightarrow> bool" where
  "flag m u \<longleftrightarrow> flags u AND m \<noteq> 0"

section \<open>The FIFO\<close>

text \<open>
  A null source is read only if there is a word to send.
\<close>

definition mrp_put_fifo :: "mrp_dev \<Rightarrow> kbuf option \<Rightarrow> int \<Rightarrow> mrp_unit \<Rightarrow> (u32 \<times> mrp_unit) run" where
  "mrp_put_fifo dev src nbytes u =
     (let nw = word_of_int ((nbytes + 3) div 4);
          finish = (\<lambda>h. let u = u\<lparr>mbus := h\<rparr>;
                            u = wrr TXC 1 u;
                            u = orr dev IER MRP_STATF_WAKE u;
                            u = set_flag MRPF_SBUSY u
                        in Done (nw, u))
      in case src of
           None \<Rightarrow> if nw AND 7 = 0 \<and> sint nw div 8 \<le> 0 then finish (mbus u) else Fault
         | Some k \<Rightarrow> finish (fifo_push (kbytes k) nw (mbus u)))"

definition mrp_get_fifo :: "mrp_dev \<Rightarrow> nat \<Rightarrow> u32 \<Rightarrow> mrp_unit \<Rightarrow> mrp_unit run" where
  "mrp_get_fifo dev off nbytes u =
     (let nw = drop_bit 2 (nbytes + 3)
      in case recvbuf u of
           None \<Rightarrow> if nw = 0 then Done u else Fault
         | Some k \<Rightarrow>
             (case fifo_pull dev off nw (k, mbus u) of
                None \<Rightarrow> Fault
              | Some (k, h) \<Rightarrow> Done (u\<lparr>recvbuf := Some k, mbus := h\<rparr>)))"

definition mrp_send :: "mrp_dev \<Rightarrow> mrp_unit \<Rightarrow> (u32 \<times> mrp_unit) run" where
  "mrp_send dev u = mrp_put_fifo dev (if deci_out u then sendbuf u else None) (slen u) u"

section \<open>Reception\<close>

text \<open>The three ways out with \<^verbatim>\<open>-1\<close>: the message reads FST again, then the FIFO is released.\<close>

definition recv_drop :: "mrp_dev \<Rightarrow> bool \<Rightarrow> mrp_unit \<Rightarrow> int \<times> mrp_unit" where
  "recv_drop dev shows_fst u =
     (let u = (if shows_fst \<and> mrp_debug \<ge> 1 then snd (rdr dev FST u) else u);
          u = wrr RXC 1 u;
          u = orr dev IER MRP_STATF_RECV u
      in (- 1, u))"

text \<open>The part behind an accepted header.\<close>

definition recv_body :: "mrp_dev \<Rightarrow> mrp_unit \<Rightarrow> (int \<times> mrp_unit) run" where
  "recv_body dev u =
     (case deci_in u of
        None \<Rightarrow> Fault
      | Some off \<Rightarrow>
          (case mrp_get_fifo dev off (word_of_int (rlen u - 4)) u of
             Fault \<Rightarrow> Fault
           | Done u \<Rightarrow>
               let u = wrr RXC 1 u
               in (case recvbuf u of
                     None \<Rightarrow> Fault
                   | Some k \<Rightarrow>
                       if hdr_cksum (kbytes k) \<noteq> deci_cksum (kbytes k)
                       then Done (1, orr dev IER MRP_STATF_RECV u)
                       else Done (1, wake_up WQ4 (set_flag MRPF_RDONE u)))))"

text \<open>From the label \<^verbatim>\<open>rescan_header\<close> on.\<close>

partial_function (option) recv_scan :: "mrp_dev \<Rightarrow> mrp_unit \<Rightarrow> (int \<times> mrp_unit) run option" where
  "recv_scan dev u =
     (case mrp_get_fifo dev 0 4 u of
        Fault \<Rightarrow> Some Fault
      | Done u \<Rightarrow>
          (case rdr dev FST u of (v, u) \<Rightarrow>
             if v AND 0x0010 \<noteq> 0 then Some (Done (recv_drop dev True u))
             else
               (case recvbuf u of
                  None \<Rightarrow> Some Fault
                | Some k \<Rightarrow>
                    (let u = u\<lparr>rlen := int (unat (hdr_size (kbytes k))),
                               deci_in := map_option (\<lambda>p. p + 4) (deci_in u)\<rparr>
                     in if hdr_magic (kbytes k) \<noteq> DECI_MAGIC
                           \<or> unat (hdr_size (kbytes k)) > MRP_MAX_PKT_SIZE
                        then (case rdr dev FST u of (v, u) \<Rightarrow>
                                if v AND 0x0001 = 0 then recv_scan dev u
                                else Some (Done (recv_drop dev False u)))
                        else Some (recv_body dev u)))))"

definition mrp_recv :: "mrp_dev \<Rightarrow> mrp_unit \<Rightarrow> (int \<times> mrp_unit) run option" where
  "mrp_recv dev u =
     (if flag MRPF_RDONE u then Some (Done (0, u))
      else
        let u = u\<lparr>deci_in := Some 0\<rparr>;
            (v, u) = rdr dev FST u
        in if v AND 0x0001 \<noteq> 0 then Some (Done (recv_drop dev True u))
           else recv_scan dev u)"

section \<open>Reset, boot request and control plane\<close>

definition mrp_reset :: "mrp_unit \<Rightarrow> int \<times> mrp_unit" where
  "mrp_reset u =
     (let u = wrr IER 0 u;
          u = wrr RST 0x8000 u;
          u = wrr FST 0xc0c0 u;
          u = wrr FST 0 u;
          u = wrr ISP 0 u;
          u = wrr CSI 7 u;
          u = wrr RST 0 u;
          u = wrr IER (MRP_STATF_CPR OR MRP_STATF_BOOTP OR MRP_STATF_RECV) u;
          tmp = (ucast (flags u) :: u16);
          tmp = tmp OR ucast MRPF_RESET;
          tmp = tmp AND NOT (ucast MRPF_SBUSY);
          tmp = tmp AND NOT (ucast MRPF_RDONE);
          tmp = tmp AND NOT (ucast MRPF_CPBUSY);
          u = u\<lparr>flags := ucast tmp\<rparr>;
          u = wake_up WQ3 u;
          u = u\<lparr>rlen := 0, slen := 0\<rparr>;
          u = u\<lparr>sendring := ringbuf_clear (sendring u), recvring := ringbuf_clear (recvring u)\<rparr>
      in (0, u))"

definition mrp_bootp :: "mrp_dev \<Rightarrow> mrp_unit \<Rightarrow> (int \<times> mrp_unit) run" where
  "mrp_bootp dev u =
     (let (cpr, u) = rdr dev CPR u;
          u = wrr FST (0x0040 OR 0x0080 OR 0x4000 OR 0x8000) u;
          u = wrr FST 0 u;
          u = clear_flag (MRPF_SBUSY OR MRPF_RDONE) u;
          u = u\<lparr>rlen := 0, slen := 0\<rparr>;
          answer = (if cpr AND 0x0100 \<noteq> 0 then
                      (if cpr AND 0x0200 \<noteq> 0 then Done (0, wake_up WQ3 u)
                       else if buf40 u \<noteq> None then mrp_put_fifo dev (buf40 u) (nbytes40 u) u
                       else Done (0, u))
                    else if buf38 u \<noteq> None then mrp_put_fifo dev (buf38 u) (nbytes38 u) u
                    else Done (0, u))
      in case answer of
           Fault \<Rightarrow> Fault
         | Done (_, u) \<Rightarrow>
             let u = wrr CPS cpr u;
                 u = wrr CSI 4 u;
                 u = wrr FSI 4 u;
                 u = orr dev IER MRP_STATF_BOOTP u
             in Done (0, u))"

definition mrp_cpr :: "mrp_dev \<Rightarrow> mrp_unit \<Rightarrow> mrp_unit" where
  "mrp_cpr dev u =
     (if count (recvring u) \<le> 0xfff then
        let (v, u) = rdr dev CPR u;
            u = u\<lparr>recvring := ringbuf_put (ucast v) (recvring u)\<rparr>;
            u = wrr CSI 1 u;
            u = wrr FSI 2 u;
            u = orr dev IER MRP_STATF_CPR u
        in wake_up WQ1 u
      else u)"

definition mrp_cps :: "mrp_dev \<Rightarrow> mrp_unit \<Rightarrow> mrp_unit" where
  "mrp_cps dev u =
     (if flag MRPF_CPBUSY u then
        if count (sendring u) > 0 then
          let u = set_flag MRPF_CPBUSY u;
              (x, r) = ringbuf_get (sendring u);
              u = wrr CPR (ucast x) (u\<lparr>sendring := r\<rparr>);
              u = wrr FSI 1 u;
              u = orr dev IER MRP_STATF_CPS u
          in wake_up WQ2 u
        else u
      else u)"

section \<open>The interrupt handler\<close>

text \<open>The status letters; nothing is read when the buffer has no room for them.\<close>

definition mrp_stat_decode :: "mrp_dev \<Rightarrow> int \<Rightarrow> mrp_unit \<Rightarrow> string option \<times> mrp_unit" where
  "mrp_stat_decode dev nbytes u =
     (if nbytes < 9 then (None, u)
      else let (a, u) = rdr dev IST u;
               (b, u) = rdr dev IER u;
               stat = a AND b
           in (Some (map (\<lambda>i. if bit stat (7 - i) then ''84wrRbCc'' ! i else CHR ''-'') [0..<8]), u))"

text \<open>Neither RECV nor WAKE: the first of RESET, BOOTP, CPR and CPS is served.\<close>

definition mrp_intr_other :: "mrp_dev \<Rightarrow> u16 \<Rightarrow> mrp_unit \<Rightarrow> mrp_unit run" where
  "mrp_intr_other dev stat u =
     (if stat AND MRP_STATF_RESET \<noteq> 0 then
        Done (snd (mrp_reset (andr dev RST (0x2000 OR 0x4000) u)))
      else if stat AND MRP_STATF_BOOTP \<noteq> 0 then
        (case mrp_bootp dev (andr dev IER (NOT MRP_STATF_BOOTP) u) of
           Fault \<Rightarrow> Fault
         | Done (_, u) \<Rightarrow> Done u)
      else if stat AND MRP_STATF_CPR \<noteq> 0 then
        Done (mrp_cpr dev (andr dev IER (NOT MRP_STATF_CPR) u))
      else if stat AND MRP_STATF_CPS \<noteq> 0 then
        let u = andr dev IER (NOT MRP_STATF_CPS) u;
            u = wrr CSI 2 u;
            u = clear_flag MRPF_CPBUSY u;
            u = mrp_cps dev u
        in Done (wake_up WQ2 u)
      else if stat \<noteq> 0 then Done (wrr IER 0 u)
      else Done u)"

definition mrp_intr_fifo :: "mrp_dev \<Rightarrow> u16 \<Rightarrow> mrp_unit \<Rightarrow> mrp_unit run option" where
  "mrp_intr_fifo dev stat u =
     (let u = (if stat AND MRP_STATF_WAKE \<noteq> 0
               then wake_up WQ3 (clear_flag MRPF_SBUSY (andr dev IER (NOT MRP_STATF_WAKE) u))
               else u)
      in if stat AND MRP_STATF_RECV \<noteq> 0 then
           (case mrp_recv dev (andr dev IER (NOT MRP_STATF_RECV) u) of
              None \<Rightarrow> None
            | Some Fault \<Rightarrow> Some Fault
            | Some (Done (_, u)) \<Rightarrow> Some (Done u))
         else Some (Done u))"

text \<open>\<^verbatim>\<open>i\<close> is the position of the unit in \<^verbatim>\<open>mrp_units\<close>; \<^verbatim>\<open>cli\<close> holds from the check of IDK4C to the end.\<close>

definition mrp_interrupt :: "mrp_dev \<Rightarrow> nat \<Rightarrow> mrp_unit \<Rightarrow> mrp_unit run option" where
  "mrp_interrupt dev i u =
     (if \<not> i < 4 then Some (Done u)
      else
        let (v, h) = rd32 dev IDK4C (mbus u);
            u = u\<lparr>mbus := h\<rparr>
        in if v AND 0x0004 = 0 then Some (Done u)
           else
             let u = u\<lparr>nintr := nintr u + 1\<rparr>;
                 (a, u) = rdr dev IST u;
                 (b, u) = rdr dev IER u;
                 stat = a AND b;
                 u = (if mrp_debug \<ge> 2
                      then let (_, u) = mrp_stat_decode dev 9 u
                           in u\<lparr>mbus := mrp_dump_regs dev mrp_debug (mbus u)\<rparr>
                      else u)
             in if stat AND MRP_STATF_RECV = 0 \<and> stat AND MRP_STATF_WAKE = 0
                then Some (mrp_intr_other dev stat u)
                else mrp_intr_fifo dev stat u)"

section \<open>Rewriting\<close>

lemma rdr_eq [bus_simps]:
  "rdr dev r u = (dev16 dev (mbus u) r, u\<lparr>mbus := Rd16 r (dev16 dev (mbus u) r) # mbus u\<rparr>)"
  by (simp add: rdr_def rd16_def Let_def)

lemma wrr_eq [bus_simps]: "wrr r v u = u\<lparr>mbus := Wr16 r v # mbus u\<rparr>"
  by (simp add: wrr_def wr16_def)

lemma orr_eq [bus_simps]:
  "orr dev r m u = u\<lparr>mbus := Wr16 r (dev16 dev (mbus u) r OR m) # Rd16 r (dev16 dev (mbus u) r) # mbus u\<rparr>"
  by (simp add: orr_def or16_def rd16_def wr16_def Let_def)

lemma andr_eq [bus_simps]:
  "andr dev r m u = u\<lparr>mbus := Wr16 r (dev16 dev (mbus u) r AND m) # Rd16 r (dev16 dev (mbus u) r) # mbus u\<rparr>"
  by (simp add: andr_def and16_def rd16_def wr16_def Let_def)

lemmas unit_ops = set_flag_def clear_flag_def wake_up_def

text \<open>Transfers on a buffer that is there.\<close>

lemma put_fifo_some:
  assumes "0 \<le> n" "n < 2 ^ 31"
  shows "mrp_put_fifo dev (Some k) n u =
    (let nw = nat ((n + 3) div 4);
         h = Wr16 TXC 1 # put_words (kbytes k) 0 nw (mbus u);
         v = dev16 dev h IER
     in Done (word_of_int ((n + 3) div 4),
          u\<lparr>mbus := Wr16 IER (v OR MRP_STATF_WAKE) # Rd16 IER v # h, flags := flags u OR MRPF_SBUSY\<rparr>))"
proof -
  define nw where "nw = nat ((n + 3) div 4)"
  have nw: "nw < 2 ^ 31" using assms by (simp add: nw_def)
  have w: "(word_of_int ((n + 3) div 4) :: u32) = of_nat nw"
    using assms by (simp add: nw_def)
  have "unat (of_nat nw :: u32) = nw"
    using nw by (simp add: unat_of_nat take_bit_nat_eq_self)
  then have "fifo_push (kbytes k) (of_nat nw) (mbus u) = put_words (kbytes k) 0 nw (mbus u)"
    using fifo_push_words [of "of_nat nw"] nw by simp
  then show ?thesis
    by (simp add: mrp_put_fifo_def Let_def w bus_simps unit_ops nw_def [symmetric])
qed

section \<open>Reception of a packet\<close>

text \<open>
  The size in the first word of the FIFO, when \<^verbatim>\<open>mrp_recv\<close> accepts that word as a header: the two
  status reads are clean, the magic number is right and the size is not too large.
\<close>

definition first_header :: "mrp_dev \<Rightarrow> mrp_unit \<Rightarrow> nat option" where
  "first_header dev u =
     (let f0 = dev16 dev (mbus u) FST;
          h0 = Rd16 FST f0 # mbus u;
          w = devfifo dev h0;
          h1 = FifoIn w # h0;
          f1 = dev16 dev h1 FST;
          size = unat (ucast (drop_bit 16 w) :: u16)
      in if f0 AND 0x0001 = 0 \<and> f1 AND 0x0010 = 0 \<and> ucast w = DECI_MAGIC \<and> size \<le> MRP_MAX_PKT_SIZE
         then Some size else None)"

lemma hdr_of_first_word:
  "hdr_magic (set_word m 0 w) = ucast w" "hdr_size (set_word m 0 w) = ucast (drop_bit 16 w)"
  using half_of_word [of "set_word m 0 w" 0] by (simp_all add: hdr_magic_def hdr_size_def numeral_2_eq_2)

lemma recv_accept:
  assumes "\<not> flag MRPF_RDONE u" "recvbuf u = Some k" "4 \<le> ksize k" "first_header dev u = Some s"
  shows "\<exists>w h. mrp_recv dev u = Some (recv_body dev (u\<lparr>recvbuf := Some (k\<lparr>kbytes := set_word (kbytes k) 0 w\<rparr>),
       mbus := h, rlen := int s, deci_in := Some 4\<rparr>))
     \<and> fifo_taken h = fifo_taken (mbus u) @ [w] \<and> s \<le> MRP_MAX_PKT_SIZE
     \<and> answered dev (length (fifo_taken (mbus u))) h"
proof -
  define f0 where "f0 = dev16 dev (mbus u) FST"
  define h0 where "h0 = Rd16 FST f0 # mbus u"
  define w where "w = devfifo dev h0"
  define h1 where "h1 = FifoIn w # h0"
  define f1 where "f1 = dev16 dev h1 FST"
  have c: "f0 AND 1 = 0" "f1 AND 16 = 0" "ucast w = DECI_MAGIC"
    and s: "s = unat (ucast (drop_bit 16 w) :: u16)" "s \<le> MRP_MAX_PKT_SIZE"
    using assms(4) unfolding first_header_def Let_def f0_def [symmetric] h0_def [symmetric]
      w_def [symmetric] h1_def [symmetric] f1_def [symmetric] by (simp_all split: if_splits)
  let ?k = "k\<lparr>kbytes := set_word (kbytes k) 0 w\<rparr>"
  let ?u = "u\<lparr>deci_in := Some 0, mbus := h0\<rparr>"
  have "fifo_pull dev 0 1 (k, h0) = Some (?k, h1)"
    using assms(3) by (simp add: fifo_pull_words rdfifo_def w_def h1_def Let_def)
  then have g: "mrp_get_fifo dev 0 4 ?u = Done (?u\<lparr>recvbuf := Some ?k, mbus := h1\<rparr>)"
    using assms(2) by (simp add: mrp_get_fifo_def Let_def)
  have "mrp_recv dev u = recv_scan dev ?u"
    using assms(1) c(1) by (simp add: mrp_recv_def rdr_eq Let_def f0_def h0_def)
  also have "\<dots> = Some (recv_body dev (u\<lparr>recvbuf := Some ?k,
      mbus := Rd16 FST f1 # h1, rlen := int s, deci_in := Some 4\<rparr>))"
    using c(2,3) s
    by (subst recv_scan.simps) (simp add: g rdr_eq hdr_of_first_word Let_def f1_def [symmetric])
  finally show ?thesis
    using s(2) by (intro exI [of _ w] exI [of _ "Rd16 FST f1 # h1"]) (simp add: h1_def h0_def w_def answered_start)
qed

lemma body_words:
  assumes "0 < s" "s \<le> MRP_MAX_PKT_SIZE"
  shows "unat (drop_bit 2 (word_of_int (int s - 4) + 3 :: u32)) = (s - 1) div 4"
proof -
  have "(word_of_int (int s - 4) + 3 :: u32) = of_nat (s - 1)"
    using assms(1) by (simp add: of_nat_diff)
  moreover have "unat (of_nat (s - 1) :: u32) = s - 1"
    using assms(2) by (simp add: unat_of_nat MRP_MAX_PKT_SIZE_def take_bit_nat_eq_self)
  ultimately show ?thesis
    by (simp add: unat_drop_div)
qed

lemma fifo_taken_append: "fifo_taken (rev (map FifoIn ws) @ h) = fifo_taken h @ ws"
  by (induction ws arbitrary: h rule: rev_induct) simp_all

lemma recv_packet:
  assumes "\<not> flag MRPF_RDONE u" "recvbuf u = Some k" "ksize k = MRP_MAX_PKT_SIZE"
    "first_header dev u = Some s" "0 < s"
  shows "\<exists>k' u'. mrp_recv dev u = Some (Done (1, u')) \<and> recvbuf u' = Some k' \<and> ksize k' = ksize k
    \<and> rlen u' = int s
    \<and> fifo_taken (mbus u') = fifo_taken (mbus u) @ words_of (kbytes k') ((s + 3) div 4)
    \<and> (\<forall>j. 4 * ((s + 3) div 4) \<le> j \<longrightarrow> kbytes k' j = kbytes k j)
    \<and> (flag MRPF_RDONE u' \<longleftrightarrow> hdr_cksum (kbytes k') = deci_cksum (kbytes k'))
    \<and> wakes u' = (if flag MRPF_RDONE u' then WQ4 # wakes u else wakes u)
    \<and> flags u' = (if flag MRPF_RDONE u' then flags u OR MRPF_RDONE else flags u)
    \<and> answered dev (length (fifo_taken (mbus u))) (mbus u')"
proof -
  obtain w h where r: "mrp_recv dev u = Some (recv_body dev
      (u\<lparr>recvbuf := Some (k\<lparr>kbytes := set_word (kbytes k) 0 w\<rparr>), mbus := h, rlen := int s,
         deci_in := Some 4\<rparr>))"
    and h: "fifo_taken h = fifo_taken (mbus u) @ [w]" and s: "s \<le> MRP_MAX_PKT_SIZE"
    and an: "answered dev (length (fifo_taken (mbus u))) h"
    using recv_accept [OF assms(1,2) _ assms(4)] assms(3) by (auto simp: MRP_MAX_PKT_SIZE_def)
  let ?k = "k\<lparr>kbytes := set_word (kbytes k) 0 w\<rparr>" and ?n = "(s - 1) div 4"
  let ?u = "u\<lparr>recvbuf := Some ?k, mbus := h, rlen := int s, deci_in := Some 4\<rparr>"
  have sz: "4 + 4 * ?n \<le> ksize (fst (?k, h))"
    using s assms(3) by (simp add: MRP_MAX_PKT_SIZE_def)
  obtain k' ws where g: "get_words dev 4 ?n (?k, h) = Some (k', rev (map FifoIn ws) @ h)"
    and ws: "length ws = ?n" and k': "ksize k' = ksize k"
    and wd: "\<forall>i < ?n. word_at (kbytes k') (4 + 4 * i) = ws ! i"
    and fr: "\<forall>j. j < 4 \<or> 4 + 4 * ?n \<le> j \<longrightarrow> kbytes k' j = kbytes ?k j"
    using get_words_effect [OF sz, of dev] by auto
  have an': "answered dev (length (fifo_taken (mbus u))) (rev (map FifoIn ws) @ h)"
    using get_words_answered [OF g] an by simp
  have n: "(s + 3) div 4 = Suc ?n" using assms(5) by simp
  have w0: "word_at (kbytes k') 0 = w"
  proof -
    have "word_at (kbytes k') 0 = word_at (kbytes ?k) 0"
      unfolding word_at_def using fr by simp
    then show ?thesis by simp
  qed
  have words: "words_of (kbytes k') ((s + 3) div 4) = w # ws"
    unfolding n words_of_def using wd w0 ws
    by (intro nth_equalityI) (auto simp: nth_Cons split: nat.splits simp del: upt_Suc)
  have "mrp_get_fifo dev 4 (word_of_int (rlen ?u - 4)) ?u =
      Done (?u\<lparr>recvbuf := Some k', mbus := rev (map FifoIn ws) @ h\<rparr>)"
    using g by (simp add: mrp_get_fifo_def Let_def fifo_pull_words body_words [OF assms(5) s, simplified])
  then have b: "recv_body dev ?u =
      (let v = ?u\<lparr>recvbuf := Some k', mbus := Wr16 RXC 1 # rev (map FifoIn ws) @ h\<rparr>
       in if hdr_cksum (kbytes k') \<noteq> deci_cksum (kbytes k') then Done (1, orr dev IER MRP_STATF_RECV v)
          else Done (1, wake_up WQ4 (set_flag MRPF_RDONE v)))"
    by (simp add: recv_body_def wrr_eq Let_def)
  have other: "kbytes k' j = kbytes k j" if "4 * ((s + 3) div 4) \<le> j" for j
    using fr that n set_word_other [of j 0] by auto
  have rd: "flag MRPF_RDONE (set_flag MRPF_RDONE v)" for v
    by (simp add: flag_def set_flag_def MRPF_RDONE_def)
  show ?thesis
  proof (cases "hdr_cksum (kbytes k') = deci_cksum (kbytes k')")
    case True
    then show ?thesis
      using r b rd other k' words h an'
      by (simp add: Let_def) (simp add: wake_up_def set_flag_def flag_def fifo_taken_append)
  next
    case False
    then show ?thesis
      using r b assms(1) other k' words h an'
      by (simp add: Let_def orr_eq flag_def fifo_taken_append)
  qed
qed

section \<open>Headers behind words that are not\<close>

text \<open>
  The size in the word of the FIFO that \<^verbatim>\<open>recv_scan\<close> accepts as a header after it has rejected \<^verbatim>\<open>j\<close> words before it; each word rejected moves the place
  for the body four bytes on, while the word itself goes to the start of the buffer.
\<close>

definition fifo_word :: "mrp_dev \<Rightarrow> bus \<Rightarrow> u32 \<times> u16 \<times> bus" where
  "fifo_word dev h =
     (let w = devfifo dev h; f = dev16 dev (FifoIn w # h) FST in (w, f, Rd16 FST f # FifoIn w # h))"

definition good_header :: "u32 \<Rightarrow> bool" where
  "good_header w \<longleftrightarrow> ucast w = DECI_MAGIC \<and> unat (ucast (drop_bit 16 w) :: u16) \<le> MRP_MAX_PKT_SIZE"

fun header_from :: "mrp_dev \<Rightarrow> nat \<Rightarrow> bus \<Rightarrow> nat option" where
  "header_from dev 0 h =
     (case fifo_word dev h of (w, f, _) \<Rightarrow>
        if f AND 0x0010 = 0 \<and> good_header w then Some (unat (ucast (drop_bit 16 w) :: u16)) else None)"
| "header_from dev (Suc j) h =
     (case fifo_word dev h of (w, f, h) \<Rightarrow>
        if f AND 0x0010 = 0 \<and> \<not> good_header w \<and> dev16 dev h FST AND 0x0001 = 0
        then header_from dev j (Rd16 FST (dev16 dev h FST) # h) else None)"

definition header_after :: "mrp_dev \<Rightarrow> mrp_unit \<Rightarrow> nat \<Rightarrow> nat option" where
  "header_after dev u j =
     (let f = dev16 dev (mbus u) FST in if f AND 0x0001 = 0 then header_from dev j (Rd16 FST f # mbus u) else None)"

text \<open>One pass from the label on, with a receive buffer.\<close>

lemma scan_pass:
  assumes "recvbuf v = Some k" "4 \<le> ksize k" "fifo_word dev (mbus v) = (w, f, h)"
    and "v1 = v\<lparr>recvbuf := Some (k\<lparr>kbytes := set_word (kbytes k) 0 w\<rparr>), mbus := h\<rparr>"
    and "v2 = v1\<lparr>rlen := int (unat (ucast (drop_bit 16 w) :: u16)), deci_in := map_option (\<lambda>p. p + 4) (deci_in v)\<rparr>"
    and "v3 = v2\<lparr>mbus := Rd16 FST (dev16 dev h FST) # h\<rparr>"
  shows "recv_scan dev v =
    (if f AND 0x0010 \<noteq> 0 then Some (Done (recv_drop dev True v1))
     else if good_header w then Some (recv_body dev v2)
     else if dev16 dev h FST AND 0x0001 = 0 then recv_scan dev v3
     else Some (Done (recv_drop dev False v3)))"
proof -
  have wf: "w = devfifo dev (mbus v)" "f = dev16 dev (FifoIn w # mbus v) FST" "h = Rd16 FST f # FifoIn w # mbus v"
    using assms(3) by (auto simp: fifo_word_def Let_def)
  have "fifo_pull dev 0 1 (k, mbus v) = Some (k\<lparr>kbytes := set_word (kbytes k) 0 w\<rparr>, FifoIn w # mbus v)"
    using assms(2) by (simp add: fifo_pull_words rdfifo_def wf(1) Let_def)
  then have "mrp_get_fifo dev 0 4 v = Done (v1\<lparr>mbus := FifoIn w # mbus v\<rparr>)"
    using assms(1) by (simp add: mrp_get_fifo_def Let_def assms(4))
  then show ?thesis
    by (subst recv_scan.simps)
      (auto simp: rdr_eq hdr_of_first_word good_header_def Let_def not_less assms(4-6) wf(3) simp flip: wf(2))
qed

lemma scan_header:
  assumes "recvbuf v = Some k" "4 \<le> ksize k" "deci_in v = Some d" "header_from dev j (mbus v) = Some s"
  shows "\<exists>k' h. recv_scan dev v = Some (recv_body dev (v\<lparr>recvbuf := Some k', mbus := h, rlen := int s,
       deci_in := Some (d + 4 * (j + 1))\<rparr>)) \<and> ksize k' = ksize k \<and> s \<le> MRP_MAX_PKT_SIZE"
  using assms
proof (induction j arbitrary: v k d)
  case (0 v k d)
  obtain w f h where w: "fifo_word dev (mbus v) = (w, f, h)" by (cases "fifo_word dev (mbus v)")
  then show ?case
    using scan_pass [OF 0(1,2) w refl refl refl] 0(3,4)
    by (intro exI [of _ "k\<lparr>kbytes := set_word (kbytes k) 0 w\<rparr>"] exI [of _ h])
      (auto simp: good_header_def split: if_splits)
next
  case (Suc j v k d)
  obtain w f h where w: "fifo_word dev (mbus v) = (w, f, h)" by (cases "fifo_word dev (mbus v)")
  let ?k = "k\<lparr>kbytes := set_word (kbytes k) 0 w\<rparr>"
  let ?v = "v\<lparr>recvbuf := Some ?k, rlen := int (unat (ucast (drop_bit 16 w) :: u16)), deci_in := Some (d + 4),
    mbus := Rd16 FST (dev16 dev h FST) # h\<rparr>"
  have c: "f AND 0x0010 = 0" "\<not> good_header w" "dev16 dev h FST AND 0x0001 = 0"
    and later: "header_from dev j (Rd16 FST (dev16 dev h FST) # h) = Some s"
    using Suc.prems(4) w by (auto split: if_splits)
  have "recv_scan dev v = recv_scan dev ?v"
    using scan_pass [OF Suc.prems(1,2) w refl refl refl] c Suc.prems(3) by simp
  moreover obtain k' h' where "recv_scan dev ?v = Some (recv_body dev (?v\<lparr>recvbuf := Some k', mbus := h', rlen := int s,
       deci_in := Some (d + 4 + 4 * (j + 1))\<rparr>))" "ksize k' = ksize k" "s \<le> MRP_MAX_PKT_SIZE"
    using Suc.IH [of ?v ?k "d + 4"] later Suc.prems(2) by auto
  ultimately show ?case by (intro exI [of _ k'] exI [of _ h']) (simp add: algebra_simps)
qed

text \<open>A scan that faults has found a header.\<close>

lemma scan_fault:
  assumes "recv_scan dev v = Some x" "x = Fault" "recvbuf v = Some k" "4 \<le> ksize k"
  shows "\<exists>j s. header_from dev j (mbus v) = Some s"
proof -
  have "\<forall>k. x = Fault \<longrightarrow> recvbuf v = Some k \<longrightarrow> 4 \<le> ksize k \<longrightarrow> (\<exists>j s. header_from dev j (mbus v) = Some s)"
  proof (rule recv_scan.raw_induct [OF _ assms(1)], intro allI impI)
    fix rec :: "mrp_dev \<Rightarrow> mrp_unit \<Rightarrow> (int \<times> mrp_unit) run option" and dev u x k
    assume IH: "\<And>dev u x. rec dev u = Some x \<Longrightarrow>
      \<forall>k. x = Fault \<longrightarrow> recvbuf u = Some k \<longrightarrow> 4 \<le> ksize k \<longrightarrow> (\<exists>j s. header_from dev j (mbus u) = Some s)"
    assume eq: "(case mrp_get_fifo dev 0 4 u of
        Done u \<Rightarrow>
          (case rdr dev FST u of (v, u) \<Rightarrow>
             if v AND 16 \<noteq> 0 then Some (Done (recv_drop dev True u))
             else
               (case recvbuf u of
                  None \<Rightarrow> Some Fault
                | Some k \<Rightarrow>
                    (let u = u\<lparr>rlen := int (unat (hdr_size (kbytes k))),
                               deci_in := map_option (\<lambda>p. p + 4) (deci_in u)\<rparr>
                     in if hdr_magic (kbytes k) \<noteq> DECI_MAGIC
                           \<or> unat (hdr_size (kbytes k)) > MRP_MAX_PKT_SIZE
                        then (case rdr dev FST u of (v, u) \<Rightarrow>
                                if v AND 1 = 0 then rec dev u
                                else Some (Done (recv_drop dev False u)))
                        else Some (recv_body dev u))))
      | Fault \<Rightarrow> Some Fault) = Some x"
    assume x: "x = Fault" and k: "recvbuf u = Some k" "4 \<le> ksize k"
    obtain w f h where w: "fifo_word dev (mbus u) = (w, f, h)" by (cases "fifo_word dev (mbus u)")
    have wf: "w = devfifo dev (mbus u)" "f = dev16 dev (FifoIn w # mbus u) FST" "h = Rd16 FST f # FifoIn w # mbus u"
      using w by (auto simp: fifo_word_def Let_def)
    let ?k = "k\<lparr>kbytes := set_word (kbytes k) 0 w\<rparr>"
    have "fifo_pull dev 0 1 (k, mbus u) = Some (?k, FifoIn w # mbus u)"
      using k(2) by (simp add: fifo_pull_words rdfifo_def wf(1) Let_def)
    then have g: "mrp_get_fifo dev 0 4 u = Done (u\<lparr>recvbuf := Some ?k, mbus := FifoIn w # mbus u\<rparr>)"
      using k(1) by (simp add: mrp_get_fifo_def Let_def)
    show "\<exists>j s. header_from dev j (mbus u) = Some s"
    proof (cases "good_header w")
      case True
      then have "header_from dev 0 (mbus u) = Some (unat (ucast (drop_bit 16 w) :: u16))"
        using eq x g w wf by (simp add: rdr_eq split: if_splits)
      then show ?thesis by blast
    next
      case False
      let ?u = "u\<lparr>recvbuf := Some ?k, rlen := int (unat (ucast (drop_bit 16 w) :: u16)),
        deci_in := map_option (\<lambda>p. p + 4) (deci_in u), mbus := Rd16 FST (dev16 dev h FST) # h\<rparr>"
      have c: "f AND 0x0010 = 0" "dev16 dev h FST AND 0x0001 = 0" "rec dev ?u = Some x"
        using eq x g False wf(3)
        by (simp_all add: rdr_eq hdr_of_first_word good_header_def not_le Let_def flip: wf(2) split: if_splits)
      then obtain j s where "header_from dev j (mbus ?u) = Some s" using IH [OF c(3)] x k(2) by auto
      then have "header_from dev (Suc j) (mbus u) = Some s" using c(1,2) False w by simp
      then show ?thesis by blast
    qed
  qed
  then show ?thesis using assms(2-) by blast
qed

text \<open>Behind the header the body runs over the end, or, with size 0, its length wraps around.\<close>

lemma body_fault:
  assumes "recvbuf u = Some k" "ksize k = MRP_MAX_PKT_SIZE" "deci_in u = Some d" "rlen u = int s" "s \<le> MRP_MAX_PKT_SIZE"
  shows "recv_body dev u = Fault \<longleftrightarrow> s = 0 \<or> 4 < s \<and> MRP_MAX_PKT_SIZE < d + 4 * ((s - 1) div 4)"
proof -
  define n where "n = unat (drop_bit 2 (word_of_int (int s - 4) + 3 :: u32))"
  have "recv_body dev u = Fault \<longleftrightarrow> get_words dev d n (k, mbus u) = None"
    using assms(1,3,4)
    by (auto simp: recv_body_def mrp_get_fifo_def Let_def fifo_pull_words n_def wrr_eq split: option.splits)
  also have "\<dots> \<longleftrightarrow> 0 < n \<and> MRP_MAX_PKT_SIZE < d + 4 * n"
    using get_words_overrun [of "(k, mbus u)" d n dev] get_words_effect [of d n "(k, mbus u)" dev] assms(2)
    by (cases "d + 4 * n \<le> MRP_MAX_PKT_SIZE"; cases "n = 0") auto
  also have "\<dots> \<longleftrightarrow> s = 0 \<or> 4 < s \<and> MRP_MAX_PKT_SIZE < d + 4 * ((s - 1) div 4)"
  proof (cases "s = 0")
    case True
    then have "n = 1073741823"
      by (simp add: n_def unat_drop_div unsigned_minus_1_eq_mask mask_eq_exp_minus_1)
    then show ?thesis using True by (simp add: MRP_MAX_PKT_SIZE_def)
  next
    case False
    then have "n = (s - 1) div 4" using body_words [OF _ assms(5)] by (simp add: n_def)
    then show ?thesis using False by (auto simp: div_greater_zero_iff)
  qed
  finally show ?thesis .
qed

lemma recv_fault_iff:
  assumes "\<not> flag MRPF_RDONE u" "recvbuf u = Some k" "ksize k = MRP_MAX_PKT_SIZE"
  shows "mrp_recv dev u = Some Fault \<longleftrightarrow>
    (\<exists>j s. header_after dev u j = Some s \<and> (s = 0 \<or> 4 < s \<and> MRP_MAX_PKT_SIZE < 4 * j + 4 * ((s + 3) div 4)))"
proof -
  have k: "4 \<le> ksize k" using assms(3) by (simp add: MRP_MAX_PKT_SIZE_def)
  let ?f = "dev16 dev (mbus u) FST"
  let ?u = "u\<lparr>deci_in := Some 0, mbus := Rd16 FST ?f # mbus u\<rparr>"
  show ?thesis
  proof (cases "?f AND 0x0001 = 0")
    case True
    have r: "mrp_recv dev u = recv_scan dev ?u" using assms(1) True by (simp add: mrp_recv_def rdr_eq Let_def)
    have h: "header_after dev u j = header_from dev j (mbus ?u)" for j using True by (simp add: header_after_def Let_def)
    have cond: "recv_scan dev ?u = Some Fault \<longleftrightarrow> s = 0 \<or> 4 < s \<and> MRP_MAX_PKT_SIZE < 4 * j + 4 * ((s + 3) div 4)"
      if hd: "header_from dev j (mbus ?u) = Some s" for j s
    proof -
      have "recvbuf ?u = Some k" "deci_in ?u = Some 0" using assms(2) by simp_all
      then obtain k' h where e: "recv_scan dev ?u = Some (recv_body dev (?u\<lparr>recvbuf := Some k', mbus := h, rlen := int s,
          deci_in := Some (0 + 4 * (j + 1))\<rparr>))" "ksize k' = ksize k" "s \<le> MRP_MAX_PKT_SIZE"
        using scan_header [OF _ k _ hd] by blast
      have "4 * (j + 1) + 4 * ((s - 1) div 4) = 4 * j + 4 * ((s + 3) div 4)" if "0 < s"
      proof -
        have "(s + 3) div 4 = Suc ((s - 1) div 4)" using that by simp
        then show ?thesis by simp
      qed
      then show ?thesis
        using e body_fault [of "?u\<lparr>recvbuf := Some k', mbus := h, rlen := int s, deci_in := Some (0 + 4 * (j + 1))\<rparr>" k' _ s dev] assms(3)
        by auto
    qed
    show ?thesis using scan_fault [of dev ?u Fault k] assms(2) k cond unfolding r h by auto
  next
    case False
    then show ?thesis using assms(1) by (simp add: mrp_recv_def rdr_eq Let_def header_after_def)
  qed
qed

end
