(* ===== verification/Psnet_Irq.thy ===== *)
theory Psnet_Irq
  imports Psnet
begin

text \<open>
  Properties of the interrupt side of the MRP network driver: the invariant of a unit and that
  the interrupt handler keeps it, what a reception stores, the round trip of a packet from the
  send buffer of one unit to the receive buffer of another, and the handling of interrupts that
  are not the board's.
\<close>

section \<open>The invariant of a unit\<close>

definition buf_ok :: "nat \<Rightarrow> kbuf option \<Rightarrow> bool" where
  "buf_ok n b \<longleftrightarrow> (case b of None \<Rightarrow> True | Some k \<Rightarrow> ksize k = n)"

definition unit_ok :: "mrp_unit \<Rightarrow> bool" where
  "unit_ok u \<longleftrightarrow>
     ring_ok (sendring u) \<and> ring_ok (recvring u)
     \<and> buf_ok MRP_MAX_PKT_SIZE (sendbuf u) \<and> buf_ok MRP_MAX_PKT_SIZE (recvbuf u)
     \<and> 0 \<le> slen u \<and> slen u \<le> int MRP_MAX_PKT_SIZE \<and> (0 < slen u \<longrightarrow> deci_out u)
     \<and> (deci_out u \<longrightarrow> sendbuf u \<noteq> None)
     \<and> 0 \<le> rlen u \<and> rlen u < 2 ^ 16
     \<and> 0 \<le> nbytes38 u \<and> nbytes38 u \<le> int MRP_MAX_PKT_SIZE
     \<and> 0 \<le> nbytes40 u \<and> nbytes40 u \<le> int MRP_MAX_PKT_SIZE"

text \<open>The fields the invariant does not mention.\<close>

lemma unit_ok_frame [simp]:
  "unit_ok (u\<lparr>mbus := h\<rparr>) = unit_ok u" "unit_ok (u\<lparr>wakes := q\<rparr>) = unit_ok u"
  "unit_ok (u\<lparr>flags := f\<rparr>) = unit_ok u" "unit_ok (u\<lparr>nintr := n\<rparr>) = unit_ok u"
  "unit_ok (u\<lparr>deci_in := d\<rparr>) = unit_ok u"
  by (simp_all add: unit_ok_def)

lemma unit_ok_io [simp]:
  "unit_ok (snd (rdr dev r u)) = unit_ok u" "unit_ok (wrr r v u) = unit_ok u"
  "unit_ok (orr dev r m u) = unit_ok u" "unit_ok (andr dev r m u) = unit_ok u"
  "unit_ok (wake_up q u) = unit_ok u" "unit_ok (set_flag f u) = unit_ok u"
  "unit_ok (clear_flag f u) = unit_ok u"
  by (simp_all add: bus_simps unit_ops)

lemma unit_ok_upd [simp]:
  "unit_ok u \<Longrightarrow> ksize k = MRP_MAX_PKT_SIZE \<Longrightarrow> unit_ok (u\<lparr>recvbuf := Some k\<rparr>)"
  "unit_ok u \<Longrightarrow> unit_ok (u\<lparr>rlen := 0\<rparr>)"
  "unit_ok u \<Longrightarrow> unit_ok (u\<lparr>slen := 0\<rparr>)"
  "unit_ok u \<Longrightarrow> unit_ok (u\<lparr>rlen := uint (x :: u16)\<rparr>)"
  using uint_lt2p [of x] by (simp_all add: unit_ok_def buf_ok_def)

lemma put_fifo_ok:
  "mrp_put_fifo dev src n u = Done x \<Longrightarrow> unit_ok u \<longrightarrow> unit_ok (snd x)"
  by (auto simp: mrp_put_fifo_def Let_def split: option.splits if_splits)

lemma get_fifo_ok:
  assumes "unit_ok u" "mrp_get_fifo dev off n u = Done u'"
  shows "unit_ok u'"
proof (cases "recvbuf u")
  case None
  then show ?thesis using assms by (simp add: mrp_get_fifo_def Let_def split: if_splits)
next
  case (Some k)
  have "ksize k = MRP_MAX_PKT_SIZE" using assms(1) Some by (simp add: unit_ok_def buf_ok_def)
  then show ?thesis
    using assms Some get_words_bus [of dev off "unat (drop_bit 2 (n + 3))" "(k, mbus u)"]
    by (auto simp: mrp_get_fifo_def Let_def fifo_pull_words split: option.splits)
qed

lemma recv_drop_ok [simp]: "unit_ok u \<Longrightarrow> unit_ok (snd (recv_drop dev b u))"
  by (simp add: recv_drop_def Let_def)

lemma recv_body_ok: "recv_body dev u = Done x \<Longrightarrow> unit_ok u \<longrightarrow> unit_ok (snd x)"
  using get_fifo_ok [of u dev]
  by (auto simp: recv_body_def Let_def split: option.splits run.splits if_splits)

lemma recv_scan_ok:
  assumes "recv_scan dev u = Some x"
  shows "unit_ok u \<longrightarrow> (\<forall>r u'. x = Done (r, u') \<longrightarrow> unit_ok u')"
proof (rule recv_scan.raw_induct [OF _ assms], intro impI allI)
  fix rec :: "mrp_dev \<Rightarrow> mrp_unit \<Rightarrow> (int \<times> mrp_unit) run option" and dev u x r u'
  assume IH: "\<And>dev u x. rec dev u = Some x \<Longrightarrow> unit_ok u \<longrightarrow> (\<forall>r u'. x = Done (r, u') \<longrightarrow> unit_ok u')"
  assume eq: "(case mrp_get_fifo dev 0 4 u of
        Done u \<Rightarrow>
          (case rdr dev FST u of (v, u) \<Rightarrow>
             if v AND 16 \<noteq> 0 then Some (Done (recv_drop dev True u))
             else
               (case recvbuf u of
                  None \<Rightarrow> Some Fault
                | Some k \<Rightarrow>
                    (let u = u\<lparr>rlen := int (unat (hdr_size (kbytes k))),
                               deci_in := map_option (\<lambda>p. p + 4) (deci_in u)\<rparr>
                     in if hdr_magic (kbytes k) \<noteq> DECI_MAGIC
                           \<or> unat (hdr_size (kbytes k)) > MRP_MAX_PKT_SIZE
                        then (case rdr dev FST u of (v, u) \<Rightarrow>
                                if v AND 1 = 0 then rec dev u
                                else Some (Done (recv_drop dev False u)))
                        else Some (recv_body dev u))))
      | Fault \<Rightarrow> Some Fault) = Some x"
  assume u: "unit_ok u" and x: "x = Done (r, u')"
  obtain v where v: "mrp_get_fifo dev 0 4 u = Done v" using eq x by (cases "mrp_get_fifo dev 0 4 u") auto
  have "unit_ok v" by (rule get_fifo_ok [OF u v])
  then show "unit_ok u'"
    using eq x v
    by (auto simp: rdr_eq Let_def prod_eq_iff split: option.splits if_splits dest!: IH recv_body_ok)
qed

lemma recv_ok: "mrp_recv dev u = Some (Done (r, u')) \<Longrightarrow> unit_ok u \<Longrightarrow> unit_ok u'"
  using recv_scan_ok [of dev] recv_drop_ok [of _ dev]
  by (fastforce simp: mrp_recv_def rdr_eq Let_def prod_eq_iff split: if_splits)

lemma reset_ok: "unit_ok u \<Longrightarrow> unit_ok (snd (mrp_reset u))"
  by (simp add: mrp_reset_def Let_def bus_simps unit_ops) (simp add: unit_ok_def)

lemma bootp_ok: "mrp_bootp dev u = Done x \<Longrightarrow> unit_ok u \<longrightarrow> unit_ok (snd x)"
  by (auto simp: mrp_bootp_def Let_def rdr_eq split: run.splits if_splits prod.splits
      dest!: put_fifo_ok)

lemma cpr_ok: "unit_ok u \<Longrightarrow> unit_ok (mrp_cpr dev u)"
proof -
  assume u: "unit_ok u"
  have "unit_ok (u\<lparr>mbus := h, recvring := ringbuf_put x (recvring u)\<rparr>)" if "count (recvring u) \<le> 0xfff" for h x
  proof -
    have "unat (count (recvring u)) \<le> 0xfff" using that by (simp add: word_le_nat_alt)
    then show ?thesis using u ring_put_contents(2) [of "recvring u"] by (simp add: unit_ok_def)
  qed
  then show ?thesis using u by (simp add: mrp_cpr_def Let_def rdr_eq)
qed

lemma cps_ok: "unit_ok u \<Longrightarrow> unit_ok (mrp_cps dev u)"
proof -
  assume u: "unit_ok u"
  have "unit_ok (v\<lparr>sendring := snd (ringbuf_get (sendring u))\<rparr>)"
    if "count (sendring u) > 0" "unit_ok v" for v
    using u that ring_get_contents(3) [of "sendring u"] by (simp add: unit_ok_def)
  then show ?thesis
    using u by (simp add: mrp_cps_def Let_def split_def set_flag_def)
qed

lemma intr_other_ok: "mrp_intr_other dev stat u = Done u' \<Longrightarrow> unit_ok u \<Longrightarrow> unit_ok u'"
  using reset_ok [of "andr dev RST (0x2000 OR 0x4000) u"] cpr_ok [of "andr dev IER (NOT MRP_STATF_CPR) u" dev]
    cps_ok [of "clear_flag MRPF_CPBUSY (wrr CSI 2 (andr dev IER (NOT MRP_STATF_CPS) u))" dev]
  by (auto simp: mrp_intr_other_def Let_def split: if_splits run.splits dest!: bootp_ok)

lemma intr_fifo_ok: "mrp_intr_fifo dev stat u = Some (Done u') \<Longrightarrow> unit_ok u \<Longrightarrow> unit_ok u'"
  using recv_ok [of dev]
  by (fastforce simp: mrp_intr_fifo_def Let_def split: if_splits run.splits option.splits)

section \<open>Entry to the handler\<close>

text \<open>The interrupt status the handler acts on, when the bridge says the interrupt is the board's.\<close>

definition intr_stat :: "mrp_dev \<Rightarrow> mrp_unit \<Rightarrow> u16 option" where
  "intr_stat dev u =
     (let v = dev32 dev (mbus u) IDK4C;
          h = Rd32 IDK4C v # mbus u;
          a = dev16 dev h IST
      in if v AND 0x0004 = 0 then None else Some (a AND dev16 dev (Rd16 IST a # h) IER))"

lemma fifo_taken_dump [simp]: "fifo_taken (mrp_dump_regs dev d h) = fifo_taken h"
proof -
  have "fifo_taken (rd_all dev rs h) = fifo_taken h" for rs
    by (induction rs arbitrary: h) (simp_all add: rd_all_def rd16_def Let_def)
  then show ?thesis by (simp add: mrp_dump_regs_def)
qed

lemma interrupt_eq:
  assumes "i < 4"
  shows "\<exists>h n. writes h = writes (mbus u) \<and> fifo_taken h = fifo_taken (mbus u)
    \<and> (intr_stat dev u = None \<longrightarrow> n = nintr u) \<and> (intr_stat dev u \<noteq> None \<longrightarrow> n = nintr u + 1)
    \<and> mrp_interrupt dev i u =
       (case intr_stat dev u of
          None \<Rightarrow> Some (Done (u\<lparr>nintr := n, mbus := h\<rparr>))
        | Some stat \<Rightarrow>
            if stat AND MRP_STATF_RECV = 0 \<and> stat AND MRP_STATF_WAKE = 0
            then Some (mrp_intr_other dev stat (u\<lparr>nintr := n, mbus := h\<rparr>))
            else mrp_intr_fifo dev stat (u\<lparr>nintr := n, mbus := h\<rparr>))"
proof (cases "intr_stat dev u")
  case None
  then show ?thesis
    using assms
    by (intro exI [of _ "Rd32 IDK4C (dev32 dev (mbus u) IDK4C) # mbus u"] exI [of _ "nintr u"])
      (auto simp: mrp_interrupt_def intr_stat_def rd32_def Let_def writes_def split: if_splits)
next
  case (Some stat)
  define h where "h = Rd32 IDK4C (dev32 dev (mbus u) IDK4C) # mbus u"
  define a where "a = dev16 dev h IST"
  define b where "b = dev16 dev (Rd16 IST a # h) IER"
  have v: "dev32 dev (mbus u) IDK4C AND 4 \<noteq> 0" and stat: "stat = a AND b"
    using Some by (simp_all add: intr_stat_def Let_def h_def a_def b_def split: if_splits)
  define g where "g = mrp_dump_regs dev mrp_debug
    (mbus (snd (mrp_stat_decode dev 9 (u\<lparr>nintr := nintr u + 1, mbus := Rd16 IER b # Rd16 IST a # h\<rparr>))))"
  have "mrp_interrupt dev i u =
      (if stat AND MRP_STATF_RECV = 0 \<and> stat AND MRP_STATF_WAKE = 0
       then Some (mrp_intr_other dev stat (u\<lparr>nintr := nintr u + 1, mbus := g\<rparr>))
       else mrp_intr_fifo dev stat (u\<lparr>nintr := nintr u + 1, mbus := g\<rparr>))"
    using assms v
    by (simp add: mrp_interrupt_def rd32_def rdr_eq Let_def mrp_debug_def mrp_stat_decode_def
        stat g_def flip: h_def a_def b_def)
  moreover have "writes g = writes (mbus u)" "fifo_taken g = fifo_taken (mbus u)"
    by (simp_all add: g_def bus_simps mrp_stat_decode_def rdr_eq Let_def h_def)
  ultimately show ?thesis
    using Some by (intro exI [of _ g] exI [of _ "nintr u + 1"]) simp
qed

lemma interrupt_ok:
  assumes "mrp_interrupt dev i u = Some (Done u')" "unit_ok u"
  shows "unit_ok u'"
proof (cases "i < 4")
  case True
  obtain h n where e: "mrp_interrupt dev i u =
       (case intr_stat dev u of
          None \<Rightarrow> Some (Done (u\<lparr>nintr := n, mbus := h\<rparr>))
        | Some stat \<Rightarrow>
            if stat AND MRP_STATF_RECV = 0 \<and> stat AND MRP_STATF_WAKE = 0
            then Some (mrp_intr_other dev stat (u\<lparr>nintr := n, mbus := h\<rparr>))
            else mrp_intr_fifo dev stat (u\<lparr>nintr := n, mbus := h\<rparr>))"
    using interrupt_eq [OF True] by blast
  have "unit_ok (u\<lparr>nintr := n, mbus := h\<rparr>)" using assms(2) by simp
  then show ?thesis
    using assms(1) e intr_other_ok intr_fifo_ok by (auto split: option.splits if_splits)
next
  case False
  then show ?thesis using assms by (simp add: mrp_interrupt_def)
qed

section \<open>A unit and a board to evaluate on\<close>

definition zero_ring :: ringbuf_s where
  "zero_ring = \<lparr>buf = (\<lambda>_. 0), write_index = 0, read_index = 0, count = 0\<rparr>"

definition zero_kbuf :: kbuf where
  "zero_kbuf = \<lparr>ksize = MRP_MAX_PKT_SIZE, kbytes = (\<lambda>_. 0)\<rparr>"

definition demo_unit :: mrp_unit where
  "demo_unit = \<lparr>flags = MRPF_DETECT OR MRPF_VALID OR MRPF_RESET OR MRPF_OPENED, irq = 9, base0 = 0,
     base2 = 0, regs = 0, sendbuf = Some zero_kbuf, recvbuf = Some zero_kbuf, deci_out = False,
     deci_in = None, slen = 0, rlen = 0, nintr = 0, buf38 = None, nbytes38 = 0, buf40 = None,
     nbytes40 = 0, deci_tag_for_reset = 0, sendring = zero_ring, recvring = zero_ring, base4 = 0,
     reset_mode = 0, mbus = [], wakes = []\<rparr>"

text \<open>The smallest packet: a header with a checksum and nothing else.\<close>

definition demo_pkt :: mem where
  "demo_pkt = set_word (set_word (\<lambda>_. 0) 0 0x0020a14c) 28 0x0020a14c"

definition feed_dev :: "u32 list \<Rightarrow> u16 \<Rightarrow> mrp_dev" where
  "feed_dev ws st = \<lparr>dev16 = (\<lambda>h r. if r = IST \<or> r = IER then st else 0), dev32 = (\<lambda>_ _. 4),
     devfifo = (\<lambda>h. let n = length (fifo_taken h) in if n < length ws then ws ! n else 0)\<rparr>"

lemma feeds_feed_dev: "feeds (feed_dev ws st) ws 0"
  by (simp add: feeds_def feed_dev_def Let_def)

lemma demo_unit_ok: "unit_ok demo_unit"
  by (simp add: unit_ok_def demo_unit_def buf_ok_def zero_kbuf_def zero_ring_def ring_ok_def
      MRP_MAX_PKT_SIZE_def)

lemma demo_pkt_hdr:
  "hdr_magic demo_pkt = DECI_MAGIC" "unat (hdr_size demo_pkt) = 32"
  "hdr_cksum demo_pkt = deci_cksum demo_pkt"
  by code_simp+

section \<open>Properties of the interrupt side\<close>

text \<open>
  The interrupt handler keeps the invariant of its unit: both rings stay consistent, the packet
  buffers keep their size, the lengths stay in range and a pending send always has a buffer.
\<close>

theorem mrp_interrupt_inv:
  assumes "mrp_interrupt dev i u = Some (Done u')" "unit_ok u"
  shows "unit_ok u'"
  using assms by (rule interrupt_ok)

theorem mrp_interrupt_inv_witness:
  "unit_ok demo_unit \<and>
   (\<exists>u'. mrp_interrupt (feed_dev [] 0x01) 0 demo_unit = Some (Done u') \<and> unit_ok u')"
proof -
  have "intr_stat (feed_dev [] 1) demo_unit = Some 1"
    by (simp add: intr_stat_def feed_dev_def Let_def)
  then obtain u' where "mrp_interrupt (feed_dev [] 1) 0 demo_unit = Some (Done u')"
    using interrupt_eq [of 0 demo_unit "feed_dev [] 1"]
    by (auto simp: mrp_intr_other_def statf_defs)
  then show ?thesis
    using mrp_interrupt_inv [of "feed_dev [] 1" 0 demo_unit] demo_unit_ok by auto
qed

text \<open>
  an interrupt on the shared line that the bridge does not claim, or that shows no enabled
  cause, changes nothing: no register is written, no word is taken from the FIFO, and the unit is
  as before but for the interrupt count.
\<close>

theorem mrp_interrupt_foreign:
  assumes "i < 4" "intr_stat dev u = None \<or> intr_stat dev u = Some 0"
  shows "\<exists>u'. mrp_interrupt dev i u = Some (Done u') \<and> writes (mbus u') = writes (mbus u)
    \<and> fifo_taken (mbus u') = fifo_taken (mbus u)
    \<and> u'\<lparr>mbus := mbus u, nintr := nintr u\<rparr> = u"
  using interrupt_eq [OF assms(1), of u dev] assms(2) by (auto simp: mrp_intr_other_def)

theorem mrp_interrupt_foreign_witness:
  "intr_stat (feed_dev [] 0) demo_unit = Some 0 \<and>
   (\<exists>u'. mrp_interrupt (feed_dev [] 0) 0 demo_unit = Some (Done u') \<and> writes (mbus u') = [])"
proof -
  have "intr_stat (feed_dev [] 0) demo_unit = Some 0"
    by (simp add: intr_stat_def feed_dev_def Let_def)
  then show ?thesis
    using mrp_interrupt_foreign [of 0 "feed_dev [] 0" demo_unit]
    by (auto simp: demo_unit_def writes_def)
qed

text \<open>
  The interrupt that reports a finished transmission releases the sender: the unit is no longer
  busy, the queue of blocked writers is woken and the cause is masked.
\<close>

theorem mrp_interrupt_sent:
  assumes "i < 4" "intr_stat dev u = Some stat" "stat AND MRP_STATF_WAKE \<noteq> 0"
    "stat AND MRP_STATF_RECV = 0"
  shows "\<exists>u' v. mrp_interrupt dev i u = Some (Done u') \<and> \<not> flag MRPF_SBUSY u'
    \<and> wakes u' = WQ3 # wakes u \<and> lastw IER (mbus u') = Some v \<and> v AND MRP_STATF_WAKE = 0
    \<and> writes_to TXC (mbus u') = writes_to TXC (mbus u)"
proof -
  obtain h n where h: "writes h = writes (mbus u)"
    and e: "mrp_interrupt dev i u = mrp_intr_fifo dev stat (u\<lparr>nintr := n, mbus := h\<rparr>)"
    using interrupt_eq [OF assms(1), of u dev] assms(2,3) by auto
  then show ?thesis
    using assms(3,4)
    by (simp add: mrp_intr_fifo_def Let_def unit_ops flag_def andr_eq writes_to_of_writes [OF h])
qed

theorem mrp_interrupt_sent_witness:
  "intr_stat (feed_dev [] 0x20) demo_unit = Some 0x20 \<and>
   (\<exists>u'. mrp_interrupt (feed_dev [] 0x20) 0 demo_unit = Some (Done u') \<and> wakes u' = [WQ3])"
proof -
  have "intr_stat (feed_dev [] 0x20) demo_unit = Some 0x20"
    by (simp add: intr_stat_def feed_dev_def Let_def)
  then show ?thesis
    using mrp_interrupt_sent [of 0 "feed_dev [] 0x20" demo_unit "0x20"]
    by (auto simp: demo_unit_def statf_defs)
qed

text \<open>
  C23: when the first word of the FIFO is an acceptable header of a packet of \<^verbatim>\<open>s\<close> bytes, \<^verbatim>\<open>mrp_recv\<close>
  returns having taken exactly the words of that packet and stored them in order from the start
  of the receive buffer; the rest of the buffer is untouched, and the reader is told (flag and
  wake-up) exactly if the checksum holds.
\<close>

theorem mrp_recv_packet:
  assumes "\<not> flag MRPF_RDONE u" "recvbuf u = Some k" "ksize k = MRP_MAX_PKT_SIZE"
    "first_header dev u = Some s" "0 < s"
  shows "\<exists>k' u'. mrp_recv dev u = Some (Done (1, u')) \<and> recvbuf u' = Some k' \<and> ksize k' = ksize k
    \<and> rlen u' = int s
    \<and> fifo_taken (mbus u') = fifo_taken (mbus u) @ words_of (kbytes k') ((s + 3) div 4)
    \<and> (\<forall>j. 4 * ((s + 3) div 4) \<le> j \<longrightarrow> kbytes k' j = kbytes k j)
    \<and> (flag MRPF_RDONE u' \<longleftrightarrow> hdr_cksum (kbytes k') = deci_cksum (kbytes k'))
    \<and> wakes u' = (if flag MRPF_RDONE u' then WQ4 # wakes u else wakes u)"
  using recv_packet [OF assms] by blast

theorem mrp_recv_packet_witness:
  "first_header (feed_dev (words_of demo_pkt 8) 0) demo_unit = Some 32 \<and>
   (\<exists>k' u'. mrp_recv (feed_dev (words_of demo_pkt 8) 0) demo_unit = Some (Done (1, u'))
      \<and> recvbuf u' = Some k' \<and> rlen u' = 32 \<and> fifo_taken (mbus u') = words_of (kbytes k') 8)"
proof -
  have w: "words_of demo_pkt 8 ! 0 = 0x0020a14c"
    by (simp add: words_of_def demo_pkt_def word_at_set_word_other)
  have "first_header (feed_dev (words_of demo_pkt 8) 0) demo_unit = Some 32"
    using w by (simp add: first_header_def feed_dev_def demo_unit_def Let_def words_of_def
        DECI_MAGIC_def MRP_MAX_PKT_SIZE_def)
  then show ?thesis
    using mrp_recv_packet [of demo_unit zero_kbuf "feed_dev (words_of demo_pkt 8) 0" 32]
    by (auto simp: demo_unit_def zero_kbuf_def flag_def mrpf_defs)
qed

text \<open>
  C32: exactly when \<^verbatim>\<open>mrp_recv\<close> stores outside the receive buffer. It does so if and only if the first word of the FIFO it accepts as a header, after \<^verbatim>\<open>j\<close>
  words it rejected, announces a size \<^verbatim>\<open>s\<close> such that \<^verbatim>\<open>s = 0\<close> (the body length \<^verbatim>\<open>rlen - 4\<close> wraps around to almost \<open>2\<^sup>3\<^sup>2\<close> bytes), or \<^verbatim>\<open>s\<close> is above 4 and the packet,
  stored \<^verbatim>\<open>4 * j\<close> bytes too high, ends behind the buffer: every word rejected moves \<^verbatim>\<open>deci_in\<close> on and nothing moves it back. So the largest
  packet, of 16384 bytes, overruns the buffer if a single bad word comes before it.
\<close>

theorem mrp_recv_fault_iff:
  assumes "\<not> flag MRPF_RDONE u" "recvbuf u = Some k" "ksize k = MRP_MAX_PKT_SIZE"
  shows "mrp_recv dev u = Some Fault \<longleftrightarrow>
    (\<exists>j s. header_after dev u j = Some s \<and> (s = 0 \<or> 4 < s \<and> MRP_MAX_PKT_SIZE < 4 * j + 4 * ((s + 3) div 4)))"
  using assms by (rule recv_fault_iff)

theorem mrp_recv_fault_iff_witness:
  "mrp_recv (feed_dev [0x0000a14c] 0) demo_unit = Some Fault \<and>
   mrp_recv (feed_dev [0, 0x4000a14c] 0) demo_unit = Some Fault"
proof -
  have u: "\<not> flag MRPF_RDONE demo_unit" "recvbuf demo_unit = Some zero_kbuf" "ksize zero_kbuf = MRP_MAX_PKT_SIZE"
    by (simp_all add: demo_unit_def zero_kbuf_def flag_def mrpf_defs)
  have h: "header_after (feed_dev [0x0000a14c] 0) demo_unit 0 = Some 0"
    "header_after (feed_dev [0, 0x4000a14c] 0) demo_unit 1 = Some 0x4000"
    unfolding One_nat_def
    by (simp_all add: header_after_def fifo_word_def good_header_def feed_dev_def demo_unit_def Let_def DECI_MAGIC_def
        MRP_MAX_PKT_SIZE_def)
  have "\<exists>j s. header_after (feed_dev [0x0000a14c] 0) demo_unit j = Some s \<and>
      (s = 0 \<or> 4 < s \<and> MRP_MAX_PKT_SIZE < 4 * j + 4 * ((s + 3) div 4))"
    using h(1) by blast
  moreover have "\<exists>j s. header_after (feed_dev [0, 0x4000a14c] 0) demo_unit j = Some s \<and>
      (s = 0 \<or> 4 < s \<and> MRP_MAX_PKT_SIZE < 4 * j + 4 * ((s + 3) div 4))"
    by (rule exI [of _ 1], rule exI [of _ "0x4000"]) (simp only: h, simp add: MRP_MAX_PKT_SIZE_def)
  ultimately show ?thesis unfolding mrp_recv_fault_iff [OF u] by blast
qed

section \<open>From one unit to another\<close>

lemma send_words:
  assumes "deci_out u" "sendbuf u = Some k" "slen u = int s" "s \<le> MRP_MAX_PKT_SIZE"
  shows "\<exists>u'. mrp_send dev u = Done (of_nat ((s + 3) div 4), u')
    \<and> fifo_sent (mbus u') = fifo_sent (mbus u) @ words_of (kbytes k) ((s + 3) div 4)
    \<and> flag MRPF_SBUSY u' \<and> lastw TXC (mbus u') = Some 1"
proof -
  have n: "nat ((int s + 3) div 4) = (s + 3) div 4"
    by (simp add: nat_div_distrib nat_add_distrib)
  have w: "(word_of_int ((int s + 3) div 4) :: u32) = of_nat ((s + 3) div 4)"
  proof -
    have "(int s + 3) div 4 = int ((s + 3) div 4)" by (simp add: zdiv_int)
    then show ?thesis by simp
  qed
  have "int s < 2 ^ 31" using assms(4) by (simp add: MRP_MAX_PKT_SIZE_def)
  then show ?thesis
    using assms(1-3) put_fifo_some [of "int s" dev k u] fifo_sent_put_words [of "kbytes k" _ "mbus u"]
    by (simp add: mrp_send_def n w Let_def flag_def MRPF_SBUSY_def)
qed

definition fst_clean :: "mrp_dev \<Rightarrow> bool" where
  "fst_clean dev \<longleftrightarrow> (\<forall>h. dev16 dev h FST AND 0x0001 = 0 \<and> dev16 dev h FST AND 0x0010 = 0)"

lemma send_recv:
  assumes out: "deci_out u" "sendbuf u = Some k" "slen u = int s" "s \<le> MRP_MAX_PKT_SIZE"
    and hdr: "32 \<le> s" "hdr_magic (kbytes k) = DECI_MAGIC" "unat (hdr_size (kbytes k)) = s"
      "hdr_cksum (kbytes k) = deci_cksum (kbytes k)"
    and send: "mrp_send dev u = Done (n, u')"
      "ws = drop (length (fifo_sent (mbus u))) (fifo_sent (mbus u'))"
    and rcv: "\<not> flag MRPF_RDONE v" "recvbuf v = Some j" "ksize j = MRP_MAX_PKT_SIZE"
    and fifo: "fst_clean dev'" "feeds dev' ws (length (fifo_taken (mbus v)))"
  shows "\<exists>j' v'. mrp_recv dev' v = Some (Done (1, v')) \<and> recvbuf v' = Some j' \<and> rlen v' = int s
    \<and> flag MRPF_RDONE v' \<and> (\<forall>i < s. kbytes j' i = kbytes k i)"
proof -
  let ?m = "(s + 3) div 4"
  have ws: "ws = words_of (kbytes k) ?m"
    using send_words [OF out, of dev] send by auto
  have m: "0 < ?m" "length ws = ?m" using hdr(1) ws by (simp_all add: words_of_def)
  have w0: "ws ! 0 = word_at (kbytes k) 0" using m by (simp add: ws words_of_def)
  have "devfifo dev' (Rd16 FST f # mbus v) = word_at (kbytes k) 0" for f
    using fifo(2) m w0 unfolding feeds_def by (metis add.right_neutral fifo_taken.simps(4))
  then have fh: "first_header dev' v = Some s"
    using out(4) hdr(2,3) fifo(1) half_of_word [of "kbytes k" 0]
    by (simp add: first_header_def Let_def fst_clean_def hdr_magic_def hdr_size_def numeral_2_eq_2)
  obtain j' v' where r: "mrp_recv dev' v = Some (Done (1, v'))" "recvbuf v' = Some j'" "rlen v' = int s"
    and tk: "fifo_taken (mbus v') = fifo_taken (mbus v) @ words_of (kbytes j') ?m"
    and rd: "flag MRPF_RDONE v' \<longleftrightarrow> hdr_cksum (kbytes j') = deci_cksum (kbytes j')"
    and an: "answered dev' (length (fifo_taken (mbus v))) (mbus v')"
    using recv_packet [OF rcv fh] hdr(1) by auto
  have "words_of (kbytes j') ?m = ws"
    using answered_feeds [OF an fifo(2), of ?m] tk m by (simp add: words_of_def)
  then have eq: "word_at (kbytes j') (4 * i) = word_at (kbytes k) (4 * i)" if "i < ?m" for i
    using that ws by (simp add: words_of_def map_eq_conv)
  have bytes: "kbytes j' i = kbytes k i" if "i < s" for i
    by (rule words_eq_bytes [of ?m, OF eq]) (use that in auto)
  have "hdr_cksum (kbytes j') = deci_cksum (kbytes j')"
  proof -
    have "word_at (kbytes j') i = word_at (kbytes k) i" if "i + 4 \<le> 32" for i
      unfolding word_at_def using bytes that hdr(1) by simp
    then show ?thesis
      using hdr(4) by (simp add: hdr_cksum_def deci_cksum_def)
  qed
  then show ?thesis using r rd bytes by blast
qed

text \<open>
  C1: a packet with a valid header that one unit sends is received unchanged by a unit whose FIFO
  delivers the words sent: reception finishes, announces the packet, and the receive buffer
  holds the bytes of the send buffer.
\<close>

theorem packet_roundtrip:
  assumes out: "deci_out u" "sendbuf u = Some k" "slen u = int s" "s \<le> MRP_MAX_PKT_SIZE"
    and hdr: "32 \<le> s" "hdr_magic (kbytes k) = DECI_MAGIC" "unat (hdr_size (kbytes k)) = s"
      "hdr_cksum (kbytes k) = deci_cksum (kbytes k)"
    and send: "mrp_send dev u = Done (n, u')"
      "ws = drop (length (fifo_sent (mbus u))) (fifo_sent (mbus u'))"
    and rcv: "\<not> flag MRPF_RDONE v" "recvbuf v = Some j" "ksize j = MRP_MAX_PKT_SIZE"
    and fifo: "fst_clean dev'" "feeds dev' ws (length (fifo_taken (mbus v)))"
  shows "\<exists>j' v'. mrp_recv dev' v = Some (Done (1, v')) \<and> recvbuf v' = Some j' \<and> rlen v' = int s
    \<and> flag MRPF_RDONE v' \<and> (\<forall>i < s. kbytes j' i = kbytes k i)"
  using assms by (rule send_recv)

definition demo_sender :: mrp_unit where
  "demo_sender = demo_unit\<lparr>sendbuf := Some (zero_kbuf\<lparr>kbytes := demo_pkt\<rparr>), deci_out := True, slen := 32\<rparr>"

text \<open>A sender and a receiver connected through the FIFO.\<close>

lemma demo_exchange:
  shows "deci_out demo_sender" "sendbuf demo_sender = Some (zero_kbuf\<lparr>kbytes := demo_pkt\<rparr>)" "slen demo_sender = int 32"
    and "32 \<le> MRP_MAX_PKT_SIZE"
    and "\<exists>n u'. mrp_send (feed_dev [] 0) demo_sender = Done (n, u') \<and>
      words_of demo_pkt 8 = drop (length (fifo_sent (mbus demo_sender))) (fifo_sent (mbus u'))"
    and "\<not> flag MRPF_RDONE demo_unit" "recvbuf demo_unit = Some zero_kbuf" "ksize zero_kbuf = MRP_MAX_PKT_SIZE"
    and "fst_clean (feed_dev ws 0)" "feeds (feed_dev (words_of demo_pkt 8) 0) (words_of demo_pkt 8) (length (fifo_taken (mbus demo_unit)))"
proof -
  show s: "deci_out demo_sender" "sendbuf demo_sender = Some (zero_kbuf\<lparr>kbytes := demo_pkt\<rparr>)" "slen demo_sender = int 32"
    by (simp_all add: demo_sender_def demo_unit_def)
  show l: "32 \<le> MRP_MAX_PKT_SIZE" by (simp add: MRP_MAX_PKT_SIZE_def)
  have "fifo_sent (mbus demo_sender) = []" by (simp add: demo_sender_def demo_unit_def)
  then show "\<exists>n u'. mrp_send (feed_dev [] 0) demo_sender = Done (n, u') \<and>
      words_of demo_pkt 8 = drop (length (fifo_sent (mbus demo_sender))) (fifo_sent (mbus u'))"
    using send_words [OF s l, of "feed_dev [] 0"] by auto
  show "\<not> flag MRPF_RDONE demo_unit" "recvbuf demo_unit = Some zero_kbuf" "ksize zero_kbuf = MRP_MAX_PKT_SIZE"
    by (simp_all add: demo_unit_def zero_kbuf_def flag_def mrpf_defs)
  show "fst_clean (feed_dev ws 0)" by (simp add: fst_clean_def feed_dev_def)
  show "feeds (feed_dev (words_of demo_pkt 8) 0) (words_of demo_pkt 8) (length (fifo_taken (mbus demo_unit)))"
    using feeds_feed_dev by (simp add: demo_unit_def)
qed

theorem packet_roundtrip_witness:
  "\<exists>j' v'. mrp_recv (feed_dev (words_of demo_pkt 8) 0) demo_unit = Some (Done (1, v'))
     \<and> recvbuf v' = Some j' \<and> flag MRPF_RDONE v' \<and> (\<forall>i < 32. kbytes j' i = demo_pkt i)"
proof -
  obtain n u' where "mrp_send (feed_dev [] 0) demo_sender = Done (n, u')"
    "words_of demo_pkt 8 = drop (length (fifo_sent (mbus demo_sender))) (fifo_sent (mbus u'))"
    using demo_exchange(5) by blast
  from packet_roundtrip [OF demo_exchange(1-4) _ _ _ _ this demo_exchange(6-10)] show ?thesis
    using demo_pkt_hdr by auto
qed

text \<open>The same packet, received.\<close>

lemma demo_received:
  "\<exists>j' v'. mrp_recv (feed_dev (words_of demo_pkt 8) 0) demo_unit = Some (Done (1, v'))
     \<and> recvbuf v' = Some j' \<and> flag MRPF_RDONE v' \<and> (\<forall>i < 32. kbytes j' i = demo_pkt i)"
proof -
  obtain n u' where "mrp_send (feed_dev [] 0) demo_sender = Done (n, u')"
    "words_of demo_pkt 8 = drop (length (fifo_sent (mbus demo_sender))) (fifo_sent (mbus u'))"
    using demo_exchange(5) by blast
  from send_recv [OF demo_exchange(1-4) _ _ _ _ this demo_exchange(6-10)] show ?thesis
    using demo_pkt_hdr by auto
qed

end
