(* ===== verification/Psnet_File.thy ===== *)
theory Psnet_File
  imports Psnet_Irq
begin

text \<open>
  The MRP network driver, second part: its file operations (\<^verbatim>\<open>mrp_read\<close> to \<^verbatim>\<open>mrp_ioctl\<close> of
  \<^verbatim>\<open>drivers/char/ps2mrp-psnet.c\<close>). They work on the table of the four units, the CPU's interrupt
  flag, the module use count and the memory of the calling process. What the process and the
  rest of the kernel contribute are parameters: the answers of \<^verbatim>\<open>verify_area\<close>, the O_NONBLOCK flag
  of the file, the results of \<^verbatim>\<open>kmalloc\<close>, and what has happened to the state when
  \<^verbatim>\<open>interruptible_sleep_on\<close> returns, with whether a signal is pending then.

  Between two sleeps a call is one step. Where the source runs such a stretch with interrupts enabled, or calls something else that can sleep,
  the model leaves out what could come in between; the three places where that matters are noted at \<^verbatim>\<open>mrp_read\<close>, \<^verbatim>\<open>keep_boot\<close> and \<^verbatim>\<open>mrp_open\<close>.
\<close>

section \<open>State\<close>

record psnet =
  mrp_units :: "nat \<Rightarrow> mrp_unit"
  mrp_major :: int
  mod_use :: int
  iflag :: bool
  umem :: "u32 \<Rightarrow> u8"

record caller =
  verify_rd :: "u32 \<Rightarrow> u32 \<Rightarrow> int"
  verify_wr :: "u32 \<Rightarrow> u32 \<Rightarrow> int"
  nonblock :: bool
  sleep_on :: "nat \<Rightarrow> wq \<Rightarrow> psnet \<Rightarrow> psnet \<times> bool"
  kmalloc :: "nat \<Rightarrow> psnet \<Rightarrow> kbuf option"

definition cli :: "psnet \<Rightarrow> psnet" where "cli s = s\<lparr>iflag := False\<rparr>"
definition sti :: "psnet \<Rightarrow> psnet" where "sti s = s\<lparr>iflag := True\<rparr>"

definition upd_unit :: "nat \<Rightarrow> (mrp_unit \<Rightarrow> mrp_unit) \<Rightarrow> psnet \<Rightarrow> psnet" where
  "upd_unit i f s = s\<lparr>mrp_units := (mrp_units s)(i := f (mrp_units s i))\<rparr>"

text \<open>The caller's memory from an address on, and storing bytes there.\<close>

definition user_from :: "u32 \<Rightarrow> psnet \<Rightarrow> mem" where
  "user_from addr s = (\<lambda>j. umem s (addr + of_nat j))"

definition user_store :: "u32 \<Rightarrow> nat \<Rightarrow> mem \<Rightarrow> psnet \<Rightarrow> psnet" where
  "user_store addr n m s =
     s\<lparr>umem := (\<lambda>a. if unat (a - addr) < n then m (unat (a - addr)) else umem s a)\<rparr>"

text \<open>\<^verbatim>\<open>memcpy_fromfs\<close> into a buffer.\<close>

definition copy_in :: "nat \<Rightarrow> mem \<Rightarrow> kbuf \<Rightarrow> kbuf" where
  "copy_in n m k = k\<lparr>kbytes := (\<lambda>j. if j < n then m j else kbytes k j)\<rparr>"

definition copy_to_user :: "caller \<Rightarrow> u32 \<Rightarrow> mem \<Rightarrow> nat \<Rightarrow> psnet \<Rightarrow> int \<times> psnet" where
  "copy_to_user env addr m n s =
     (let i = verify_wr env addr (of_nat n)
      in if i \<noteq> 0 then (i, s) else (0, user_store addr n m s))"

definition unit_index :: "u8 \<Rightarrow> nat" where
  "unit_index minor = unat (minor AND 3)"

section \<open>Reading\<close>

text \<open>One byte of the control plane: \<^verbatim>\<open>put_user(ringbuf_get(recv_ring), buf)\<close>.\<close>

definition cp_take :: "nat \<Rightarrow> u32 \<Rightarrow> psnet \<Rightarrow> psnet" where
  "cp_take i addr s =
     (let (x, r) = ringbuf_get (recvring (mrp_units s i));
          s = upd_unit i (\<lambda>u. u\<lparr>recvring := r\<rparr>) s
      in s\<lparr>umem := (umem s)(addr := x)\<rparr>)"

partial_function (option) read_cp ::
    "mrp_dev \<Rightarrow> caller \<Rightarrow> nat \<Rightarrow> u32 \<Rightarrow> int \<Rightarrow> int \<Rightarrow> psnet \<Rightarrow> (int \<times> psnet) option" where
  "read_cp dev env i addr copied nbytes s =
     (if copied < nbytes then
        (if count (recvring (mrp_units s i)) = 0 then
           (if nonblock env then Some (- EWOULDBLOCK, sti s)
            else (case sleep_on env i WQ1 s of (s, sig) \<Rightarrow>
                    if sig then Some (- EINTR, sti s)
                    else if count (recvring (mrp_units s i)) = 0
                    then read_cp dev env i addr copied nbytes s
                    else read_cp dev env i (addr + 1) (copied + 1) nbytes (cp_take i addr s)))
         else read_cp dev env i (addr + 1) (copied + 1) nbytes (cp_take i addr s))
      else Some (copied, sti (upd_unit i (orr dev IER MRP_STATF_CPR) s)))"

text \<open>The busy loop on RDONE: interrupts are off and nothing changes the flags.\<close>

partial_function (option) spin_rdone :: "nat \<Rightarrow> psnet \<Rightarrow> psnet option" where
  "spin_rdone i s = (if flag MRPF_RDONE (mrp_units s i) then Some s else spin_rdone i s)"

text \<open>
  The tail of \<^verbatim>\<open>mrp_read\<close> from the copy on; \<^verbatim>\<open>n\<close> is \<^verbatim>\<open>rlen\<close> as it was on entry. A null \<^verbatim>\<open>recvbuf\<close> is
  read only if there is a byte to copy.
\<close>

definition read_finish ::
    "mrp_dev \<Rightarrow> caller \<Rightarrow> nat \<Rightarrow> u32 \<Rightarrow> int \<Rightarrow> psnet \<Rightarrow> (int \<times> psnet) run" where
  "read_finish dev env i addr n s =
     (let finish = (\<lambda>m.
            let (rc, s) = copy_to_user env addr m (nat n) s
            in if rc \<noteq> 0 then (rc, sti s)
               else (n, sti (upd_unit i (\<lambda>u.
                      let u = u\<lparr>deci_in := Some 0, rlen := 0\<rparr>;
                          u = clear_flag MRPF_RDONE u
                      in orr dev IER MRP_STATF_RECV u) s)))
      in case recvbuf (mrp_units s i) of
           Some k \<Rightarrow> Done (finish (kbytes k))
         | None \<Rightarrow> if n = 0 \<or> verify_wr env addr (of_nat (nat n)) \<noteq> 0
                   then Done (finish (\<lambda>_. 0)) else Fault)"

text \<open>
  The length is read before interrupts are disabled. A packet that is received between these two points is not considered: the source would
  then return the old length with the new packet in the buffer, and forget the packet.
\<close>

definition mrp_read ::
    "mrp_dev \<Rightarrow> caller \<Rightarrow> u8 \<Rightarrow> u32 \<Rightarrow> int \<Rightarrow> psnet \<Rightarrow> (int \<times> psnet) run option" where
  "mrp_read dev env minor addr nbytes s =
     (let i = unit_index minor;
          u = mrp_units s i
      in if i > 3 then Some (Done (- ENODEV, s))
         else if \<not> flag MRPF_VALID u then Some (Done (- ENODEV, s))
         else if minor AND 0x40 \<noteq> 0 then
           (if \<not> flag MRPF_CPOPEN u then Some (Done (- ENODEV, s))
            else let s = cli s;
                     rc = verify_wr env addr (word_of_int nbytes)
                 in if rc \<noteq> 0 then Some (Done (rc, sti s))
                    else map_option Done (read_cp dev env i addr 0 nbytes s))
         else
           let bytes_copied = rlen u
           in if \<not> flag MRPF_OPENED u then Some (Done (- ENODEV, s))
              else if \<not> flag MRPF_RESET u then Some (Done (- EIO, s))
              else if nbytes < int MRP_MAX_PKT_SIZE then Some (Done (- EINVAL, s))
              else let rc = verify_wr env addr (word_of_int nbytes)
                   in if rc \<noteq> 0 then Some (Done (rc, s))
                      else
                        let s = cli s
                        in if flag MRPF_REQTAG u then
                             (case mrp_send dev u of
                                Fault \<Rightarrow> Some Fault
                              | Done (_, u) \<Rightarrow>
                                  map_option (read_finish dev env i addr bytes_copied)
                                    (spin_rdone i (upd_unit i (\<lambda>_. u) s)))
                           else Some (read_finish dev env i addr bytes_copied s))"

section \<open>Writing\<close>

definition cp_store :: "nat \<Rightarrow> u32 \<Rightarrow> int \<Rightarrow> psnet \<Rightarrow> psnet" where
  "cp_store i addr k s =
     upd_unit i (\<lambda>u. u\<lparr>recvring := ringbuf_put (umem s (addr + word_of_int k)) (recvring u)\<rparr>) s"

partial_function (option) write_cp ::
    "mrp_dev \<Rightarrow> caller \<Rightarrow> nat \<Rightarrow> u32 \<Rightarrow> int \<Rightarrow> int \<Rightarrow> psnet \<Rightarrow> (int \<times> psnet) option" where
  "write_cp dev env i addr processed len s =
     (if processed < len then
        (if count (recvring (mrp_units s i)) \<ge> RINGBUF_SIZE - 1 then
           (if nonblock env then Some (- EWOULDBLOCK, sti s)
            else (case sleep_on env i WQ2 s of (s, sig) \<Rightarrow>
                    if sig then Some (- EINTR, sti s)
                    else if count (recvring (mrp_units s i)) \<ge> RINGBUF_SIZE - 1
                    then write_cp dev env i addr processed len s
                    else write_cp dev env i addr (processed + 1) len (cp_store i addr processed s)))
         else write_cp dev env i addr (processed + 1) len (cp_store i addr processed s))
      else Some (processed, upd_unit i (mrp_cps dev) (sti s)))"

text \<open>Waiting until the last transmission is over; 0 when it is.\<close>

partial_function (option) wait_sbusy :: "caller \<Rightarrow> nat \<Rightarrow> psnet \<Rightarrow> (int \<times> psnet) option" where
  "wait_sbusy env i s =
     (if flag MRPF_SBUSY (mrp_units s i) then
        (if nonblock env then Some (- EWOULDBLOCK, s)
         else (case sleep_on env i WQ3 s of (s, sig) \<Rightarrow>
                 if sig then Some (- EINTR, s) else wait_sbusy env i s))
      else Some (0, s))"

text \<open>
  Keeping the packet for a boot request; a failed allocation leaves the pointer null. The source calls \<^verbatim>\<open>kmalloc\<close> with \<^verbatim>\<open>GFP_KERNEL\<close>, which may sleep, after it
  has freed the old packet and before it has replaced the pointer; the allocation is one step here, so nothing uses the freed packet in between.
\<close>

definition keep_boot :: "caller \<Rightarrow> nat \<Rightarrow> u32 \<Rightarrow> u32 \<Rightarrow> int \<Rightarrow> psnet \<Rightarrow> bool \<times> psnet" where
  "keep_boot env i mode addr len s =
     (let m = user_from addr s
      in if mode = 1 then
           (let s = upd_unit i (\<lambda>u. u\<lparr>reset_mode := 1\<rparr>) s;
                nb = kmalloc env (nat len) s;
                s = upd_unit i (\<lambda>u. u\<lparr>buf38 := nb\<rparr>) s
            in case nb of
                 None \<Rightarrow> (False, s)
               | Some k \<Rightarrow> (True, upd_unit i (\<lambda>u. u\<lparr>nbytes38 := len, buf38 := Some (copy_in (nat len) m k)\<rparr>) s))
         else if mode = 0 then
           (let s = upd_unit i (\<lambda>u. u\<lparr>reset_mode := 0\<rparr>) s;
                nb = kmalloc env (nat len) s;
                s = upd_unit i (\<lambda>u. u\<lparr>buf40 := nb\<rparr>) s
            in case nb of
                 None \<Rightarrow> (False, s)
               | Some k \<Rightarrow> (True, upd_unit i (\<lambda>u. u\<lparr>nbytes40 := len, buf40 := Some (copy_in (nat len) m k)\<rparr>) s))
         else (True, upd_unit i (\<lambda>u. (if mode = 2 then u\<lparr>reset_mode := 2\<rparr> else u)\<lparr>reset_mode := - 1\<rparr>) s))"

definition write_treset :: "caller \<Rightarrow> nat \<Rightarrow> u32 \<Rightarrow> int \<Rightarrow> psnet \<Rightarrow> int \<times> psnet" where
  "write_treset env i addr len s =
     (let hdr = user_from addr s;
          mode = (if \<not> len > 0x23 then 0 else drop_bit 4 (word_at hdr 0x20) AND 0x0f);
          s = cli s;
          (ok, s) = keep_boot env i mode addr len s
      in if \<not> ok then (- ENOMEM, sti s)
         else
           let s = (if mode = 0 then upd_unit i (\<lambda>u. snd (mrp_reset u)) s else s);
               s = upd_unit i (\<lambda>u. u\<lparr>deci_tag_for_reset := hdr_tag hdr\<rparr>) s;
               s = (if hdr_tag hdr \<noteq> 0
                    then upd_unit i (\<lambda>u. wake_up WQ4 (set_flag MRPF_REQTAG u)) s else s)
           in (len, sti s))"

definition write_send ::
    "mrp_dev \<Rightarrow> caller \<Rightarrow> nat \<Rightarrow> u32 \<Rightarrow> int \<Rightarrow> psnet \<Rightarrow> (int \<times> psnet) run option" where
  "write_send dev env i addr len s =
     (case wait_sbusy env i (cli s) of
        None \<Rightarrow> None
      | Some (rc, s) \<Rightarrow>
          if rc \<noteq> 0 then Some (Done (rc, sti s))
          else (case sendbuf (mrp_units s i) of
                  None \<Rightarrow> Some Fault
                | Some k \<Rightarrow>
                    let s = upd_unit i (\<lambda>u. u\<lparr>sendbuf := Some (copy_in (nat len) (user_from addr s) k),
                                            deci_out := True, slen := len\<rparr>) s
                    in (case mrp_send dev (mrp_units s i) of
                          Fault \<Rightarrow> Some Fault
                        | Done (_, u) \<Rightarrow> Some (Done (len, sti (upd_unit i (\<lambda>_. u) s))))))"

text \<open>
  \<^verbatim>\<open>len < sizeof(pkt.hdr)\<close> compares as unsigned, \<^verbatim>\<open>len > MRP_MAX_PKT_SIZE\<close> as signed.
\<close>

definition mrp_write ::
    "mrp_dev \<Rightarrow> caller \<Rightarrow> u8 \<Rightarrow> u32 \<Rightarrow> int \<Rightarrow> psnet \<Rightarrow> (int \<times> psnet) run option" where
  "mrp_write dev env minor addr len s =
     (let i = unit_index minor;
          u = mrp_units s i;
          hdr = user_from addr s
      in if i \<ge> 4 then Some (Done (- ENODEV, s))
         else if \<not> flag MRPF_VALID u then Some (Done (- ENODEV, s))
         else if minor AND 0x40 \<noteq> 0 then
           (if \<not> flag MRPF_CPOPEN u then Some (Done (- ENODEV, s))
            else let rc = verify_rd env addr (word_of_int len)
                 in if rc \<noteq> 0 then Some (Done (rc, s))
                    else map_option Done (write_cp dev env i addr 0 len (cli s)))
         else if \<not> flag MRPF_OPENED u then Some (Done (- ENODEV, s))
         else if (word_of_int len :: u32) < of_nat sizeof_hdr then Some (Done (- EINVAL, s))
         else if len > int MRP_MAX_PKT_SIZE then Some (Done (- EINVAL, s))
         else if verify_rd env addr (word_of_int len) \<noteq> 0
         then Some (Done (verify_rd env addr (word_of_int len), s))
         else if hdr_magic hdr \<noteq> DECI_MAGIC then Some (Done (- EINVAL, s))
         else if len \<noteq> int (unat (hdr_size hdr)) then Some (Done (- EINVAL, s))
         else if hdr_cksum hdr \<noteq> deci_cksum hdr then Some (Done (- EINVAL, s))
         else if hdr_req hdr = REQ_TRESET then Some (Done (write_treset env i addr len s))
         else if \<not> flag MRPF_RESET u then Some (Done (- EIO, s))
         else write_send dev env i addr len s)"

section \<open>The other operations\<close>

datatype sel = SEL_IN | SEL_OUT | SEL_EX

text \<open>The answer, and the queue \<^verbatim>\<open>select_wait\<close> was called on.\<close>

definition mrp_select :: "u8 \<Rightarrow> sel \<Rightarrow> psnet \<Rightarrow> int \<times> wq option" where
  "mrp_select minor sel_type s =
     (let i = unit_index minor;
          u = mrp_units s i
      in if i > 3 then (0, None)
         else if minor AND 0x40 \<noteq> 0 then
           (case sel_type of
              SEL_IN \<Rightarrow> if count (recvring u) > 0 then (1, None) else (0, Some WQ1)
            | SEL_OUT \<Rightarrow> if count (sendring u) \<le> RINGBUF_SIZE - 2 then (1, None) else (0, Some WQ2)
            | SEL_EX \<Rightarrow> (0, None))
         else
           (case sel_type of
              SEL_IN \<Rightarrow> if flag (MRPF_RDONE OR MRPF_REQTAG) u then (1, None) else (0, Some WQ4)
            | SEL_OUT \<Rightarrow> if \<not> flag MRPF_SBUSY u then (1, None) else (0, Some WQ3)
            | SEL_EX \<Rightarrow> (0, None)))"

text \<open>
  The source tests and sets the flags with interrupts enabled. That is one step here: an interrupt handler that changes other flags between the
  test and the store, whose change the store would undo, is not considered.
\<close>

definition mrp_open :: "mrp_dev \<Rightarrow> u8 \<Rightarrow> psnet \<Rightarrow> int \<times> psnet" where
  "mrp_open dev minor s =
     (let i = unit_index minor
      in if i > 3 then (- ENODEV, s)
         else if \<not> flag MRPF_VALID (mrp_units s i) then (- ENODEV, s)
         else
           let (bid, u) = rdr dev BID (mrp_units s i);
               s = upd_unit i (\<lambda>_. u) s
           in if bid \<noteq> 0x4126 then (- EIO, s)
              else
                let m = (if minor AND 0x40 \<noteq> 0 then MRPF_CPOPEN else MRPF_OPENED)
                in if flag m u then (- EBUSY, s)
                   else (0, (upd_unit i (set_flag m) s)\<lparr>mod_use := mod_use s + 1\<rparr>))"

definition mrp_release :: "u8 \<Rightarrow> psnet \<Rightarrow> psnet" where
  "mrp_release minor s =
     (let i = unit_index minor
      in if i > 3 then s
         else if \<not> flag MRPF_VALID (mrp_units s i) then s
         else
           let m = (if minor AND 0x40 \<noteq> 0 then MRPF_CPOPEN else MRPF_OPENED);
               s = (if flag m (mrp_units s i) then upd_unit i (clear_flag m) s else s)
           in s\<lparr>mod_use := mod_use s - 1\<rparr>)"

definition MRP_IOCTL_GT :: u32 where "MRP_IOCTL_GT = 0xa14c4754"
definition MRP_IOCTL_RF :: u32 where "MRP_IOCTL_RF = 0xa14c5246"
definition MRP_IOCTL_SF :: u32 where "MRP_IOCTL_SF = 0xa14c5346"
definition MRP_IOCTL_SY :: u32 where "MRP_IOCTL_SY = 0xa14c5359"
definition MRP_IOCTL_DECI :: u32 where "MRP_IOCTL_DECI = 0xa14c4126"

lemmas ioctl_defs [flag_defs] =
  MRP_IOCTL_GT_def MRP_IOCTL_RF_def MRP_IOCTL_SF_def MRP_IOCTL_SY_def MRP_IOCTL_DECI_def

definition mrp_ioctl :: "mrp_dev \<Rightarrow> caller \<Rightarrow> u8 \<Rightarrow> u32 \<Rightarrow> u32 \<Rightarrow> psnet \<Rightarrow> (int \<times> psnet) option" where
  "mrp_ioctl dev env minor cmd arg s =
     (let i = unit_index minor;
          u = mrp_units s i
      in if i > 3 then Some (- ENODEV, s)
         else if \<not> flag MRPF_VALID u then Some (- ENODEV, s)
         else if minor AND 0x40 \<noteq> 0 \<and> flag MRPF_CPOPEN u then Some (- ENODEV, s)
         else if minor AND 0x40 \<noteq> 0 \<and> cmd \<noteq> MRP_IOCTL_GT then Some (- EINVAL, s)
         else if cmd = MRP_IOCTL_RF then
           Some (0, sti (upd_unit i (\<lambda>u.
             clear_flag MRPF_RDONE (orr dev IER MRP_STATF_RECV (u\<lparr>rlen := 0\<rparr>))) (cli s)))
         else if cmd = MRP_IOCTL_GT then
           Some (0, snd (copy_to_user env arg (set_word (\<lambda>_. 0) 0 MRP_IOCTL_DECI) 4 s))
         else if cmd = MRP_IOCTL_SF then
           Some (0, sti (upd_unit i (\<lambda>u.
             clear_flag MRPF_SBUSY (andr dev IER (NOT MRP_STATF_WAKE) (u\<lparr>slen := 0\<rparr>))) (cli s)))
         else if cmd = MRP_IOCTL_SY then
           (case wait_sbusy env i (cli s) of
              None \<Rightarrow> None
            | Some (rc, s) \<Rightarrow> if rc \<noteq> 0 then Some (rc, s) else Some (0, sti s))
         else Some (0, s))"

end
