(* ===== verification/Psnet_Props.thy ===== *)
theory Psnet_Props
  imports Psnet_File
begin

text \<open>
  Properties of the file operations of the MRP network driver: what a write accepts, sends and
  keeps for the boot request, what a read delivers, exclusive opening, the state of the interrupt
  flag, and the control plane as an invariant over every sequence of operations and interrupts.
\<close>

section \<open>State lemmas\<close>

lemma upd_unit_simps [simp]:
  "mrp_units (upd_unit i f s) = (mrp_units s)(i := f (mrp_units s i))"
  "iflag (upd_unit i f s) = iflag s" "umem (upd_unit i f s) = umem s"
  "mod_use (upd_unit i f s) = mod_use s" "user_from a (upd_unit i f s) = user_from a s"
  by (simp_all add: upd_unit_def user_from_def)

lemma cli_sti_simps [simp]:
  "mrp_units (cli s) = mrp_units s" "mrp_units (sti s) = mrp_units s" "umem (cli s) = umem s"
  "umem (sti s) = umem s" "iflag (sti s)" "\<not> iflag (cli s)" "user_from a (cli s) = user_from a s"
  "mod_use (sti s) = mod_use s" "mod_use (cli s) = mod_use s" "user_from a (sti s) = user_from a s"
  by (simp_all add: cli_def sti_def user_from_def)

lemma unit_index_less [simp]: "unit_index m < 4"
proof -
  have "m AND 3 = m AND mask 2" by (simp add: mask_eq_exp_minus_1)
  then have "unat (m AND 3) = unat m mod 2 ^ 2" by (simp only: unat_and_mask)
  then show ?thesis by (simp add: unit_index_def)
qed

lemma unit_index_bounds [simp]: "\<not> 3 < unit_index m" "\<not> 4 \<le> unit_index m"
  using unit_index_less [of m] by linarith+


text \<open>With the invariant, sending whatever \<^verbatim>\<open>slen\<close> says is always possible.\<close>

lemma send_returns:
  assumes "unit_ok u"
  shows "\<exists>n u'. mrp_send dev u = Done (n, u') \<and> flags u' = flags u OR MRPF_SBUSY"
proof (cases "deci_out u")
  case True
  then obtain k where k: "sendbuf u = Some k" using assms by (auto simp: unit_ok_def)
  have "0 \<le> slen u" "slen u < 2 ^ 31" using assms by (simp_all add: unit_ok_def MRP_MAX_PKT_SIZE_def)
  then show ?thesis
    using True k put_fifo_some [of "slen u" dev k u] by (simp add: mrp_send_def Let_def)
next
  case False
  then have "slen u = 0" using assms by (auto simp: unit_ok_def)
  then show ?thesis
    using False by (simp add: mrp_send_def mrp_put_fifo_def Let_def unit_ops bus_simps)
qed

section \<open>The interrupt flag\<close>

lemma read_cp_iflag:
  assumes "read_cp dev env i a c n s = Some x"
  shows "iflag (snd x)"
  by (rule read_cp.raw_induct [OF _ assms, where P = "\<lambda>_ _ _ _ _ _ _ x. iflag (snd x)"])
    (auto split: if_splits prod.splits)

lemma write_cp_iflag:
  assumes "write_cp dev env i a c n s = Some x"
  shows "iflag (snd x)"
  by (rule write_cp.raw_induct [OF _ assms, where P = "\<lambda>_ _ _ _ _ _ _ x. iflag (snd x)"])
    (auto split: if_splits prod.splits)

lemma spin_rdone_eq: "spin_rdone i s = Some s' \<Longrightarrow> s' = s \<and> flag MRPF_RDONE (mrp_units s i)"
  by (rule spin_rdone.raw_induct [where P = "\<lambda>i s s'. s' = s \<and> flag MRPF_RDONE (mrp_units s i)"])
    (auto split: if_splits)

lemma read_finish_iflag: "read_finish dev env i a n s = Done x \<Longrightarrow> iflag (snd x)"
  by (auto simp: read_finish_def Let_def split: option.splits if_splits prod.splits)

text \<open>
  C30: whenever \<^verbatim>\<open>mrp_read\<close> or \<^verbatim>\<open>mrp_write\<close> returns to a caller that had interrupts enabled, whatever
  the branch, error or sleep it went through, interrupts are enabled again.
\<close>

theorem mrp_read_write_iflag:
  assumes "iflag s"
    and "mrp_read dev env minor addr n s = Some (Done (r, s')) \<or>
         mrp_write dev env minor addr n s = Some (Done (r, s'))"
  shows "iflag s'"
proof -
  have "iflag s'" if r: "mrp_read dev env minor addr n s = Some (Done (r, s'))"
    using r assms(1) read_cp_iflag [of dev env] read_finish_iflag [of dev env]
    by (auto simp: mrp_read_def Let_def split: if_splits run.splits prod.splits)
  moreover have "iflag s'" if w: "mrp_write dev env minor addr n s = Some (Done (r, s'))"
    using w assms(1) write_cp_iflag [of dev env]
    by (auto simp: mrp_write_def write_send_def write_treset_def Let_def
        split: if_splits run.splits prod.splits option.splits)
  ultimately show ?thesis using assms(2) by blast
qed

text \<open>A caller and a state to evaluate on: the packet \<^verbatim>\<open>m\<close> lies at address 4096.\<close>

definition demo_caller :: caller where
  "demo_caller = \<lparr>verify_rd = (\<lambda>_ _. 0), verify_wr = (\<lambda>_ _. 0), nonblock = True,
     sleep_on = (\<lambda>_ _ s. (s, False)), kmalloc = (\<lambda>n _. Some \<lparr>ksize = n, kbytes = (\<lambda>_. 0)\<rparr>)\<rparr>"

definition demo_psnet :: "mem \<Rightarrow> psnet" where
  "demo_psnet m = \<lparr>mrp_units = (\<lambda>_. demo_unit), mrp_major = 254, mod_use = 1, iflag = True,
     umem = (\<lambda>a. m (unat (a - 4096)))\<rparr>"

lemma demo_psnet_simps [simp]:
  "mrp_units (demo_psnet m) i = demo_unit" "iflag (demo_psnet m)"
  "mod_use (demo_psnet m) = 1"
  by (simp_all add: demo_psnet_def)

lemma user_demo: "j < 2 ^ 16 \<Longrightarrow> user_from 4096 (demo_psnet m) j = m j"
  by (simp add: user_from_def demo_psnet_def unat_of_nat take_bit_nat_eq_self)

theorem mrp_read_write_iflag_witness:
  "iflag (demo_psnet demo_pkt) \<and>
   mrp_write (feed_dev [] 0) demo_caller 0 4096 16 (demo_psnet demo_pkt)
     = Some (Done (- EINVAL, demo_psnet demo_pkt))
   \<and> iflag (demo_psnet demo_pkt)"
proof -
  have "mrp_write (feed_dev [] 0) demo_caller 0 4096 16 (demo_psnet demo_pkt)
     = Some (Done (- EINVAL, demo_psnet demo_pkt))"
    by (simp add: mrp_write_def Let_def flag_def demo_unit_def mrpf_defs sizeof_hdr_def)
  then show ?thesis
    using mrp_read_write_iflag [of "demo_psnet demo_pkt" "feed_dev [] 0" demo_caller 0 4096 16]
    by auto
qed

section \<open>Writing a packet\<close>

text \<open>What the header of a packet must be for \<^verbatim>\<open>mrp_write\<close> to go on.\<close>

definition acceptable :: "mem \<Rightarrow> int \<Rightarrow> bool" where
  "acceptable hdr len \<longleftrightarrow> 32 \<le> len \<and> len \<le> int MRP_MAX_PKT_SIZE \<and> hdr_magic hdr = DECI_MAGIC
     \<and> len = int (unat (hdr_size hdr)) \<and> hdr_cksum hdr = deci_cksum hdr"

lemma not_short:
  assumes "32 \<le> len" "len \<le> int MRP_MAX_PKT_SIZE"
  shows "\<not> (word_of_int len :: u32) < of_nat sizeof_hdr"
proof -
  have "(word_of_int len :: u32) = of_nat (nat len)" using assms(1) by simp
  moreover have "unat (of_nat (nat len) :: u32) = nat len"
    using assms(2) by (simp add: unat_of_nat MRP_MAX_PKT_SIZE_def take_bit_nat_eq_self)
  ultimately show ?thesis
    using assms(1) by (simp add: word_less_nat_alt sizeof_hdr_def)
qed


lemma demo_hdr:
  "hdr_magic (user_from 4096 (demo_psnet m)) = hdr_magic m"
  "hdr_size (user_from 4096 (demo_psnet m)) = hdr_size m"
  "hdr_tag (user_from 4096 (demo_psnet m)) = hdr_tag m"
  "hdr_req (user_from 4096 (demo_psnet m)) = hdr_req m"
  "hdr_cksum (user_from 4096 (demo_psnet m)) = hdr_cksum m"
  "deci_cksum (user_from 4096 (demo_psnet m)) = deci_cksum m"
  by (simp_all add: hdr_magic_def hdr_size_def hdr_tag_def hdr_req_def hdr_cksum_def
      deci_cksum_def half_at_def word_at_def user_demo)



text \<open>
  C31: a write to the packet device that does not carry an acceptable packet, or that goes to a unit
  that is not valid or not open, is refused with an error and changes nothing, neither in the
  driver nor on the board.
\<close>

theorem mrp_write_refuses:
  assumes "minor AND 0x40 = 0" "verify_rd env addr (word_of_int len) \<le> 0"
    and "\<not> flag MRPF_VALID (mrp_units s (unit_index minor)) \<or>
         \<not> flag MRPF_OPENED (mrp_units s (unit_index minor)) \<or>
         verify_rd env addr (word_of_int len) \<noteq> 0 \<or> \<not> acceptable (user_from addr s) len"
  shows "\<exists>e > 0. mrp_write dev env minor addr len s = Some (Done (- e, s))"
proof -
  have short: "(word_of_int len :: u32) < of_nat sizeof_hdr" if "0 \<le> len" "len < 32"
  proof -
    have "(word_of_int len :: u32) = of_nat (nat len)" using that(1) by simp
    moreover have "unat (of_nat (nat len) :: u32) = nat len"
      using that(2) by (simp add: unat_of_nat take_bit_nat_eq_self)
    ultimately show ?thesis using that by (simp add: word_less_nat_alt sizeof_hdr_def)
  qed
  have neg: "len \<noteq> int (unat (x :: u16))" if "len < 0" for x using that by auto
  have err: "\<exists>e > 0. Some (Done (- int (Suc n), s)) = Some (Done (- e, s))" for n
    by (intro exI [of _ "int (Suc n)"]) simp
  have v: "\<exists>e > 0. Some (Done (verify_rd env addr (word_of_int len), s)) = Some (Done (- e, s))"
    if "verify_rd env addr (word_of_int len) \<noteq> 0"
    using that assms(2) by (intro exI [of _ "- verify_rd env addr (word_of_int len)"]) simp
  show ?thesis
    using assms(1,3) v err [of 18] err [of 21] short neg
    by (auto simp: mrp_write_def Let_def acceptable_def not_le)
qed

theorem mrp_write_refuses_witness:
  "\<exists>e > 0. mrp_write (feed_dev [] 0) demo_caller 0 4096 32 (demo_psnet (\<lambda>_. 0))
     = Some (Done (- e, demo_psnet (\<lambda>_. 0)))"
proof -
  have "hdr_magic (\<lambda>_. 0) \<noteq> DECI_MAGIC"
    by (simp add: hdr_magic_def half_at_def DECI_MAGIC_def)
  then have "\<not> acceptable (user_from 4096 (demo_psnet (\<lambda>_. 0))) 32"
    by (simp add: acceptable_def demo_hdr)
  then show ?thesis
    using mrp_write_refuses [of 0 demo_caller 4096 32 "demo_psnet (\<lambda>_. 0)"]
    by (simp add: demo_caller_def)
qed

section \<open>Opening\<close>

text \<open>
  A successful open takes the device for one user: it sets the open flag of the packet or the
  control device, a second open of the same device fails and changes nothing but the read of the
  board id, and closing it gives back the flags of the unit and the use count as they were.
\<close>

theorem mrp_open_exclusive:
  assumes "mrp_open dev minor s = (0, s')"
  shows "fst (mrp_open dev minor s') < 0
    \<and> flags (mrp_units (snd (mrp_open dev minor s')) (unit_index minor)) = flags (mrp_units s' (unit_index minor))
    \<and> mod_use (snd (mrp_open dev minor s')) = mod_use s'
    \<and> flags (mrp_units (mrp_release minor s') (unit_index minor)) = flags (mrp_units s (unit_index minor))
    \<and> mod_use s' = mod_use s + 1 \<and> mod_use (mrp_release minor s') = mod_use s"
proof -
  let ?i = "unit_index minor"
  define m where "m = (if minor AND 0x40 \<noteq> 0 then MRPF_CPOPEN else MRPF_OPENED)"
  have m0: "m \<noteq> 0" "m AND MRPF_VALID = 0" by (simp_all add: m_def mrpf_defs)
  let ?f = "flags (mrp_units s ?i)"
  have o: "?f AND MRPF_VALID \<noteq> 0" "?f AND m = 0" "mod_use s' = mod_use s + 1"
    "flags (mrp_units s' ?i) = ?f OR m"
    using assms by (auto simp: mrp_open_def Let_def rdr_eq flag_def set_flag_def m_def [symmetric]
        split: if_splits)
  have v: "(?f OR m) AND MRPF_VALID \<noteq> 0" "(?f OR m) AND m \<noteq> 0"
    using o(1) m0 by (simp_all add: set_and_other)
  have bk: "(?f OR m) AND NOT m = ?f"
    using o(2) by (simp add: clear_set_absorb clear_none)
  show ?thesis
    using o v bk
    by (simp add: mrp_open_def mrp_release_def Let_def rdr_eq flag_def clear_flag_def m_def [symmetric])
qed

theorem mrp_open_exclusive_witness:
  "\<exists>s'. mrp_open (feed_dev [] 0\<lparr>dev16 := \<lambda>_ _. 0x4126\<rparr>) 0x40 (demo_psnet demo_pkt) = (0, s')
     \<and> fst (mrp_open (feed_dev [] 0\<lparr>dev16 := \<lambda>_ _. 0x4126\<rparr>) 0x40 s') < 0"
proof -
  let ?d = "feed_dev [] 0\<lparr>dev16 := \<lambda>_ _. 0x4126\<rparr>"
  obtain s' where "mrp_open ?d 0x40 (demo_psnet demo_pkt) = (0, s')"
    by (simp add: mrp_open_def Let_def rdr_eq flag_def demo_unit_def mrpf_defs unit_index_def)
  then show ?thesis
    using mrp_open_exclusive [of ?d "0x40" "demo_psnet demo_pkt"] by blast
qed

section \<open>Reading a packet\<close>

lemma user_store_read:
  assumes "j < n" "n < 2 ^ 32"
  shows "user_from addr (user_store addr n m s) j = m j"
  using assms by (simp add: user_from_def user_store_def unat_of_nat take_bit_nat_eq_self)

lemma user_store_simps [simp]:
  "mrp_units (user_store a n m s) = mrp_units s" "iflag (user_store a n m s) = iflag s"
  by (simp_all add: user_store_def)

lemma read_delivers:
  assumes i_def: "i = unit_index minor"
    and u: "flag MRPF_VALID (mrp_units s i)" "flag MRPF_OPENED (mrp_units s i)"
      "flag MRPF_RESET (mrp_units s i)" "\<not> flag MRPF_REQTAG (mrp_units s i)"
      "recvbuf (mrp_units s i) = Some k" "0 \<le> rlen (mrp_units s i)" "rlen (mrp_units s i) < 2 ^ 16"
    and m: "minor AND 0x40 = 0" "int MRP_MAX_PKT_SIZE \<le> nbytes"
      "verify_wr env addr (word_of_int nbytes) = 0"
      "verify_wr env addr (of_nat (nat (rlen (mrp_units s i)))) = 0"
  shows "\<exists>s' v. mrp_read dev env minor addr nbytes s = Some (Done (rlen (mrp_units s i), s'))
    \<and> (\<forall>j < nat (rlen (mrp_units s i)). user_from addr s' j = kbytes k j)
    \<and> rlen (mrp_units s' i) = 0 \<and> \<not> flag MRPF_RDONE (mrp_units s' i)
    \<and> lastw IER (mbus (mrp_units s' i)) = Some v \<and> v AND MRP_STATF_RECV \<noteq> 0
    \<and> (\<forall>j. j \<noteq> i \<longrightarrow> mrp_units s' j = mrp_units s j)"
proof -
  let ?n = "nat (rlen (mrp_units s i))"
  have n: "?n < 2 ^ 32" using u(7) by simp
  have "mrp_read dev env minor addr nbytes s =
      Some (read_finish dev env i addr (rlen (mrp_units s i)) (cli s))"
    using u(1-4) m(1-3) by (simp add: mrp_read_def i_def Let_def)
  also have "\<dots> = Some (Done (rlen (mrp_units s i),
      sti (upd_unit i (\<lambda>u. orr dev IER MRP_STATF_RECV (clear_flag MRPF_RDONE (u\<lparr>deci_in := Some 0, rlen := 0\<rparr>)))
        (user_store addr ?n (kbytes k) (cli s)))))"
    using u(5) m(4) by (simp add: read_finish_def copy_to_user_def Let_def)
  finally show ?thesis
    using user_store_read [OF _ n]
    by (simp add: orr_eq clear_flag_def flag_def statf_defs bit_or_nonzero)
qed

lemma flag_received:
  assumes "flags u' = flags u OR MRPF_RDONE"
  shows "flag MRPF_VALID u' = flag MRPF_VALID u" "flag MRPF_OPENED u' = flag MRPF_OPENED u"
    "flag MRPF_RESET u' = flag MRPF_RESET u" "flag MRPF_REQTAG u' = flag MRPF_REQTAG u"
  using assms by (simp_all add: flag_def bit.conj_disj_distrib2 mrpf_defs)

text \<open>
  C15: a packet the board has sent reaches the reader. When \<^verbatim>\<open>mrp_recv\<close> has received a packet of \<^verbatim>\<open>n\<close> bytes (header in the first word, checksum right) on
  a valid, open, reset unit without a request tag, the next read with room for the largest packet returns \<^verbatim>\<open>n\<close>, puts the bytes of the words taken from the FIFO into the
  caller's memory in order, forgets the packet and enables the receive interrupt again, and leaves the other units alone. (A unit with
  the request tag sends a packet first; that case is not part of this statement.)
\<close>

theorem mrp_read_delivers:
  assumes "\<not> flag MRPF_RDONE u" "recvbuf u = Some k" "ksize k = MRP_MAX_PKT_SIZE" "first_header dev u = Some n" "0 < n"
      "mrp_recv dev u = Some (Done (r, u'))" "flag MRPF_RDONE u'"
    and "flag MRPF_VALID u" "flag MRPF_OPENED u" "flag MRPF_RESET u" "\<not> flag MRPF_REQTAG u"
    and "i = unit_index minor" "mrp_units s i = u'" "minor AND 0x40 = 0" "int MRP_MAX_PKT_SIZE \<le> nbytes"
      "verify_wr env addr (word_of_int nbytes) = 0" "verify_wr env addr (of_nat n) = 0"
  shows "\<exists>s' m v. mrp_read dev' env minor addr nbytes s = Some (Done (int n, s'))
    \<and> fifo_taken (mbus u') = fifo_taken (mbus u) @ words_of m ((n + 3) div 4)
    \<and> (\<forall>j < n. user_from addr s' j = m j)
    \<and> rlen (mrp_units s' i) = 0 \<and> \<not> flag MRPF_RDONE (mrp_units s' i)
    \<and> lastw IER (mbus (mrp_units s' i)) = Some v \<and> v AND MRP_STATF_RECV \<noteq> 0
    \<and> (\<forall>j. j \<noteq> i \<longrightarrow> mrp_units s' j = mrp_units s j)"
proof -
  obtain k' where k': "recvbuf u' = Some k'" "rlen u' = int n" "flags u' = flags u OR MRPF_RDONE"
      "fifo_taken (mbus u') = fifo_taken (mbus u) @ words_of (kbytes k') ((n + 3) div 4)"
    using recv_packet [OF assms(1-5)] assms(6,7) by auto
  have n: "n < 2 ^ 16" using assms(4) by (auto simp: first_header_def Let_def MRP_MAX_PKT_SIZE_def split: if_splits)
  note fl = flag_received [OF k'(3)]
  obtain s' v where "mrp_read dev' env minor addr nbytes s = Some (Done (rlen (mrp_units s i), s'))"
    "\<forall>j < nat (rlen (mrp_units s i)). user_from addr s' j = kbytes k' j"
    "rlen (mrp_units s' i) = 0" "\<not> flag MRPF_RDONE (mrp_units s' i)"
    "lastw IER (mbus (mrp_units s' i)) = Some v" "v AND MRP_STATF_RECV \<noteq> 0"
    "\<forall>j. j \<noteq> i \<longrightarrow> mrp_units s' j = mrp_units s j"
    using read_delivers [OF assms(12), of s k' nbytes env addr dev'] assms(8-11,13-17) k'(1,2) n fl by auto
  then show ?thesis using k' assms(13) by auto
qed

theorem mrp_read_delivers_witness:
  "\<exists>u' s'. mrp_recv (feed_dev (words_of demo_pkt 8) 0) demo_unit = Some (Done (1, u'))
     \<and> mrp_read (feed_dev [] 0) demo_caller 0 4096 0x4000 ((demo_psnet (\<lambda>_. 0))\<lparr>mrp_units := (\<lambda>_. u')\<rparr>) = Some (Done (32, s'))
     \<and> words_of (user_from 4096 s') 8 = fifo_taken (mbus u')"
proof -
  obtain u' where r: "mrp_recv (feed_dev (words_of demo_pkt 8) 0) demo_unit = Some (Done (1, u'))" "flag MRPF_RDONE u'"
    using demo_received by blast
  have "words_of demo_pkt 8 ! 0 = 0x0020a14c"
    by (simp add: words_of_def demo_pkt_def word_at_set_word_other)
  then have h: "first_header (feed_dev (words_of demo_pkt 8) 0) demo_unit = Some 32"
    by (simp add: first_header_def feed_dev_def demo_unit_def Let_def words_of_def DECI_MAGIC_def MRP_MAX_PKT_SIZE_def)
  let ?s = "(demo_psnet (\<lambda>_. 0))\<lparr>mrp_units := (\<lambda>_. u')\<rparr>"
  have u: "flag MRPF_VALID demo_unit" "flag MRPF_OPENED demo_unit" "flag MRPF_RESET demo_unit" "\<not> flag MRPF_REQTAG demo_unit"
    "fifo_taken (mbus demo_unit) = []"
    by (simp_all add: demo_unit_def flag_def mrpf_defs)
  obtain s' m where s': "mrp_read (feed_dev [] 0) demo_caller 0 4096 0x4000 ?s = Some (Done (32, s'))"
      "fifo_taken (mbus u') = words_of m 8" "\<forall>j < 32. user_from 4096 s' j = m j"
    using mrp_read_delivers [OF demo_exchange(6-8) h _ r u(1-4), of 0 0 ?s "0x4000" demo_caller 4096 "feed_dev [] 0"] u(5)
    by (auto simp: unit_index_def demo_caller_def MRP_MAX_PKT_SIZE_def)
  have "words_of (user_from 4096 s') 8 = words_of m 8"
    using s'(3) by (simp add: words_of_def word_at_def)
  then show ?thesis using r s' by auto
qed






text \<open>
  C34: once a reset packet with a tag was written, a read that finds no received packet never
  returns: it spins on the RDONE flag with interrupts off, and only the interrupt handler sets it.
\<close>

theorem mrp_read_hangs:
  assumes "i = unit_index minor"
    and "flag MRPF_VALID (mrp_units s i)" "flag MRPF_OPENED (mrp_units s i)"
      "flag MRPF_RESET (mrp_units s i)" "flag MRPF_REQTAG (mrp_units s i)"
      "\<not> flag MRPF_RDONE (mrp_units s i)" "unit_ok (mrp_units s i)"
    and "minor AND 0x40 = 0" "int MRP_MAX_PKT_SIZE \<le> nbytes" "verify_wr env addr (word_of_int nbytes) = 0"
  shows "mrp_read dev env minor addr nbytes s = None"
proof -
  let ?u = "mrp_units s i"
  obtain n u' where send: "mrp_send dev ?u = Done (n, u')" "flags u' = flags ?u OR MRPF_SBUSY"
    using send_returns [OF assms(7)] by blast
  have "MRPF_SBUSY AND MRPF_RDONE = 0" by (simp add: mrpf_defs)
  then have "\<not> flag MRPF_RDONE u'"
    using assms(6) send(2) by (simp add: flag_def set_and_other)
  then have "spin_rdone i (upd_unit i (\<lambda>_. u') (cli s)) = None"
    using spin_rdone_eq [of i "upd_unit i (\<lambda>_. u') (cli s)"]
    by (cases "spin_rdone i (upd_unit i (\<lambda>_. u') (cli s))") auto
  then show ?thesis
    using assms send(1) by (simp add: mrp_read_def Let_def)
qed

theorem mrp_read_hangs_witness:
  "mrp_read (feed_dev [] 0) demo_caller 0 4096 0x4000
     (upd_unit 0 (set_flag MRPF_REQTAG) (demo_psnet demo_pkt)) = None"
proof -
  have i: "(0::nat) = unit_index 0" by (simp add: unit_index_def)
  show ?thesis
    using mrp_read_hangs [OF i, of "upd_unit 0 (set_flag MRPF_REQTAG) (demo_psnet demo_pkt)" "0x4000"
        demo_caller 4096 "feed_dev [] 0"] demo_unit_ok
    by (simp add: demo_caller_def flag_def set_flag_def MRP_MAX_PKT_SIZE_def)
      (simp add: demo_unit_def mrpf_defs)
qed

text \<open>Waiting for the end of a transmission leaves the interrupt flag as \<^verbatim>\<open>interruptible_sleep_on\<close> does.\<close>

lemma wait_sbusy_result:
  assumes "wait_sbusy env i t = Some x" "\<forall>i q t. iflag (fst (sleep_on env i q t)) = iflag t"
  shows "iflag (snd x) = iflag t \<and>
    (fst x \<noteq> 0 \<longrightarrow> flag MRPF_SBUSY (mrp_units t i) \<and> fst x = (if nonblock env then - EWOULDBLOCK else - EINTR))"
proof -
  have "(\<forall>i q t. iflag (fst (sleep_on env i q t)) = iflag t) \<longrightarrow> iflag (snd x) = iflag t \<and>
    (fst x \<noteq> 0 \<longrightarrow> flag MRPF_SBUSY (mrp_units t i) \<and> fst x = (if nonblock env then - EWOULDBLOCK else - EINTR))"
  proof (rule wait_sbusy.raw_induct [OF _ assms(1)], intro impI)
    fix rec :: "caller \<Rightarrow> nat \<Rightarrow> psnet \<Rightarrow> (int \<times> psnet) option" and env i s x
    assume IH: "\<And>env i s x. rec env i s = Some x \<Longrightarrow> (\<forall>i q t. iflag (fst (sleep_on env i q t)) = iflag t) \<longrightarrow>
      iflag (snd x) = iflag s \<and>
      (fst x \<noteq> 0 \<longrightarrow> flag MRPF_SBUSY (mrp_units s i) \<and> fst x = (if nonblock env then - EWOULDBLOCK else - EINTR))"
    assume eq: "(if flag MRPF_SBUSY (mrp_units s i)
         then if nonblock env then Some (- EWOULDBLOCK, s)
              else case sleep_on env i WQ3 s of (s, sig) \<Rightarrow> if sig then Some (- EINTR, s) else rec env i s
         else Some (0, s)) = Some x"
    assume fl: "\<forall>i q t. iflag (fst (sleep_on env i q t)) = iflag t"
    then have "iflag t = iflag s" if "sleep_on env i WQ3 s = (t, sig)" for t sig
      using that by (metis fst_conv)
    then show "iflag (snd x) = iflag s \<and>
      (fst x \<noteq> 0 \<longrightarrow> flag MRPF_SBUSY (mrp_units s i) \<and> fst x = (if nonblock env then - EWOULDBLOCK else - EINTR))"
      using eq fl by (auto split: if_splits prod.splits dest!: IH)
  qed
  then show ?thesis using assms(2) by blast
qed

text \<open>
  C35: the paths on which \<^verbatim>\<open>mrp_ioctl\<close>, called with interrupts enabled, returns with interrupts disabled. It does so exactly when the command is
  SY and the call gives up on a unit that is still busy: with \<^verbatim>\<open>-EWOULDBLOCK\<close> on a file opened with O_NONBLOCK, and with \<^verbatim>\<open>-EINTR\<close> on any other file
  when a signal ends the sleep. Every other command, and SY in every other case, returns with interrupts enabled. Hypothesis: \<^verbatim>\<open>interruptible_sleep_on\<close>
  returns with the interrupt flag as it found it (it saves and restores the flags).
\<close>

theorem mrp_ioctl_iflag:
  assumes "iflag s" "\<forall>i q t. iflag (fst (sleep_on env i q t)) = iflag t" "mrp_ioctl dev env minor cmd arg s = Some (r, s')"
  shows "(\<not> iflag s' \<longleftrightarrow> cmd = MRP_IOCTL_SY \<and> r = (if nonblock env then - EWOULDBLOCK else - EINTR)) \<and>
    (\<not> iflag s' \<longrightarrow> flag MRPF_SBUSY (mrp_units s (unit_index minor)))"
proof -
  let ?i = "unit_index minor"
  have w: "\<not> iflag t \<and> (rc \<noteq> 0 \<longrightarrow> flag MRPF_SBUSY (mrp_units s ?i) \<and> rc = (if nonblock env then - EWOULDBLOCK else - EINTR))"
    if "wait_sbusy env ?i (cli s) = Some (rc, t)" for rc t
    using wait_sbusy_result [OF that assms(2)] by simp
  have c: "iflag (snd (copy_to_user env arg m n s))" for m n
    using assms(1) by (simp add: copy_to_user_def Let_def)
  have other: "MRP_IOCTL_RF \<noteq> MRP_IOCTL_SY" "MRP_IOCTL_GT \<noteq> MRP_IOCTL_SY" "MRP_IOCTL_SF \<noteq> MRP_IOCTL_SY"
    by (simp_all add: ioctl_defs)
  show ?thesis
    using assms(1,3) c other by (auto simp: mrp_ioctl_def Let_def split: if_splits option.splits dest!: w)
qed

theorem mrp_ioctl_iflag_witness:
  "(\<exists>s'. mrp_ioctl (feed_dev [] 0) demo_caller 0 MRP_IOCTL_SY 0
       (upd_unit 0 (set_flag MRPF_SBUSY) (demo_psnet demo_pkt)) = Some (- EWOULDBLOCK, s') \<and> \<not> iflag s') \<and>
   (\<exists>s'. mrp_ioctl (feed_dev [] 0) (demo_caller\<lparr>nonblock := False, sleep_on := \<lambda>_ _ s. (s, True)\<rparr>) 0 MRP_IOCTL_SY 0
       (upd_unit 0 (set_flag MRPF_SBUSY) (demo_psnet demo_pkt)) = Some (- EINTR, s') \<and> \<not> iflag s')"
proof -
  let ?s = "upd_unit 0 (set_flag MRPF_SBUSY) (demo_psnet demo_pkt)"
  let ?e = "demo_caller\<lparr>nonblock := False, sleep_on := \<lambda>_ _ s. (s, True)\<rparr>"
  have "mrp_ioctl (feed_dev [] 0) demo_caller 0 MRP_IOCTL_SY 0 ?s = Some (- EWOULDBLOCK, cli ?s)"
    by (simp add: mrp_ioctl_def Let_def unit_index_def ioctl_defs)
      (subst wait_sbusy.simps, simp add: flag_def set_flag_def demo_unit_def mrpf_defs demo_caller_def)
  moreover have "mrp_ioctl (feed_dev [] 0) ?e 0 MRP_IOCTL_SY 0 ?s = Some (- EINTR, cli ?s)"
    by (simp add: mrp_ioctl_def Let_def unit_index_def ioctl_defs)
      (subst wait_sbusy.simps, simp add: flag_def set_flag_def demo_unit_def mrpf_defs demo_caller_def)
  moreover have "\<forall>i q t. iflag (fst (sleep_on demo_caller i q t)) = iflag t" "nonblock demo_caller"
    by (simp_all add: demo_caller_def)
  ultimately show ?thesis
    using mrp_ioctl_iflag [of ?s demo_caller "feed_dev [] 0" 0 MRP_IOCTL_SY 0 "- EWOULDBLOCK" "cli ?s"]
      mrp_ioctl_iflag [of ?s ?e "feed_dev [] 0" 0 MRP_IOCTL_SY 0 "- EINTR" "cli ?s"]
    by simp
qed

section \<open>The packet kept for the boot request\<close>

text \<open>The board raises its interrupt to ask for the packet kept for the boot: CPR reads as \<^verbatim>\<open>c\<close>, with bit 8 set and bit 9 clear.\<close>

definition boot_interrupt :: "mrp_dev \<Rightarrow> mrp_unit \<Rightarrow> u16 \<Rightarrow> u16 \<Rightarrow> bool" where
  "boot_interrupt dev u stat c \<longleftrightarrow> intr_stat dev u = Some stat \<and> stat AND MRP_STATF_BOOTP \<noteq> 0
     \<and> stat AND MRP_STATF_RECV = 0 \<and> stat AND MRP_STATF_WAKE = 0 \<and> stat AND MRP_STATF_RESET = 0
     \<and> (\<forall>h. dev16 dev h CPR = c) \<and> c AND 0x0100 \<noteq> 0 \<and> c AND 0x0200 = 0"

lemma interrupt_sends_boot:
  assumes "i < 4" "boot_interrupt dev u stat c" "buf40 u = Some k" "0 \<le> nbytes40 u" "nbytes40 u < 2 ^ 31"
  shows "\<exists>u'. mrp_interrupt dev i u = Some (Done u')
    \<and> fifo_sent (mbus u') = fifo_sent (mbus u) @ words_of (kbytes k) (nat ((nbytes40 u + 3) div 4))
    \<and> lastw CPS (mbus u') = Some c"
proof -
  obtain h n where h: "writes h = writes (mbus u)"
    and e: "mrp_interrupt dev i u = Some (mrp_intr_other dev stat (u\<lparr>nintr := n, mbus := h\<rparr>))"
    using interrupt_eq [OF assms(1), of u dev] assms(2) by (auto simp: boot_interrupt_def)
  show ?thesis
    using assms(2,3) put_fifo_some [OF assms(4,5), of dev k] unfolding e fifo_sent_of_writes [OF h, symmetric]
    by (simp add: boot_interrupt_def mrp_intr_other_def andr_eq mrp_bootp_def rdr_eq Let_def wrr_eq orr_eq clear_flag_def fifo_sent_put_words)
qed

text \<open>
  C24: a reset packet of mode 0 written to the driver resets the board and is kept. When the board then raises its interrupt with the boot
  request among the enabled causes and none of RECV, WAKE and RESET, and CPR reads as a value with bit 8 set and bit 9 clear, the interrupt handler
  sends exactly that packet and echoes the value in CPS. Hypotheses: the unit is valid and open, the packet is acceptable and readable,
  and \<^verbatim>\<open>kmalloc\<close> finds memory for it.
\<close>

theorem treset_then_boot:
  assumes i_def: "i = unit_index minor"
    and u: "flag MRPF_VALID (mrp_units s i)" "flag MRPF_OPENED (mrp_units s i)"
    and m: "minor AND 0x40 = 0" "verify_rd env addr (word_of_int len) = 0"
    and hdr: "acceptable (user_from addr s) len" "hdr_req (user_from addr s) = REQ_TRESET"
      "len > 0x23 \<longrightarrow> drop_bit 4 (word_at (user_from addr s) 0x20) AND 0x0f = 0"
    and mem: "\<forall>t. kmalloc env (nat len) t \<noteq> None"
  shows "\<exists>s' (k :: kbuf). mrp_write dev env minor addr len s = Some (Done (len, s'))
    \<and> writes (mbus (mrp_units s' i)) = writes (mbus (mrp_units s i)) @ [Wr16 IER 0, Wr16 RST 0x8000,
        Wr16 FST 0xc0c0, Wr16 FST 0, Wr16 ISP 0, Wr16 CSI 7, Wr16 RST 0, Wr16 IER 0x15]
    \<and> (\<forall>j < nat len. kbytes k j = user_from addr s j)
    \<and> (\<forall>dev' stat c. boot_interrupt dev' (mrp_units s' i) stat c \<longrightarrow>
        (\<exists>u'. mrp_interrupt dev' i (mrp_units s' i) = Some (Done u')
          \<and> fifo_sent (mbus u') = fifo_sent (mbus (mrp_units s i)) @ words_of (kbytes k) (nat ((len + 3) div 4))
          \<and> lastw CPS (mbus u') = Some c))"
proof -
  have len: "32 \<le> len" "len \<le> int MRP_MAX_PKT_SIZE" using hdr(1) by (simp_all add: acceptable_def)
  have l: "0 \<le> len" "len < 2 ^ 31" using len by (simp_all add: MRP_MAX_PKT_SIZE_def)
  let ?s1 = "upd_unit i (\<lambda>u. u\<lparr>reset_mode := 0\<rparr>) (cli s)"
  obtain k0 where k0: "kmalloc env (nat len) ?s1 = Some k0" using mem by blast
  define k where "k = copy_in (nat len) (user_from addr s) k0"
  have mode: "(if \<not> len > 0x23 then 0 else drop_bit 4 (word_at (user_from addr s) 0x20) AND 0x0f) = (0::u32)"
    using hdr(3) by simp
  define v where "v = snd (mrp_reset ((mrp_units s i)\<lparr>reset_mode := 0, nbytes40 := len, buf40 := Some k\<rparr>))"
  define w where "w = (let x = v\<lparr>deci_tag_for_reset := hdr_tag (user_from addr s)\<rparr>
    in if hdr_tag (user_from addr s) \<noteq> 0 then wake_up WQ4 (set_flag MRPF_REQTAG x) else x)"
  have "mrp_write dev env minor addr len s = Some (Done (write_treset env i addr len s))"
    using u m hdr not_short [OF len] by (simp add: mrp_write_def i_def Let_def acceptable_def)
  moreover have "\<exists>s'. write_treset env i addr len s = (len, s') \<and> mrp_units s' i = w"
    unfolding write_treset_def Let_def mode
    by (simp add: keep_boot_def k0 k_def [symmetric] Let_def v_def w_def)
  ultimately obtain s' where s': "mrp_write dev env minor addr len s = Some (Done (len, s'))"
    "mrp_units s' i = w" by auto
  have wr: "writes (mbus w) = writes (mbus (mrp_units s i)) @ [Wr16 IER 0, Wr16 RST 0x8000,
      Wr16 FST 0xc0c0, Wr16 FST 0, Wr16 ISP 0, Wr16 CSI 7, Wr16 RST 0, Wr16 IER 0x15]"
    by (simp add: w_def v_def mrp_reset_def Let_def wrr_eq unit_ops writes_def statf_defs)
  have b: "buf40 w = Some k" "nbytes40 w = len"
    by (simp_all add: w_def v_def mrp_reset_def Let_def wrr_eq unit_ops)
  have f: "fifo_sent (mbus w) = fifo_sent (mbus (mrp_units s i))"
    by (simp add: w_def v_def mrp_reset_def Let_def wrr_eq unit_ops)
  have "i < 4" by (simp add: i_def unit_index_less)
  then have boot: "\<exists>u'. mrp_interrupt dev' i w = Some (Done u')
      \<and> fifo_sent (mbus u') = fifo_sent (mbus (mrp_units s i)) @ words_of (kbytes k) (nat ((len + 3) div 4))
      \<and> lastw CPS (mbus u') = Some c" if "boot_interrupt dev' w stat c" for dev' stat c
    using interrupt_sends_boot [OF _ that b(1)] b(2) l f by simp
  have "\<forall>j < nat len. kbytes k j = user_from addr s j" by (simp add: k_def copy_in_def)
  then show ?thesis
    using s' wr boot by - (rule exI [of _ s'], rule exI [of _ k], simp)
qed

definition treset_pkt :: mem where
  "treset_pkt = set_word (set_word (set_word (\<lambda>_. 0) 0 0x0020a14c) 24 REQ_TRESET) 28 0x5421a14c"

text \<open>A board that requests the boot packet.\<close>

definition boot_dev :: mrp_dev where
  "boot_dev = feed_dev [] 0\<lparr>dev16 := \<lambda>_ r. if r = CPR then 0x0100 else MRP_STATF_BOOTP, dev32 := \<lambda>_ _. 4\<rparr>"

lemma boot_dev_interrupt: "boot_interrupt boot_dev u MRP_STATF_BOOTP 0x0100"
  by (simp add: boot_interrupt_def boot_dev_def intr_stat_def statf_defs)

theorem treset_then_boot_witness:
  "\<exists>s' u'. mrp_write boot_dev demo_caller 0 4096 32 (demo_psnet treset_pkt) = Some (Done (32, s'))
     \<and> mrp_interrupt boot_dev 0 (mrp_units s' 0) = Some (Done u')
     \<and> length (fifo_sent (mbus u')) = length (fifo_sent (mbus demo_unit)) + 8 \<and> lastw CPS (mbus u') = Some 0x0100"
proof -
  have i: "(0::nat) = unit_index 0" by (simp add: unit_index_def)
  have h: "hdr_magic treset_pkt = DECI_MAGIC" "unat (hdr_size treset_pkt) = 32"
    "hdr_cksum treset_pkt = deci_cksum treset_pkt" "hdr_req treset_pkt = REQ_TRESET"
    by code_simp+
  then have "acceptable (user_from 4096 (demo_psnet treset_pkt)) 32"
    "hdr_req (user_from 4096 (demo_psnet treset_pkt)) = REQ_TRESET"
    by (simp_all add: acceptable_def demo_hdr MRP_MAX_PKT_SIZE_def)
  moreover have "flag MRPF_VALID demo_unit" "flag MRPF_OPENED demo_unit"
    "verify_rd demo_caller a n = 0" "kmalloc demo_caller m t \<noteq> None" for a n m t
    by (simp_all add: demo_unit_def demo_caller_def flag_def mrpf_defs)
  ultimately obtain s' and k :: kbuf where
    w: "mrp_write boot_dev demo_caller 0 4096 32 (demo_psnet treset_pkt) = Some (Done (32, s'))" and
    b: "\<forall>dev' stat c. boot_interrupt dev' (mrp_units s' 0) stat c \<longrightarrow>
        (\<exists>u'. mrp_interrupt dev' 0 (mrp_units s' 0) = Some (Done u')
          \<and> fifo_sent (mbus u') = fifo_sent (mbus demo_unit) @ words_of (kbytes k) (nat ((32 + 3) div 4))
          \<and> lastw CPS (mbus u') = Some c)"
    using treset_then_boot [OF i, of "demo_psnet treset_pkt" demo_caller 4096 32 boot_dev]
    by (simp del: ex_simps) blast
  show ?thesis
    using w b [rule_format, OF boot_dev_interrupt] by auto
qed

end
