(* ===== verification/Psnet_Steps.thy ===== *)
theory Psnet_Steps
  imports Psnet_Props
begin

text \<open>
  The MRP network driver as a state machine: every interleaving of interrupts and file
  operations, where a call that sleeps lets other steps happen meanwhile. A locale collects what
  a property of a single unit must satisfy to be an invariant of all four under all these steps;
  it is interpreted for the consistency of a unit and for the idleness of the outgoing control
  plane, which shows that bytes written to the control device never reach the board.
\<close>

section \<open>Steps\<close>

text \<open>
  While a call sleeps, other steps happen: \<^verbatim>\<open>sleep_on\<close> may return any state that steps lead to.
\<close>

inductive psnet_step :: "mrp_dev \<Rightarrow> psnet \<Rightarrow> psnet \<Rightarrow> bool" for dev where
  step_irq: "mrp_interrupt dev i (mrp_units s i) = Some (Done u') \<Longrightarrow>
    psnet_step dev s (upd_unit i (\<lambda>_. u') s)"
| step_read: "(\<And>i q t. (psnet_step dev)\<^sup>*\<^sup>* t (fst (sleep_on env i q t))) \<Longrightarrow>
    mrp_read dev env minor addr n s = Some (Done (r, s')) \<Longrightarrow> psnet_step dev s s'"
| step_write: "(\<And>i q t. (psnet_step dev)\<^sup>*\<^sup>* t (fst (sleep_on env i q t))) \<Longrightarrow>
    mrp_write dev env minor addr n s = Some (Done (r, s')) \<Longrightarrow> psnet_step dev s s'"
| step_ioctl: "(\<And>i q t. (psnet_step dev)\<^sup>*\<^sup>* t (fst (sleep_on env i q t))) \<Longrightarrow>
    mrp_ioctl dev env minor cmd arg s = Some (r, s') \<Longrightarrow> psnet_step dev s s'"
| step_open: "mrp_open dev minor s = (r, s') \<Longrightarrow> psnet_step dev s s'"
| step_release: "psnet_step dev s (mrp_release minor s)"
| step_other: "mrp_units s' = mrp_units s \<Longrightarrow> psnet_step dev s s'"

section \<open>Properties of a unit that every step keeps\<close>

locale unit_property =
  fixes dev :: mrp_dev and P :: "mrp_unit \<Rightarrow> bool"
  assumes irq: "P u \<Longrightarrow> mrp_interrupt dev i u = Some (Done u') \<Longrightarrow> P u'"
    and send: "P u \<Longrightarrow> mrp_send dev u = Done (n, u') \<Longrightarrow> P u'"
    and ring_take: "P u \<Longrightarrow> count (recvring u) \<noteq> 0 \<Longrightarrow>
      P (u\<lparr>recvring := snd (ringbuf_get (recvring u))\<rparr>)"
    and ring_store: "P u \<Longrightarrow> count (recvring u) < RINGBUF_SIZE - 1 \<Longrightarrow>
      P (u\<lparr>recvring := ringbuf_put x (recvring u)\<rparr>)"
    and cps: "P u \<Longrightarrow> P (mrp_cps dev u)"
    and reset: "P u \<Longrightarrow> P (snd (mrp_reset u))"
    and ier_set: "P u \<Longrightarrow> P (orr dev IER m u)"
    and ier_clear: "P u \<Longrightarrow> P (andr dev IER m u)"
    and bid: "P u \<Longrightarrow> P (snd (rdr dev BID u))"
    and flag_set: "P u \<Longrightarrow> f \<in> {MRPF_REQTAG, MRPF_CPOPEN, MRPF_OPENED} \<Longrightarrow> P (set_flag f u)"
    and flag_clear: "P u \<Longrightarrow> P (clear_flag f u)"
    and wake: "P u \<Longrightarrow> P (wake_up q u)"
    and lens: "P u \<Longrightarrow> P (u\<lparr>rlen := 0\<rparr>)" "P u \<Longrightarrow> P (u\<lparr>slen := 0\<rparr>)"
    and deci_in: "P u \<Longrightarrow> P (u\<lparr>deci_in := d\<rparr>)"
    and mode: "P u \<Longrightarrow> P (u\<lparr>reset_mode := k\<rparr>)"
    and tag: "P u \<Longrightarrow> P (u\<lparr>deci_tag_for_reset := b\<rparr>)"
    and boot: "P u \<Longrightarrow> P (u\<lparr>buf38 := kb\<rparr>)" "P u \<Longrightarrow> P (u\<lparr>buf40 := kb\<rparr>)"
    and boot_len: "P u \<Longrightarrow> 32 \<le> l \<Longrightarrow> l \<le> int MRP_MAX_PKT_SIZE \<Longrightarrow> P (u\<lparr>nbytes38 := l\<rparr>)"
      "P u \<Longrightarrow> 32 \<le> l \<Longrightarrow> l \<le> int MRP_MAX_PKT_SIZE \<Longrightarrow> P (u\<lparr>nbytes40 := l\<rparr>)"
    and fill: "P u \<Longrightarrow> 32 \<le> l \<Longrightarrow> l \<le> int MRP_MAX_PKT_SIZE \<Longrightarrow> sendbuf u = Some kb' \<Longrightarrow>
      P (u\<lparr>sendbuf := Some (copy_in j m' kb'), deci_out := True, slen := l\<rparr>)"
begin

abbreviation all :: "psnet \<Rightarrow> bool" where
  "all s \<equiv> \<forall>i. P (mrp_units s i)"

definition patient :: "caller \<Rightarrow> bool" where
  "patient env \<longleftrightarrow> (\<forall>i q t. all t \<longrightarrow> all (fst (sleep_on env i q t)))"

lemma all_upd: "all s \<Longrightarrow> P (f (mrp_units s i)) \<Longrightarrow> all (upd_unit i f s)"
  by simp

lemma all_simps [simp]: "all (cli s) = all s" "all (sti s) = all s" "all (user_store a n m s) = all s"
  by simp_all

lemma cp_take_all: "all s \<Longrightarrow> count (recvring (mrp_units s i)) \<noteq> 0 \<Longrightarrow> all (cp_take i a s)"
  using ring_take [of "mrp_units s i"] by (simp add: cp_take_def Let_def split_def)

lemma cp_store_all: "all s \<Longrightarrow> count (recvring (mrp_units s i)) < RINGBUF_SIZE - 1 \<Longrightarrow> all (cp_store i a k s)"
  using ring_store [of "mrp_units s i"] by (simp add: cp_store_def)

lemma read_cp_all:
  assumes "read_cp dev' env i a c n s = Some x"
  shows "dev' = dev \<longrightarrow> patient env \<longrightarrow> all s \<longrightarrow> all (snd x)"
proof (rule read_cp.raw_induct [OF _ assms, where
      P = "\<lambda>dev' env i a c n s x. dev' = dev \<longrightarrow> patient env \<longrightarrow> all s \<longrightarrow> all (snd x)"], goal_cases)
  case (1 rec dev' env i a c n s x)
  show ?case
  proof (intro impI)
    assume d: "dev' = dev" and p: "patient env" and s: "all s"
    obtain t sig where t: "sleep_on env i WQ1 s = (t, sig)" by fastforce
    have at: "all t" using p s t unfolding patient_def by (metis fst_conv)
    show "all (snd x)"
      using 1(2) d p s at t 1(1) [of dev env i _ _ n] cp_take_all [OF s, of i a] cp_take_all [OF at, of i a]
        ier_set [of "mrp_units s i"]
      by (auto split: if_splits)
  qed
qed

lemma write_cp_all:
  assumes "write_cp dev' env i a c n s = Some x"
  shows "dev' = dev \<longrightarrow> patient env \<longrightarrow> all s \<longrightarrow> all (snd x)"
proof (rule write_cp.raw_induct [OF _ assms, where
      P = "\<lambda>dev' env i a c n s x. dev' = dev \<longrightarrow> patient env \<longrightarrow> all s \<longrightarrow> all (snd x)"], goal_cases)
  case (1 rec dev' env i a c n s x)
  show ?case
  proof (intro impI)
    assume d: "dev' = dev" and p: "patient env" and s: "all s"
    obtain t sig where t: "sleep_on env i WQ2 s = (t, sig)" by fastforce
    have at: "all t" using p s t unfolding patient_def by (metis fst_conv)
    show "all (snd x)"
      using 1(2) d p s at t 1(1) [of dev env i _ _ n] cp_store_all [OF s, of i a] cp_store_all [OF at, of i a]
        cps [of "mrp_units s i"]
      by (auto simp: not_le split: if_splits)
  qed
qed

lemma wait_sbusy_all:
  assumes "wait_sbusy env i s = Some x"
  shows "patient env \<longrightarrow> all s \<longrightarrow> all (snd x)"
proof (rule wait_sbusy.raw_induct [OF _ assms, where
      P = "\<lambda>env i s x. patient env \<longrightarrow> all s \<longrightarrow> all (snd x)"], goal_cases)
  case (1 rec env i s x)
  show ?case
  proof (intro impI)
    assume p: "patient env" and s: "all s"
    obtain t sig where t: "sleep_on env i WQ3 s = (t, sig)" by fastforce
    have at: "all t" using p s t unfolding patient_def by (metis fst_conv)
    show "all (snd x)"
      using 1(2) p s at t 1(1) [of env i t] by (auto split: if_splits)
  qed
qed

lemma read_finish_all: "all s \<Longrightarrow> read_finish dev env i a n s = Done x \<Longrightarrow> all (snd x)"
  using ier_set [of "clear_flag MRPF_RDONE ((mrp_units s i)\<lparr>deci_in := Some 0, rlen := 0\<rparr>)"]
    flag_clear [of "(mrp_units s i)\<lparr>deci_in := Some 0, rlen := 0\<rparr>"]
    lens(1) [of "(mrp_units s i)\<lparr>deci_in := Some 0\<rparr>"] deci_in [of "mrp_units s i"]
  by (auto simp: read_finish_def copy_to_user_def Let_def split: option.splits if_splits)

lemma read_all:
  assumes "patient env" "all s" "mrp_read dev env minor a n s = Some (Done (r, s'))"
  shows "all s'"
proof -
  let ?i = "unit_index minor"
  have c: "all s'" if "read_cp dev env ?i a 0 n (cli s) = Some (r, s')"
    using read_cp_all [OF that] assms(1,2) by simp
  have f: "all s'" if "read_finish dev env ?i a k t = Done (r, s')" "all t" for k t
    using read_finish_all [OF that(2,1)] by simp
  have t: "all s'" if "mrp_send dev (mrp_units s ?i) = Done (m, u)"
    "spin_rdone ?i (upd_unit ?i (\<lambda>_. u) (cli s)) = Some t" "read_finish dev env ?i a k t = Done (r, s')" for m u t k
  proof -
    have "P u" using send [OF _ that(1)] assms(2) by blast
    then have "all t" using spin_rdone_eq [OF that(2)] assms(2) by simp
    then show ?thesis by (rule f [OF that(3)])
  qed
  show ?thesis
    using assms(2,3) c f [of _ "cli s"] t
    by (auto simp: mrp_read_def Let_def split: if_splits run.splits)
qed

lemma keep_boot_all:
  "all s \<Longrightarrow> 32 \<le> len \<Longrightarrow> len \<le> int MRP_MAX_PKT_SIZE \<Longrightarrow> all (snd (keep_boot env i md a len s))"
  by (auto simp: keep_boot_def Let_def intro!: boot boot_len mode split: option.splits)

lemma write_treset_all:
  assumes "all s" "32 \<le> len" "len \<le> int MRP_MAX_PKT_SIZE"
  shows "all (snd (write_treset env i a len s))"
proof -
  define md where "md = (if \<not> len > 0x23 then 0 else drop_bit 4 (word_at (user_from a s) 0x20) AND 0x0f)"
  define t where "t = snd (keep_boot env i md a len (cli s))"
  have t: "all t" unfolding t_def using keep_boot_all [of "cli s"] assms by simp
  show ?thesis
    using t unfolding write_treset_def Let_def md_def [symmetric] split_def t_def [symmetric]
    by (auto intro!: wake flag_set tag reset)
qed

lemma write_send_all:
  assumes "patient env" "all s" "32 \<le> len" "len \<le> int MRP_MAX_PKT_SIZE"
    and "write_send dev env i a len s = Some (Done (r, s'))"
  shows "all s'"
proof -
  obtain rc t where w: "wait_sbusy env i (cli s) = Some (rc, t)"
    using assms(5) by (cases "wait_sbusy env i (cli s)") (auto simp: write_send_def)
  have t: "all t" using wait_sbusy_all [OF w] assms(1,2) by simp
  have "P u" if "sendbuf (mrp_units t i) = Some k" "mrp_send dev ((mrp_units t i)\<lparr>sendbuf :=
      Some (copy_in (nat len) (user_from a t) k), deci_out := True, slen := len\<rparr>) = Done (n, u)" for k n u
    by (rule send [OF fill [OF _ assms(3,4) that(1)] that(2)]) (use t in blast)
  then show ?thesis
    using assms(5) w t
    by (auto simp: write_send_def Let_def split: if_splits option.splits run.splits)
qed

lemma write_all:
  assumes "patient env" "all s" "mrp_write dev env minor a n s = Some (Done (r, s'))"
  shows "all s'"
proof -
  let ?i = "unit_index minor"
  have c: "all s'" if "write_cp dev env ?i a 0 n (cli s) = Some (r, s')"
    using write_cp_all [OF that] assms(1,2) by simp
  let ?x = "hdr_size (user_from a s)"
  have b: "32 \<le> n" if "\<not> (word_of_int n :: u32) < of_nat sizeof_hdr" "n = int (unat ?x)"
  proof -
    define x where "x = ?x"
    note that = that [folded x_def]
    have "unat x < 2 ^ 16" using unsigned_less [of x] by simp
    then have "unat (of_nat (unat x) :: u32) = unat x"
      by (simp only: unat_of_nat) (simp add: take_bit_nat_eq_self)
    moreover have "(word_of_int n :: u32) = of_nat (unat x)" unfolding that(2) by simp
    ultimately have "32 \<le> unat x"
      using that(1) unfolding word_less_nat_alt sizeof_hdr_def by simp
    then show ?thesis unfolding that(2) by linarith
  qed
  have t: "all s'" if "write_treset env ?i a n s = (r, s')" "32 \<le> n" "n \<le> int MRP_MAX_PKT_SIZE"
    using write_treset_all [OF assms(2) that(2,3), of env ?i a] that(1) by simp
  have w: "all s'" if "write_send dev env ?i a n s = Some (Done (r, s'))" "32 \<le> n" "n \<le> int MRP_MAX_PKT_SIZE"
    using write_send_all [OF assms(1,2) that(2,3,1)] .
  show ?thesis
    using assms(2,3) c t w b
    by (auto simp: mrp_write_def Let_def not_less split: if_splits)
qed

lemma ioctl_all:
  assumes "patient env" "all s" "mrp_ioctl dev env minor cmd arg s = Some (r, s')"
  shows "all s'"
  using assms(2,3) wait_sbusy_all [of env "unit_index minor" "cli s"] assms(1)
  by (auto simp: mrp_ioctl_def copy_to_user_def Let_def intro!: flag_clear ier_set ier_clear lens
      split: if_splits option.splits)

lemma open_all: "all s \<Longrightarrow> mrp_open dev minor s = (r, s') \<Longrightarrow> all s'"
  using bid [of "mrp_units s (unit_index minor)"] flag_set [of "snd (rdr dev BID (mrp_units s (unit_index minor)))"]
  by (auto simp: mrp_open_def Let_def split_def split: if_splits)

lemma release_all: "all s \<Longrightarrow> all (mrp_release minor s)"
  using flag_clear [of "mrp_units s (unit_index minor)"] by (auto simp: mrp_release_def Let_def)

lemma patientI:
  assumes "\<And>i q t. (\<lambda>x y. psnet_step dev x y \<and> (all x \<longrightarrow> all y))\<^sup>*\<^sup>* t (fst (sleep_on env i q t))"
  shows "patient env"
proof -
  have "all x \<longrightarrow> all y" if "(\<lambda>x y. psnet_step dev x y \<and> (all x \<longrightarrow> all y))\<^sup>*\<^sup>* x y" for x y
    using that by induction auto
  then show ?thesis unfolding patient_def using assms by blast
qed

lemma step_all: "psnet_step dev s s' \<Longrightarrow> all s \<longrightarrow> all s'"
proof (induction rule: psnet_step.induct)
  case (step_irq i s u')
  then show ?case using irq [of "mrp_units s i"] by auto
next
  case (step_read env minor addr n s r s')
  then show ?case using read_all [OF patientI] by blast
next
  case (step_write env minor addr n s r s')
  then show ?case using write_all [OF patientI] by blast
next
  case (step_ioctl env minor cmd arg s r s')
  then show ?case using ioctl_all [OF patientI] by blast
next
  case (step_open minor s r s')
  then show ?case using open_all by blast
next
  case (step_release s minor)
  then show ?case using release_all by blast
qed simp

lemma steps_all: "(psnet_step dev)\<^sup>*\<^sup>* s s' \<Longrightarrow> all s \<Longrightarrow> all s'"
  by (induction rule: rtranclp_induct) (use step_all in blast)+

end

section \<open>Consistency of the units\<close>

lemma unit_ok_take:
  "unit_ok u \<Longrightarrow> count (recvring u) \<noteq> 0 \<Longrightarrow> unit_ok (u\<lparr>recvring := snd (ringbuf_get (recvring u))\<rparr>)"
  by (simp add: unit_ok_def ring_get_contents)

lemma unit_ok_store:
  assumes "unit_ok u" "count (recvring u) < RINGBUF_SIZE - 1"
  shows "unit_ok (u\<lparr>recvring := ringbuf_put x (recvring u)\<rparr>)"
proof -
  have "unat (count (recvring u)) < 4096"
    using assms(2) by (simp add: word_less_nat_alt RINGBUF_SIZE_def)
  then show ?thesis using assms(1) by (simp add: unit_ok_def ring_put_contents)
qed

lemma send_ok: "unit_ok u \<Longrightarrow> mrp_send dev u = Done (n, u') \<Longrightarrow> unit_ok u'"
  using put_fifo_ok unfolding mrp_send_def by fastforce

interpretation ok: unit_property dev unit_ok for dev
proof unfold_locales
  fix u l kb' j m'
  assume "unit_ok u" "32 \<le> l" "l \<le> int MRP_MAX_PKT_SIZE" "sendbuf u = Some kb'"
  then show "unit_ok (u\<lparr>sendbuf := Some (copy_in j m' kb'), deci_out := True, slen := l\<rparr>)"
    by (simp add: unit_ok_def buf_ok_def copy_in_def)
qed ((rule interrupt_ok send_ok unit_ok_take unit_ok_store cps_ok reset_ok; assumption)
    | simp | simp add: unit_ok_def)+

section \<open>The outgoing control plane\<close>

definition cp_idle :: "mrp_unit \<Rightarrow> bool" where
  "cp_idle u \<longleftrightarrow> \<not> flag MRPF_CPBUSY u \<and> count (sendring u) = 0 \<and> writes_to CPR (mbus u) = []"

lemma cp_idle_io [simp]:
  "cp_idle (snd (rdr dev r u)) = cp_idle u"
  "r \<noteq> CPR \<Longrightarrow> cp_idle (wrr r v u) = cp_idle u"
  "r \<noteq> CPR \<Longrightarrow> cp_idle (orr dev r m u) = cp_idle u"
  "r \<noteq> CPR \<Longrightarrow> cp_idle (andr dev r m u) = cp_idle u"
  "cp_idle (wake_up q u) = cp_idle u"
  by (simp_all add: cp_idle_def bus_simps wake_up_def flag_def)

lemma cp_idle_fields [simp]:
  "cp_idle (u\<lparr>recvbuf := kb\<rparr>) = cp_idle u" "cp_idle (u\<lparr>rlen := n\<rparr>) = cp_idle u"
  "cp_idle (u\<lparr>slen := n\<rparr>) = cp_idle u" "cp_idle (u\<lparr>deci_in := d\<rparr>) = cp_idle u"
  "cp_idle (u\<lparr>nintr := c\<rparr>) = cp_idle u" "cp_idle (u\<lparr>recvring := rr\<rparr>) = cp_idle u"
  "cp_idle (u\<lparr>reset_mode := n\<rparr>) = cp_idle u" "cp_idle (u\<lparr>deci_tag_for_reset := b\<rparr>) = cp_idle u"
  "cp_idle (u\<lparr>buf38 := kb\<rparr>) = cp_idle u" "cp_idle (u\<lparr>buf40 := kb\<rparr>) = cp_idle u"
  "cp_idle (u\<lparr>nbytes38 := n\<rparr>) = cp_idle u" "cp_idle (u\<lparr>nbytes40 := n\<rparr>) = cp_idle u"
  "cp_idle (u\<lparr>sendbuf := kb\<rparr>) = cp_idle u" "cp_idle (u\<lparr>deci_out := z\<rparr>) = cp_idle u"
  by (simp_all add: cp_idle_def flag_def)

lemma cp_idle_bus: "writes_to CPR h = writes_to CPR (mbus u) \<Longrightarrow> cp_idle (u\<lparr>mbus := h\<rparr>) = cp_idle u"
  by (simp add: cp_idle_def flag_def)

lemma cp_idle_set [simp]: "m AND MRPF_CPBUSY = 0 \<Longrightarrow> cp_idle (set_flag m u) = cp_idle u"
  by (simp add: cp_idle_def flag_def set_flag_def set_and_other)

lemma cp_idle_set_flags [simp]:
  "cp_idle (set_flag MRPF_RDONE u) = cp_idle u" "cp_idle (set_flag MRPF_SBUSY u) = cp_idle u"
  by (simp_all add: mrpf_defs)

lemma cp_idle_clear: "cp_idle u \<Longrightarrow> cp_idle (clear_flag m u)"
proof -
  have "(x AND NOT m) AND c = 0" if "x AND c = 0" for x c :: u32
  proof -
    have "(x AND NOT m) AND c = (x AND c) AND NOT m" by (simp only: ac_simps)
    then show ?thesis by (simp add: that)
  qed
  then show "cp_idle u \<Longrightarrow> cp_idle (clear_flag m u)"
    by (simp add: cp_idle_def flag_def clear_flag_def)
qed

lemma writes_to_fifo_push [simp]: "writes_to r (fifo_push m nw h) = writes_to r h"
proof -
  have "writes_to r (put_words m off n h) = writes_to r h" for off n h
    by (induction n arbitrary: off h) (simp_all add: wrfifo_def)
  then show ?thesis by (simp add: fifo_push_def Let_def put_octets_words)
qed

lemma cp_put_fifo: "mrp_put_fifo dev src n u = Done x \<Longrightarrow> cp_idle (snd x) = cp_idle u"
  by (auto simp: mrp_put_fifo_def Let_def cp_idle_bus split: option.splits if_splits)

lemma cp_get_fifo:
  assumes "mrp_get_fifo dev off n u = Done u'"
  shows "cp_idle u' = cp_idle u"
proof (cases "recvbuf u")
  case None
  then show ?thesis using assms by (simp add: mrp_get_fifo_def Let_def split: if_splits)
next
  case (Some k)
  have w: "writes_to CPR (rev (map FifoIn ws) @ h) = writes_to CPR h" for ws h
    by (induction ws arbitrary: h rule: rev_induct) simp_all
  obtain k' h where g: "get_words dev off (unat (drop_bit 2 (n + 3))) (k, mbus u) = Some (k', h)"
    and u': "u' = u\<lparr>recvbuf := Some k', mbus := h\<rparr>"
    using assms Some by (auto simp: mrp_get_fifo_def Let_def fifo_pull_words split: option.splits)
  obtain ws where "h = rev (map FifoIn ws) @ mbus u"
    using get_words_bus [OF g] by auto
  then show ?thesis
    unfolding u' using w by (subst cp_idle_bus) simp_all
qed

lemma cp_recv_drop [simp]: "cp_idle (snd (recv_drop dev b u)) = cp_idle u"
  by (simp add: recv_drop_def Let_def)

lemma cp_recv_body: "recv_body dev u = Done x \<Longrightarrow> cp_idle (snd x) = cp_idle u"
  by (auto simp: recv_body_def Let_def split: option.splits run.splits if_splits dest!: cp_get_fifo)

lemma cp_recv_scan:
  assumes "recv_scan dev u = Some x"
  shows "\<forall>r u'. x = Done (r, u') \<longrightarrow> cp_idle u' = cp_idle u"
proof (rule recv_scan.raw_induct [OF _ assms, where
      P = "\<lambda>dev u x. \<forall>r u'. x = Done (r, u') \<longrightarrow> cp_idle u' = cp_idle u"], goal_cases)
  case (1 rec dev u x)
  show ?case
  proof (intro allI impI)
    fix r u' assume x: "x = Done (r, u')"
    obtain v where v: "mrp_get_fifo dev 0 4 u = Done v" using 1(2) x by (cases "mrp_get_fifo dev 0 4 u") auto
    define t where "t = snd (rdr dev FST v)"
    have t: "cp_idle t = cp_idle u" using cp_get_fifo [OF v] by (simp add: t_def)
    have IH: "cp_idle u' = cp_idle y" if "rec dev y = Some (Done (r, u'))" for y
      using 1(1) [OF that] by simp
    show "cp_idle u' = cp_idle u"
      using 1(2) x v t
      by (auto simp: split_def Let_def prod_eq_iff t_def [symmetric] split: option.splits if_splits
          dest!: IH cp_recv_body)
  qed
qed

lemma cp_recv: "mrp_recv dev u = Some (Done (r, u')) \<Longrightarrow> cp_idle u' = cp_idle u"
  using cp_recv_scan [of dev "snd (rdr dev FST (u\<lparr>deci_in := Some 0\<rparr>))"]
  by (auto simp: mrp_recv_def split_def Let_def prod_eq_iff split: if_splits)

lemma cp_reset: "cp_idle u \<Longrightarrow> cp_idle (snd (mrp_reset u))"
proof -
  have c: "ucast ((x :: u16) AND NOT (ucast MRPF_CPBUSY)) AND MRPF_CPBUSY = 0" for x
    by (rule bit_word_eqI) (auto simp: bit_simps mrpf_defs)
  then show "cp_idle u \<Longrightarrow> cp_idle (snd (mrp_reset u))"
    by (simp add: mrp_reset_def Let_def cp_idle_def flag_def wrr_eq unit_ops ringbuf_clear_def c)
qed

lemma cp_bootp: "mrp_bootp dev u = Done x \<Longrightarrow> cp_idle u \<longrightarrow> cp_idle (snd x)"
  by (auto simp: mrp_bootp_def Let_def split_def cp_idle_clear split: run.splits if_splits
      dest!: cp_put_fifo)

lemma cp_cps: "cp_idle u \<Longrightarrow> mrp_cps dev u = u"
  by (simp add: mrp_cps_def cp_idle_def)

lemma cp_cpr: "cp_idle (mrp_cpr dev u) = cp_idle u"
  by (simp add: mrp_cpr_def Let_def split_def)

lemma cp_intr_other: "mrp_intr_other dev stat u = Done u' \<Longrightarrow> cp_idle u \<Longrightarrow> cp_idle u'"
  using cp_reset [of "andr dev RST (0x2000 OR 0x4000) u"]
  by (auto simp: mrp_intr_other_def Let_def cp_cpr cp_cps cp_idle_clear split: if_splits run.splits
      dest!: cp_bootp)

lemma cp_intr_fifo: "mrp_intr_fifo dev stat u = Some (Done u') \<Longrightarrow> cp_idle u \<Longrightarrow> cp_idle u'"
  by (auto simp: mrp_intr_fifo_def Let_def cp_idle_clear split: if_splits run.splits option.splits
      dest!: cp_recv)

lemma cp_interrupt:
  assumes "cp_idle u" "mrp_interrupt dev i u = Some (Done u')"
  shows "cp_idle u'"
proof (cases "i < 4")
  case True
  obtain h n where w: "writes h = writes (mbus u)" and e: "mrp_interrupt dev i u =
       (case intr_stat dev u of
          None \<Rightarrow> Some (Done (u\<lparr>nintr := n, mbus := h\<rparr>))
        | Some stat \<Rightarrow>
            if stat AND MRP_STATF_RECV = 0 \<and> stat AND MRP_STATF_WAKE = 0
            then Some (mrp_intr_other dev stat (u\<lparr>nintr := n, mbus := h\<rparr>))
            else mrp_intr_fifo dev stat (u\<lparr>nintr := n, mbus := h\<rparr>))"
    using interrupt_eq [OF True] by blast
  have "cp_idle (u\<lparr>nintr := n, mbus := h\<rparr>)"
    using assms(1) writes_to_of_writes [OF w] by (subst cp_idle_bus) simp_all
  then show ?thesis
    using assms(2) e cp_intr_other cp_intr_fifo by (auto split: option.splits if_splits)
next
  case False
  then show ?thesis using assms by (simp add: mrp_interrupt_def)
qed

lemma cp_send: "cp_idle u \<Longrightarrow> mrp_send dev u = Done (n, u') \<Longrightarrow> cp_idle u'"
  using cp_put_fifo [of dev _ "slen u" u] unfolding mrp_send_def by fastforce

interpretation cp: unit_property dev cp_idle for dev
proof unfold_locales
  fix u f assume "cp_idle u" "f \<in> {MRPF_REQTAG, MRPF_CPOPEN, MRPF_OPENED}"
  then show "cp_idle (set_flag f u)" by (auto simp: mrpf_defs)
next
  fix u assume "cp_idle u"
  then show "cp_idle (mrp_cps dev u)" by (simp add: cp_cps)
qed ((rule cp_interrupt cp_send cp_reset cp_idle_clear; assumption) | simp)+

section \<open>Properties of all executions\<close>

text \<open>
  In every interleaving of interrupts and file operations, calls that sleep included, all four
  units keep the invariant they start with.
\<close>

theorem psnet_units_consistent:
  assumes "(psnet_step dev)\<^sup>*\<^sup>* s s'" "\<forall>i. unit_ok (mrp_units s i)"
  shows "\<forall>i. unit_ok (mrp_units s' i)"
  using assms by (rule ok.steps_all)

lemma demo_step:
  "(psnet_step (feed_dev [] 0))\<^sup>*\<^sup>* (demo_psnet demo_pkt)
     (mrp_release 0 (snd (mrp_open (feed_dev [] 0) 0x40 (demo_psnet demo_pkt))))"
proof -
  have "psnet_step (feed_dev [] 0) (demo_psnet demo_pkt) (snd (mrp_open (feed_dev [] 0) 0x40 (demo_psnet demo_pkt)))"
    by (rule step_open) (rule prod.collapse [symmetric])
  then show ?thesis
    using step_release by (meson converse_rtranclp_into_rtranclp r_into_rtranclp)
qed

theorem psnet_units_consistent_witness:
  "\<forall>i. unit_ok (mrp_units (mrp_release 0 (snd (mrp_open (feed_dev [] 0) 0x40 (demo_psnet demo_pkt)))) i)"
  using psnet_units_consistent [OF demo_step] demo_unit_ok by simp

text \<open>
  C26: the outgoing control plane is dead. In every interleaving of interrupts and file operations
  that starts with the send rings empty, the CPBUSY flag is never set, no byte ever gets into a
  send ring, and no unit ever writes its CPR register: what a process writes to the control device
  never reaches the board.
\<close>

theorem control_plane_never_sends:
  assumes "(psnet_step dev)\<^sup>*\<^sup>* s s'"
    and "\<forall>i. \<not> flag MRPF_CPBUSY (mrp_units s i) \<and> count (sendring (mrp_units s i)) = 0
           \<and> writes_to CPR (mbus (mrp_units s i)) = []"
  shows "\<forall>i. \<not> flag MRPF_CPBUSY (mrp_units s' i) \<and> count (sendring (mrp_units s' i)) = 0
           \<and> writes_to CPR (mbus (mrp_units s' i)) = []"
  using cp.steps_all [OF assms(1)] assms(2) by (simp add: cp_idle_def)

theorem control_plane_never_sends_witness:
  "\<forall>i. writes_to CPR (mbus (mrp_units
     (mrp_release 0 (snd (mrp_open (feed_dev [] 0) 0x40 (demo_psnet demo_pkt)))) i)) = []"
  using control_plane_never_sends [OF demo_step]
  by (simp add: demo_unit_def flag_def mrpf_defs zero_ring_def)

end
