(* ===== verification/Vsprintf.thy ===== *)
theory Vsprintf
  imports Kprelude
begin

text \<open>
  The formatted output of the kernel, \<^verbatim>\<open>lib/vsprintf.c\<close>: \<^verbatim>\<open>number\<close>, \<^verbatim>\<open>vsprintf\<close> and the parser
  \<^verbatim>\<open>simple_strtoul\<close>. A C string is the list of its characters before the terminating NUL; the
  argument list is a list of 32-bit words and strings. Taking an argument that is not there, or
  is of the other kind, is \<^verbatim>\<open>None\<close>. Widths and precisions are unbounded integers.
\<close>

section \<open>Characters\<close>

definition cval :: "char \<Rightarrow> nat" where "cval c = of_char c"

definition is_digit :: "char \<Rightarrow> bool" where
  "is_digit c \<longleftrightarrow> cval CHR ''0'' \<le> cval c \<and> cval c \<le> cval CHR ''9''"

text \<open>The classes of \<^verbatim>\<open>lib/ctype.c\<close> that the parser uses.\<close>

definition isxdigit :: "char \<Rightarrow> bool" where
  "isxdigit c \<longleftrightarrow> is_digit c \<or> (65 \<le> cval c \<and> cval c \<le> 70) \<or> (97 \<le> cval c \<and> cval c \<le> 102)"

definition islower :: "char \<Rightarrow> bool" where
  "islower c \<longleftrightarrow> (97 \<le> cval c \<and> cval c \<le> 122) \<or> (223 \<le> cval c \<and> cval c \<le> 255 \<and> cval c \<noteq> 247)"

definition toupper_val :: "char \<Rightarrow> nat" where
  "toupper_val c = (if islower c then cval c - 32 else cval c)"

section \<open>Parsing a number\<close>

definition digit_value :: "char \<Rightarrow> nat" where
  "digit_value c =
     (if is_digit c then cval c - cval CHR ''0''
      else (if islower c then toupper_val c else cval c) - cval CHR ''A'' + 10)"

fun strtoul_loop :: "u32 \<Rightarrow> u32 \<Rightarrow> string \<Rightarrow> u32 \<times> string" where
  "strtoul_loop base result [] = (result, [])"
| "strtoul_loop base result (c # cp) =
     (if isxdigit c \<and> of_nat (digit_value c) < base
      then strtoul_loop base (result * base + of_nat (digit_value c)) cp
      else (result, c # cp))"

text \<open>The value and the rest of the string (\<^verbatim>\<open>*endp\<close>).\<close>

definition at :: "string \<Rightarrow> nat \<Rightarrow> (char \<Rightarrow> bool) \<Rightarrow> bool" where
  "at s i p \<longleftrightarrow> i < length s \<and> p (s ! i)"

definition simple_strtoul :: "string \<Rightarrow> u32 \<Rightarrow> u32 \<times> string" where
  "simple_strtoul cp base =
     (if base = 0 then
        if at cp 0 (\<lambda>c. c = CHR ''0'') then
          if at cp 1 (\<lambda>c. c = CHR ''x'') \<and> at cp 2 isxdigit then strtoul_loop 16 0 (drop 2 cp)
          else strtoul_loop 8 0 (drop 1 cp)
        else strtoul_loop 10 0 cp
      else strtoul_loop base 0 cp)"

section \<open>Printing a number\<close>

definition ZEROPAD :: u32 where "ZEROPAD = 1"
definition SIGN :: u32 where "SIGN = 2"
definition PLUS :: u32 where "PLUS = 4"
definition SPACE :: u32 where "SPACE = 8"
definition LEFT :: u32 where "LEFT = 16"
definition SPECIAL :: u32 where "SPECIAL = 32"
definition LARGE :: u32 where "LARGE = 64"

lemmas fmt_flag_defs [flag_defs] =
  ZEROPAD_def SIGN_def PLUS_def SPACE_def LEFT_def SPECIAL_def LARGE_def

definition has :: "u32 \<Rightarrow> u32 \<Rightarrow> bool" where
  "has type m \<longleftrightarrow> type AND m \<noteq> 0"

definition digits_of :: "bool \<Rightarrow> string" where
  "digits_of large = (if large then ''0123456789ABCDEFGHIJKLMNOPQRSTUVWXYZ''
     else ''0123456789abcdefghijklmnopqrstuvwxyz'')"

text \<open>\<^verbatim>\<open>while (num != 0) tmp[i++] = digits[do_div(num,base)]\<close>: least significant digit first.\<close>

fun div_digits :: "nat \<Rightarrow> nat \<Rightarrow> nat list" where
  "div_digits base num = (if num = 0 \<or> base < 2 then [] else num mod base # div_digits base (num div base))"

declare div_digits.simps [simp del]

text \<open>A counted loop \<^verbatim>\<open>while (size-- > 0) *str++ = c\<close>: what it writes and the size it leaves.\<close>

definition pad :: "int \<Rightarrow> char \<Rightarrow> string \<times> int" where
  "pad sz c = (replicate (nat sz) c, if sz > 0 then - 1 else sz - 1)"

definition number :: "u32 \<Rightarrow> nat \<Rightarrow> int \<Rightarrow> int \<Rightarrow> u32 \<Rightarrow> string option" where
  "number num base sz precision type =
     (let digits = digits_of (has type LARGE);
          type = (if has type LEFT then type AND NOT ZEROPAD else type)
      in if base < 2 \<or> base > 36 then None
         else
           let c = (if has type ZEROPAD then CHR ''0'' else CHR '' '');
               (sign, num, sz) =
                 (if has type SIGN then
                    if sint num < 0 then ([CHR ''-''], - num, sz - 1)
                    else if has type PLUS then ([CHR ''+''], num, sz - 1)
                    else if has type SPACE then ([CHR '' ''], num, sz - 1)
                    else ([], num, sz)
                  else ([], num, sz));
               sz = (if has type SPECIAL
                       then if base = 16 then sz - 2 else if base = 8 then sz - 1 else sz
                       else sz);
               tmp = (if num = 0 then [0] else div_digits base (unat num));
               i = int (length tmp);
               precision = (if i > precision then i else precision);
               sz = sz - precision;
               (s1, sz) = (if \<not> has type (ZEROPAD + LEFT) then pad sz CHR '' '' else ([], sz));
               s2 = (if has type SPECIAL
                     then if base = 8 then ''0'' else if base = 16 then [CHR ''0'', digits ! 33] else []
                     else []);
               (s3, sz) = (if \<not> has type LEFT then pad sz c else ([], sz));
               s4 = replicate (nat (precision - i)) CHR ''0'';
               s5 = map (\<lambda>d. digits ! d) (rev tmp);
               (s6, sz) = pad sz CHR '' ''
           in Some (s1 @ sign @ s2 @ s3 @ s4 @ s5 @ s6))"

section \<open>Formats\<close>

datatype varg = AInt u32 | AStr "string option"

text \<open>The stores made by \<^verbatim>\<open>%n\<close>: address and count.\<close>

record vout =
  vstr :: string
  vstores :: "(u32 \<times> nat) list"

definition emit :: "string \<Rightarrow> vout \<Rightarrow> vout" where
  "emit s v = v\<lparr>vstr := vstr v @ s\<rparr>"

fun parse_flags :: "u32 \<Rightarrow> string \<Rightarrow> u32 \<times> string" where
  "parse_flags flags (c # fmt) =
     (if c = CHR ''-'' then parse_flags (flags OR LEFT) fmt
      else if c = CHR ''+'' then parse_flags (flags OR PLUS) fmt
      else if c = CHR '' '' then parse_flags (flags OR SPACE) fmt
      else if c = CHR ''#'' then parse_flags (flags OR SPECIAL) fmt
      else if c = CHR ''0'' then parse_flags (flags OR ZEROPAD) fmt
      else (flags, c # fmt))"
| "parse_flags flags [] = (flags, [])"

fun skip_atoi :: "int \<Rightarrow> string \<Rightarrow> int \<times> string" where
  "skip_atoi i (c # s) =
     (if is_digit c then skip_atoi (i * 10 + (int (cval c) - 48)) s else (i, c # s))"
| "skip_atoi i [] = (i, [])"

definition starts :: "(char \<Rightarrow> bool) \<Rightarrow> string \<Rightarrow> bool" where
  "starts p fmt \<longleftrightarrow> (case fmt of [] \<Rightarrow> False | c # _ \<Rightarrow> p c)"

text \<open>\<^verbatim>\<open>va_arg(args, int)\<close>.\<close>

fun va_int :: "varg list \<Rightarrow> (u32 \<times> varg list) option" where
  "va_int (AInt w # args) = Some (w, args)"
| "va_int _ = None"

fun va_str :: "varg list \<Rightarrow> (string option \<times> varg list) option" where
  "va_str (AStr s # args) = Some (s, args)"
| "va_str _ = None"

text \<open>Field width, then precision: value (-1 for none), flags, rest of format and arguments.\<close>

definition get_width :: "u32 \<Rightarrow> string \<Rightarrow> varg list \<Rightarrow> (int \<times> u32 \<times> string \<times> varg list) option" where
  "get_width flags fmt args =
     (if starts is_digit fmt then let (w, fmt) = skip_atoi 0 fmt in Some (w, flags, fmt, args)
      else if starts (\<lambda>c. c = CHR ''*'') fmt then
        (case va_int args of
           None \<Rightarrow> None
         | Some (w, args) \<Rightarrow>
             if sint w < 0 then Some (sint (- w), flags OR LEFT, tl fmt, args)
             else Some (sint w, flags, tl fmt, args))
      else Some (- 1, flags, fmt, args))"

definition get_precision :: "string \<Rightarrow> varg list \<Rightarrow> (int \<times> string \<times> varg list) option" where
  "get_precision fmt args =
     (if starts (\<lambda>c. c = CHR ''.'') fmt then
        let fmt = tl fmt
        in if starts is_digit fmt then let (p, fmt) = skip_atoi 0 fmt in Some (p, fmt, args)
           else if starts (\<lambda>c. c = CHR ''*'') fmt then
             (case va_int args of
                None \<Rightarrow> None
              | Some (w, args) \<Rightarrow> Some (max 0 (sint w), tl fmt, args))
           else Some (0, fmt, args)
      else Some (- 1, fmt, args))"

text \<open>\<^verbatim>\<open>strnlen\<close>, whose \<^verbatim>\<open>size_t\<close> bound of -1 is no bound.\<close>

definition strnlen :: "string \<Rightarrow> int \<Rightarrow> nat" where
  "strnlen s n = (if n < 0 then length s else min (length s) (nat n))"

definition conv_char :: "u32 \<Rightarrow> int \<Rightarrow> u32 \<Rightarrow> string" where
  "conv_char flags field_width w =
     (let (l, field_width) = (if \<not> has flags LEFT then pad (field_width - 1) CHR '' '' else ([], field_width));
          (r, field_width) = pad (field_width - 1) CHR '' ''
      in l @ [char_of (unat (ucast w :: u8))] @ r)"

definition conv_str :: "u32 \<Rightarrow> int \<Rightarrow> int \<Rightarrow> string option \<Rightarrow> string" where
  "conv_str flags field_width precision so =
     (let s = (case so of None \<Rightarrow> ''<NULL>'' | Some s \<Rightarrow> s);
          len = strnlen s precision;
          (l, rest) = (if \<not> has flags LEFT then pad (field_width - int len) CHR '' ''
                       else ([], field_width - int len));
          (r, rest) = pad rest CHR '' ''
      in l @ take len s @ r)"

text \<open>The integer argument as \<^verbatim>\<open>number\<close> gets it: the qualifier \<^verbatim>\<open>h\<close> keeps 16 bits.\<close>

definition arg_num :: "bool \<Rightarrow> u32 \<Rightarrow> u32 \<Rightarrow> u32" where
  "arg_num short flags w =
     (if short then if has flags SIGN then scast (ucast w :: u16) else ucast (ucast w :: u16) else w)"

definition conv_num ::
    "u32 \<Rightarrow> int \<Rightarrow> int \<Rightarrow> bool \<Rightarrow> nat \<Rightarrow> string \<Rightarrow> varg list \<Rightarrow> vout \<Rightarrow> (string \<times> varg list \<times> vout) option" where
  "conv_num flags field_width precision short base fmt args v =
     (case va_int args of
        None \<Rightarrow> None
      | Some (w, args) \<Rightarrow>
          (case number (arg_num short flags w) base field_width precision flags of
             None \<Rightarrow> None
           | Some s \<Rightarrow> Some (fmt, args, emit s v)))"

text \<open>
  One conversion, from behind the \<^verbatim>\<open>%\<close> to behind the conversion letter: the rest of the format,
  the rest of the arguments and the output.
\<close>

definition vs_letter ::
    "u32 \<Rightarrow> int \<Rightarrow> int \<Rightarrow> bool \<Rightarrow> string \<Rightarrow> varg list \<Rightarrow> vout \<Rightarrow> (string \<times> varg list \<times> vout) option" where
  "vs_letter flags field_width precision short fmt0 args v =
     (let c = hd fmt0; fmt = tl fmt0
      in if fmt0 = [] then Some ([], args, emit ''%'' v)
         else if c = CHR ''c'' then
           map_option (\<lambda>(w, args). (fmt, args, emit (conv_char flags field_width w) v)) (va_int args)
         else if c = CHR ''s'' then
           map_option (\<lambda>(so, args). (fmt, args, emit (conv_str flags field_width precision so) v)) (va_str args)
         else if c = CHR ''p'' then
           (if field_width = - 1 then conv_num (flags OR ZEROPAD) 8 precision False 16 fmt args v
            else conv_num flags field_width precision False 16 fmt args v)
         else if c = CHR ''n'' then
           map_option (\<lambda>(p, args). (fmt, args, v\<lparr>vstores := vstores v @ [(p, length (vstr v))]\<rparr>)) (va_int args)
         else if c = CHR ''o'' then conv_num flags field_width precision short 8 fmt args v
         else if c = CHR ''X'' then conv_num (flags OR LARGE) field_width precision short 16 fmt args v
         else if c = CHR ''x'' then conv_num flags field_width precision short 16 fmt args v
         else if c = CHR ''d'' \<or> c = CHR ''i'' then
           conv_num (flags OR SIGN) field_width precision short 10 fmt args v
         else if c = CHR ''u'' then conv_num flags field_width precision short 10 fmt args v
         else Some (fmt, args, emit ((if c \<noteq> CHR ''%'' then ''%'' else []) @ [c]) v))"

definition vs_conv :: "string \<Rightarrow> varg list \<Rightarrow> vout \<Rightarrow> (string \<times> varg list \<times> vout) option" where
  "vs_conv fmt0 args0 v =
     (case get_width (fst (parse_flags 0 fmt0)) (snd (parse_flags 0 fmt0)) args0 of
        None \<Rightarrow> None
      | Some (field_width, flags, fmt2, args1) \<Rightarrow>
          (case get_precision fmt2 args1 of
             None \<Rightarrow> None
           | Some (precision, fmt3, args) \<Rightarrow>
               vs_letter flags field_width precision (starts (\<lambda>c. c = CHR ''h'') fmt3)
                 (if starts (\<lambda>c. c = CHR ''h'' \<or> c = CHR ''l'' \<or> c = CHR ''L'') fmt3 then tl fmt3 else fmt3)
                 args v))"

lemma parse_flags_length: "length (snd (parse_flags f s)) \<le> length s"
  by (induction f s rule: parse_flags.induct) (auto simp: le_SucI)

lemma skip_atoi_length: "length (snd (skip_atoi i s)) \<le> length s"
  by (induction i s rule: skip_atoi.induct) (auto simp: le_SucI)

lemma get_width_length: "get_width fl s as = Some (w, fl', s', as') \<Longrightarrow> length s' \<le> length s"
  using skip_atoi_length [of 0 s]
  by (auto simp: get_width_def split_def Let_def split: if_splits option.splits)

lemma get_precision_length: "get_precision s as = Some (p, s', as') \<Longrightarrow> length s' \<le> length s"
  using skip_atoi_length [of 0 "tl s"]
  by (fastforce simp: get_precision_def split_def Let_def split: if_splits option.splits)

lemma conv_num_rest: "conv_num fl w p sh b s as v = Some (s', as', v') \<Longrightarrow> s' = s"
  by (auto simp: conv_num_def split: option.splits)

lemma vs_letter_length: "vs_letter fl w p sh s as v = Some (s', as', v') \<Longrightarrow> length s' \<le> length s"
  by (auto simp: vs_letter_def Let_def split: if_splits dest!: conv_num_rest)

lemma vs_conv_length:
  assumes "vs_conv s as v = Some (s', as', v')"
  shows "length s' \<le> length s"
proof -
  obtain w fl2 s2 as2 where g: "get_width (fst (parse_flags 0 s)) (snd (parse_flags 0 s)) as = Some (w, fl2, s2, as2)"
    using assms unfolding vs_conv_def
    by (cases "get_width (fst (parse_flags 0 s)) (snd (parse_flags 0 s)) as") auto
  obtain pr s3 as3 where q: "get_precision s2 as2 = Some (pr, s3, as3)"
    using assms g unfolding vs_conv_def by (cases "get_precision s2 as2") auto
  have "length s' \<le> length (if starts (\<lambda>c. c = CHR ''h'' \<or> c = CHR ''l'' \<or> c = CHR ''L'') s3 then tl s3 else s3)"
    using assms g q vs_letter_length unfolding vs_conv_def by auto
  also have "\<dots> \<le> length s3" by simp
  also have "\<dots> \<le> length s2" by (rule get_precision_length [OF q])
  also have "\<dots> \<le> length (snd (parse_flags 0 s))" by (rule get_width_length [OF g])
  also have "\<dots> \<le> length s" by (rule parse_flags_length)
  finally show ?thesis .
qed

function vs_loop :: "string \<Rightarrow> varg list \<Rightarrow> vout \<Rightarrow> vout option" where
  "vs_loop [] args v = Some v"
| "vs_loop (c # fmt) args v =
     (if c \<noteq> CHR ''%'' then vs_loop fmt args (emit [c] v)
      else case vs_conv fmt args v of
             None \<Rightarrow> None
           | Some (fmt, args, v) \<Rightarrow> vs_loop fmt args v)"
  by pat_completeness auto
termination
  by (relation "measure (\<lambda>(f, _, _). length f)") (auto dest!: vs_conv_length)

text \<open>The text written and its length, the return value.\<close>

definition vsprintf :: "string \<Rightarrow> varg list \<Rightarrow> (int \<times> string) option" where
  "vsprintf fmt args =
     map_option (\<lambda>v. (int (length (vstr v)), vstr v)) (vs_loop fmt args \<lparr>vstr = [], vstores = []\<rparr>)"

definition sprintf :: "string \<Rightarrow> varg list \<Rightarrow> (int \<times> string) option" where
  "sprintf fmt args = vsprintf fmt args"

text \<open>The text alone, for a call whose format and arguments are known to fit.\<close>

definition print :: "string \<Rightarrow> varg list \<Rightarrow> string" where
  "print fmt args = (case sprintf fmt args of None \<Rightarrow> [] | Some (n, t) \<Rightarrow> t)"

section \<open>Printing and parsing are inverse\<close>

lemma digit_char_table:
  "list_all (\<lambda>d. isxdigit (digits_of False ! d) \<and> digit_value (digits_of False ! d) = d) [0..<16]"
  "list_all (\<lambda>d. isxdigit (digits_of True ! d) \<and> digit_value (digits_of True ! d) = d) [0..<16]"
  by code_simp+

lemma digit_char: "d < 16 \<Longrightarrow> isxdigit (digits_of l ! d) \<and> digit_value (digits_of l ! d) = d"
  using digit_char_table by (cases l) (simp_all add: list_all_iff)

lemma div_digits_less: "d \<in> set (div_digits base n) \<Longrightarrow> d < base"
proof (induction base n rule: div_digits.induct)
  case (1 base n)
  then show ?case by (subst (asm) (2) div_digits.simps) (auto split: if_splits)
qed

lemma div_digits_value:
  assumes "2 \<le> base"
  shows "foldl (\<lambda>r d. r * base + d) 0 (rev (div_digits base n)) = n"
  using assms
proof (induction base n rule: div_digits.induct)
  case (1 base n)
  then show ?case by (subst div_digits.simps) (auto simp: not_less)
qed

lemma div_digits_length:
  assumes "2 \<le> base" "n < base ^ k"
  shows "length (div_digits base n) \<le> k"
  using assms
proof (induction k arbitrary: n)
  case (Suc k)
  have "n div base < base ^ k" using Suc.prems by (simp add: less_mult_imp_div_less mult.commute)
  then show ?case using Suc.IH [of "n div base"] Suc.prems(1) by (subst div_digits.simps) auto
qed (simp add: div_digits.simps)

lemma strtoul_loop_digits:
  assumes "list_all (\<lambda>d. d < base) ds" "base \<le> 16"
  shows "strtoul_loop (of_nat base) r (map ((!) (digits_of l)) ds @ rest) =
    strtoul_loop (of_nat base) (foldl (\<lambda>r d. r * of_nat base + of_nat d) r ds) rest"
  using assms
proof (induction ds arbitrary: r)
  case (Cons d ds)
  then have "d < base" "base \<le> 16" by simp_all
  moreover from this have "(of_nat d :: u32) < of_nat base"
    by (simp add: word_less_nat_alt unat_of_nat)
  ultimately show ?case using Cons digit_char [of d l] by simp
qed simp

lemma foldl_of_nat:
  "foldl (\<lambda>r d. r * of_nat base + of_nat d) (of_nat r) ds
   = (of_nat (foldl (\<lambda>r d. r * base + d) r ds) :: 'a::comm_semiring_1)"
proof (induction ds arbitrary: r)
  case (Cons d ds)
  have "of_nat r * of_nat base + of_nat d = (of_nat (r * base + d) :: 'a)" by simp
  then show ?case using Cons by (simp del: of_nat_add of_nat_mult)
qed simp

lemma foldl_zeros: "foldl (\<lambda>r d. r * b + d) 0 (replicate k 0 @ ds) = foldl (\<lambda>r d. r * b + d) (0 :: nat) ds"
  by (induction k) auto

definition no_more_digits :: "nat \<Rightarrow> string \<Rightarrow> bool" where
  "no_more_digits base rest \<longleftrightarrow> \<not> starts (\<lambda>c. isxdigit c \<and> digit_value c < base) rest"

lemma strtoul_loop_stop:
  assumes "no_more_digits base rest" "base \<le> 16"
  shows "strtoul_loop (of_nat base) r rest = (r, rest)"
proof (cases rest)
  case (Cons c cp)
  have "\<not> (of_nat (digit_value c) :: u32) < of_nat base" if "isxdigit c" 
  proof -
    have "cval c < 256" by (simp add: cval_def)
    then have "digit_value c < 300" by (auto simp: digit_value_def toupper_val_def)
    then show ?thesis using that assms Cons
      by (simp add: no_more_digits_def starts_def word_less_nat_alt unat_of_nat)
  qed
  then show ?thesis using Cons by auto
qed simp

text \<open>The digits \<^verbatim>\<open>number\<close> prints, with any number of zeros in front, parse to the number.\<close>

lemma strtoul_loop_number:
  assumes "2 \<le> base" "base \<le> 16" "no_more_digits base rest"
  shows "strtoul_loop (of_nat base) 0
     (replicate k CHR ''0'' @ map ((!) (digits_of l)) (rev (if n = 0 then [0] else div_digits base (unat n))) @ rest)
   = (n, rest)"
proof -
  define ds where "ds = replicate k 0 @ rev (if n = 0 then [0] else div_digits base (unat n))"
  have z: "digits_of l ! 0 = CHR ''0''" by (cases l) (simp_all add: digits_of_def)
  have less: "list_all (\<lambda>d. d < base) ds"
    using assms(1) div_digits_less [of _ base "unat n"] by (auto simp: ds_def list_all_iff)
  have "foldl (\<lambda>r d. r * base + d) 0 ds = unat n"
    using div_digits_value [OF assms(1), of "unat n"] unfolding ds_def foldl_zeros by auto
  then have "foldl (\<lambda>r d. r * of_nat base + of_nat d) (of_nat 0) ds = n"
    unfolding foldl_of_nat by simp
  then have "foldl (\<lambda>r d. r * of_nat base + of_nat d) 0 ds = n" by simp
  moreover have "replicate k CHR ''0'' @ map ((!) (digits_of l)) (rev (if n = 0 then [0] else div_digits base (unat n))) @ rest
      = map ((!) (digits_of l)) ds @ rest"
    using z by (simp add: ds_def)
  ultimately show ?thesis
    using strtoul_loop_digits [OF less assms(2), of 0 l rest] strtoul_loop_stop [OF assms(3,2)]
    by (simp only:)
qed


definition number_digits :: "bool \<Rightarrow> nat \<Rightarrow> u32 \<Rightarrow> string" where
  "number_digits l base n = map ((!) (digits_of l)) (rev (if n = 0 then [0] else div_digits base (unat n)))"

definition number_prefix :: "u32 \<Rightarrow> nat \<Rightarrow> string" where
  "number_prefix type base =
     (if has type SPECIAL
      then if base = 8 then ''0'' else if base = 16 then [CHR ''0'', digits_of (has type LARGE) ! 33] else []
      else [])"

definition number_sign :: "u32 \<Rightarrow> u32 \<Rightarrow> string" where
  "number_sign type n =
     (if has type SIGN
      then if sint n < 0 then ''-'' else if has type PLUS then ''+'' else if has type SPACE then '' '' else []
      else [])"

definition number_abs :: "u32 \<Rightarrow> u32 \<Rightarrow> u32" where
  "number_abs type n = (if has type SIGN \<and> sint n < 0 then - n else n)"

text \<open>What \<^verbatim>\<open>number\<close> writes: fill and text in the order the flags ask for.\<close>

definition number_text :: "u32 \<Rightarrow> nat \<Rightarrow> int \<Rightarrow> int \<Rightarrow> u32 \<Rightarrow> string" where
  "number_text n base sz p type =
     (let sg = number_sign type n; px = number_prefix type base;
          ds = number_digits (has type LARGE) base (number_abs type n);
          zs = replicate (nat p - length ds) CHR ''0'';
          fill = replicate (nat sz - length (sg @ px @ zs @ ds))
      in if has type LEFT then sg @ px @ zs @ ds @ fill CHR '' ''
         else if has type ZEROPAD then sg @ px @ fill CHR ''0'' @ zs @ ds
         else fill CHR '' '' @ sg @ px @ zs @ ds)"

lemma has_pad: "has type (ZEROPAD + LEFT) \<longleftrightarrow> has type ZEROPAD \<or> has type LEFT"
proof -
  have "ZEROPAD + LEFT = ZEROPAD OR LEFT" by (simp add: fmt_flag_defs)
  moreover have "type AND (ZEROPAD OR LEFT) = 0 \<longleftrightarrow> type AND ZEROPAD = 0 \<and> type AND LEFT = 0"
    by (simp add: bit.conj_disj_distrib or_eq_0_iff)
  ultimately show ?thesis by (simp add: has_def)
qed

lemma has_left_only:
  "has (if has type LEFT then type AND NOT ZEROPAD else type) ZEROPAD \<longleftrightarrow> has type ZEROPAD \<and> \<not> has type LEFT"
  "ZEROPAD AND m = 0 \<Longrightarrow> has (if has type LEFT then type AND NOT ZEROPAD else type) m \<longleftrightarrow> has type m"
  by (simp_all add: has_def clear_and_other)

lemma zeropad_disjoint:
  "ZEROPAD AND SIGN = 0" "ZEROPAD AND PLUS = 0" "ZEROPAD AND SPACE = 0" "ZEROPAD AND LEFT = 0"
  "ZEROPAD AND SPECIAL = 0" "ZEROPAD AND LARGE = 0"
  by (simp_all add: fmt_flag_defs)

lemma number_sign_split:
  "(if has type SIGN then
      if sint n < 0 then ([CHR ''-''], - n, sz - 1)
      else if has type PLUS then ([CHR ''+''], n, sz - 1)
      else if has type SPACE then ([CHR '' ''], n, sz - 1)
      else ([], n, sz)
    else ([], n, sz))
   = (number_sign type n, number_abs type n, sz - int (length (number_sign type n)))"
  by (simp add: number_sign_def number_abs_def)

lemma number_prefix_size:
  "(if has type SPECIAL then if base = 16 then sz - 2 else if base = 8 then sz - 1 else sz else sz)
   = sz - int (length (number_prefix type base))"
  by (simp add: number_prefix_def)

lemma pad_after: "pad (snd (pad sz c)) d = ([], snd (pad sz c) - 1)"
  by (simp add: pad_def)

lemma number_left_only:
  "number_sign (if has type LEFT then type AND NOT ZEROPAD else type) n = number_sign type n"
  "number_abs (if has type LEFT then type AND NOT ZEROPAD else type) n = number_abs type n"
  "number_prefix (if has type LEFT then type AND NOT ZEROPAD else type) base = number_prefix type base"
  unfolding number_sign_def number_abs_def number_prefix_def
  by (simp_all only: zeropad_disjoint [THEN has_left_only(2)])

lemma number_fill:
  fixes len p :: int and a b d :: nat
  shows "nat (sz - int a - int b - (if int d > p then int d else p)) = nat sz - (a + (b + ((nat p - d) + d)))"
    "nat ((if int d > p then int d else p) - int d) = nat p - d"
  by auto

lemma number_eq:
  assumes "2 \<le> base" "base \<le> 36"
  shows "number n base sz p type = Some (number_text n base sz p type)"
proof -
  define ds where "ds = (if number_abs type n = 0 then [0] else div_digits base (unat (number_abs type n)))"
  have nb: "\<not> (base < 2 \<or> base > 36)" using assms by simp
  have ds: "number_digits (has type LARGE) base (number_abs type n) = map ((!) (digits_of (has type LARGE))) (rev ds)"
    by (simp add: number_digits_def ds_def)
  have px: "(if has type SPECIAL
       then if base = 8 then ''0'' else if base = 16 then [CHR ''0'', digits_of (has type LARGE) ! 33] else []
       else []) = number_prefix type base"
    by (simp add: number_prefix_def)
  show ?thesis
    unfolding number_def number_text_def Let_def number_sign_split prod.case number_prefix_size number_left_only
    unfolding has_left_only zeropad_disjoint [THEN has_left_only(2)] has_pad px ds ds_def [symmetric]
    using nb
    by (simp add: pad_def number_fill)
qed

lemma number_digits_length:
  assumes "2 \<le> base"
  shows "1 \<le> length (number_digits l base n)" "length (number_digits l base n) \<le> 32"
proof -
  have "unat n \<noteq> 0 \<Longrightarrow> div_digits base (unat n) \<noteq> []"
    using assms by (simp add: div_digits.simps [of base "unat n"])
  then show "1 \<le> length (number_digits l base n)"
    by (auto simp: number_digits_def unat_eq_zero Suc_le_eq)
  have "unat n < 2 ^ 32" by (rule unat_u32_less)
  also have "\<dots> \<le> base ^ 32" using assms by (rule power_mono) simp
  finally show "length (number_digits l base n) \<le> 32"
    using div_digits_length [OF assms, of "unat n" 32] by (auto simp: number_digits_def)
qed

lemma number_digits_bound:
  assumes "2 \<le> base" "unat n < base ^ k" "0 < k"
  shows "length (number_digits l base n) \<le> k"
  using div_digits_length [OF assms(1,2)] assms(3) by (auto simp: number_digits_def)

lemma number_digits_hex:
  assumes "2 \<le> base" "base \<le> 16"
  shows "list_all isxdigit (number_digits l base n)"
proof -
  have "d < 16" if "d \<in> set (div_digits base (unat n))" for d
    using div_digits_less [OF that] assms(2) by simp
  then show ?thesis
    using digit_char by (auto simp: number_digits_def list_all_iff)
qed

lemma number_text_length:
  "length (number_text n base sz p type) =
     max (nat sz) (length (number_sign type n) + length (number_prefix type base)
       + max (nat p) (length (number_digits (has type LARGE) base (number_abs type n))))"
  by (auto simp: number_text_def Let_def max_def)

lemma replicate_twice: "replicate a c @ replicate b c @ xs = replicate (a + b) c @ xs"
  by (simp add: replicate_add)

lemma strtoul_prefixed:
  assumes "0 < base" "base \<le> 16" "has type SPECIAL \<Longrightarrow> base = 8 \<or> base = 16 \<and> \<not> has type LARGE"
    and "isxdigit c"
  shows "simple_strtoul (number_prefix type base @ c # s) (if has type SPECIAL then 0 else of_nat base)
    = strtoul_loop (of_nat base) 0 (c # s)"
proof (cases "has type SPECIAL")
  case False
  have "unat (of_nat base :: u32) = base" using assms(2) by (simp add: unat_of_nat)
  then have "(of_nat base :: u32) \<noteq> 0" using assms(1) by (metis less_irrefl unat_0)
  then show ?thesis using False by (simp add: number_prefix_def simple_strtoul_def)
next
  case True
  have x: "digits_of False ! 33 = CHR ''x''" by code_simp
  have "c \<noteq> CHR ''x''" using assms(4) by (auto simp: isxdigit_def is_digit_def cval_def)
  then show ?thesis using True assms(3,4) x
    by (auto simp: number_prefix_def simple_strtoul_def at_def simp del: strtoul_loop.simps)
qed

text \<open>
  C11: what \<^verbatim>\<open>number\<close> prints without a sign, unpadded or padded with zeros, \<^verbatim>\<open>simple_strtoul\<close> reads back as
  the same number up to the first character that is no digit: in the base it was printed in, or, when the
  prefix of \<^verbatim>\<open>%#o\<close> or \<^verbatim>\<open>%#x\<close> was asked for, with the base left to the parser.
\<close>
theorem number_strtoul:
  assumes "2 \<le> base" "base \<le> 16" "\<not> has type SIGN" "\<not> has type LEFT" "has type ZEROPAD \<or> sz \<le> 1"
    and "has type SPECIAL \<Longrightarrow> base = 8 \<or> base = 16 \<and> \<not> has type LARGE"
    and "no_more_digits base rest"
  shows "\<exists>s. number n base sz p type = Some s \<and>
    simple_strtoul (s @ rest) (if has type SPECIAL then 0 else of_nat base) = (n, rest)"
proof -
  define ds where "ds = number_digits (has type LARGE) base n"
  obtain k where k: "number_text n base sz p type = number_prefix type base @ replicate k CHR ''0'' @ ds"
  proof (cases "has type ZEROPAD")
    case True
    then show ?thesis
      using assms(3,4) that by (simp add: number_text_def Let_def number_sign_def number_abs_def ds_def
          replicate_twice)
  next
    case False
    then have "nat sz \<le> length ds"
      using assms(5) number_digits_length(1) [OF assms(1), of "has type LARGE" n] by (simp add: ds_def)
    then show ?thesis
      using assms(3,4) that False
      by (simp add: number_text_def Let_def number_sign_def number_abs_def ds_def [symmetric])
  qed
  obtain c t where c: "replicate k CHR ''0'' @ ds @ rest = c # t" "isxdigit c"
  proof (cases k)
    case 0
    have "ds \<noteq> []" "list_all isxdigit ds"
      using number_digits_length(1) [OF assms(1), of "has type LARGE" n] number_digits_hex [OF assms(1,2)]
      by (auto simp: ds_def)
    with 0 that show ?thesis by (cases ds) auto
  next
    case (Suc k)
    have "isxdigit CHR ''0''" by code_simp
    with Suc that show ?thesis by simp
  qed
  show ?thesis
    using number_eq [of base n sz p type] strtoul_loop_number [OF assms(1,2,7), of k "has type LARGE" n] assms(1,2)
      strtoul_prefixed [of base type c t] assms(6) c
    unfolding k ds_def number_digits_def by simp
qed

theorem number_strtoul_witness:
  "\<exists>s. number 0xbeef 16 8 (- 1) (ZEROPAD OR SPECIAL) = Some s \<and> simple_strtoul (s @ '' ok'') 0 = (0xbeef, '' ok'')"
proof -
  have "no_more_digits 16 '' ok''" by code_simp
  then show ?thesis
    using number_strtoul [of 16 "ZEROPAD OR SPECIAL" 8 "'' ok''" "0xbeef" "- 1"]
    by (simp add: has_def fmt_flag_defs)
qed

text \<open>
  the text of a number fills its field and never more than it needs: its length is the larger of the field
  width and of sign, prefix and digits together, and the digits themselves are at most 32, so that the local
  array of 66 characters is never overrun.
\<close>
theorem number_width:
  assumes "2 \<le> base" "base \<le> 36"
  shows "\<exists>s k. number n base sz p type = Some s
    \<and> k = length (if number_abs type n = 0 then [0] else div_digits base (unat (number_abs type n)))
    \<and> 1 \<le> k \<and> k \<le> 32
    \<and> length s = max (nat sz) (length (number_sign type n) + length (number_prefix type base) + max (nat p) k)"
  using number_eq [OF assms, of n sz p type] number_text_length [of n base sz p type]
    number_digits_length [OF assms(1), of "has type LARGE" "number_abs type n"]
  by (simp add: number_digits_def)

theorem number_width_witness:
  "\<exists>s. number (- 5) 10 8 (- 1) SIGN = Some s \<and> length s = 8"
proof -
  have "number_abs SIGN (- 5) = 5" "number_sign SIGN (- 5) = ''-''" "number_prefix SIGN 10 = []"
    by (simp_all add: number_abs_def number_sign_def number_prefix_def has_def fmt_flag_defs)
  then show ?thesis
    using number_width [of 10 "- 5" 8 "- 1" SIGN] by (auto simp: div_digits.simps)
qed

text \<open>Running \<^verbatim>\<open>sprintf\<close> on a given format by simplification, and a literal start of a format.\<close>

lemmas sprintf_eval =
  sprintf_def vsprintf_def vs_conv_def get_width_def get_precision_def starts_def vs_letter_def conv_num_def
  conv_char_def conv_str_def pad_def strnlen_def number_eq arg_num_def emit_def is_digit_def cval_def
  fmt_flag_defs has_def Let_def

lemma vs_loop_literal:
  "CHR ''%'' \<notin> set lit \<Longrightarrow> vs_loop (lit @ fmt) args v = vs_loop fmt args (emit lit v)"
  by (induction lit arbitrary: v) (auto simp: emit_def)

text \<open>
  The prefix of \<^verbatim>\<open>%#X\<close> is \<^verbatim>\<open>0X\<close>, which \<^verbatim>\<open>simple_strtoul\<close> does not know: it reads the zero and stops.
\<close>

lemma number_large_hex:
  assumes "has type SPECIAL" "has type LARGE" "\<not> has type SIGN" "\<not> has type LEFT" "has type ZEROPAD"
  shows "\<exists>s. number n 16 sz p type = Some s \<and> simple_strtoul s 0 = (0, tl s)"
proof -
  have x: "digits_of True ! 33 = CHR ''X''" by code_simp
  have "\<not> isxdigit CHR ''X''" by code_simp
  then show ?thesis using assms x
    by (simp add: number_eq number_text_def Let_def number_sign_def number_prefix_def simple_strtoul_def at_def)
qed

end
