(* ===== verification/Ioports.thy ===== *)
theory Ioports
  imports Vsprintf
begin

text \<open>
  The registry of I/O port regions, \<^verbatim>\<open>kernel/resource.c\<close>. Its entries are a table of 128 slots,
  linked into a list sorted by port; a slot with \<^verbatim>\<open>num\<close> 0 is free. The links are modelled as the
  code has them, as pointers into the table: an address is \<^verbatim>\<open>None\<close> for the list head \<^verbatim>\<open>iolist\<close> and
  \<^verbatim>\<open>Some i\<close> for \<^verbatim>\<open>&iotable[i]\<close>; a link is \<^verbatim>\<open>None\<close> for null. Interrupt masking around the search has no
  effect on its result and is left out; \<^verbatim>\<open>iolog\<close> records the calls of \<^verbatim>\<open>printk\<close>. The loops follow the links, so they are partial functions,
  and that they return is part of what is shown.
\<close>

section \<open>The registry\<close>

definition IOTABLE_SIZE :: nat where "IOTABLE_SIZE = 128"

record resource_entry =
  rfrom :: u32
  rnum :: u32
  rname :: string
  rnext :: "nat option"

record ioports =
  iohead :: "nat option"
  iotable :: "nat \<Rightarrow> resource_entry"
  iolog :: "string list"

text \<open>\<^verbatim>\<open>p->next\<close>, and storing it.\<close>

definition nxt :: "ioports \<Rightarrow> nat option \<Rightarrow> nat option" where
  "nxt s p = (case p of None \<Rightarrow> iohead s | Some i \<Rightarrow> rnext (iotable s i))"

definition set_nxt :: "nat option \<Rightarrow> nat option \<Rightarrow> ioports \<Rightarrow> ioports" where
  "set_nxt p l s =
     (case p of None \<Rightarrow> s\<lparr>iohead := l\<rparr>
      | Some i \<Rightarrow> s\<lparr>iotable := (iotable s)(i := (iotable s i)\<lparr>rnext := l\<rparr>)\<rparr>)"

text \<open>The last port of an entry, \<^verbatim>\<open>p->from+p->num-1\<close>.\<close>

definition rlast :: "ioports \<Rightarrow> nat \<Rightarrow> u32" where
  "rlast s i = rfrom (iotable s i) + rnum (iotable s i) - 1"

section \<open>Operations\<close>

text \<open>The search loop, from the address \<^verbatim>\<open>p\<close>; the inner \<^verbatim>\<open>None\<close> is its null result.\<close>

partial_function (option) gap_loop ::
    "ioports \<Rightarrow> u32 \<Rightarrow> u32 \<Rightarrow> nat option \<Rightarrow> nat option option option" where
  "gap_loop s from num p =
     (if p \<noteq> None \<and> rlast s (the p) \<ge> from then Some None
      else case nxt s p of
             None \<Rightarrow> Some (Some p)
           | Some q \<Rightarrow>
               if rfrom (iotable s q) > from + num - 1 then Some (Some p)
               else gap_loop s from num (Some q))"

definition find_gap :: "ioports \<Rightarrow> u32 \<Rightarrow> u32 \<Rightarrow> nat option option option" where
  "find_gap s from num =
     (if from > from + num - 1 then Some None else gap_loop s from num None)"

definition free_slot :: "ioports \<Rightarrow> nat option" where
  "free_slot s = find (\<lambda>i. rnum (iotable s i) = 0) [0..<IOTABLE_SIZE]"

definition request_region :: "u32 \<Rightarrow> u32 \<Rightarrow> string \<Rightarrow> ioports \<Rightarrow> ioports option" where
  "request_region from num name s =
     (case free_slot s of
        None \<Rightarrow> Some (s\<lparr>iolog := iolog s @ [''warning: ioport table is full\<newline>'']\<rparr>)
      | Some i \<Rightarrow>
          (case find_gap s from num of
             None \<Rightarrow> None
           | Some None \<Rightarrow> Some s
           | Some (Some p) \<Rightarrow>
               let s = s\<lparr>iotable := (iotable s)(i :=
                     \<lparr>rfrom = from, rnum = num, rname = name, rnext = nxt s p\<rparr>)\<rparr>
               in Some (set_nxt p (Some i) s)))"

partial_function (option) release_loop :: "u32 \<Rightarrow> u32 \<Rightarrow> ioports \<Rightarrow> nat option \<Rightarrow> ioports option" where
  "release_loop from num s p =
     (case nxt s p of
        None \<Rightarrow> Some s
      | Some q \<Rightarrow>
          if rfrom (iotable s q) = from \<and> rnum (iotable s q) = num then
            let s = s\<lparr>iotable := (iotable s)(q := (iotable s q)\<lparr>rnum := 0\<rparr>)\<rparr>
            in Some (set_nxt p (rnext (iotable s q)) s)
          else release_loop from num s (Some q))"

definition release_region :: "u32 \<Rightarrow> u32 \<Rightarrow> ioports \<Rightarrow> ioports option" where
  "release_region from num s = release_loop from num s None"

definition check_region :: "ioports \<Rightarrow> u32 \<Rightarrow> u32 \<Rightarrow> int option" where
  "check_region s from num =
     map_option (\<lambda>p. if p = None then - EBUSY else 0) (find_gap s from num)"

text \<open>\<^verbatim>\<open>reserve_setup\<close>: the boot option \<^verbatim>\<open>reserve=\<close>; \<^verbatim>\<open>ints[0]\<close> is the number of its values.\<close>

function reserve_loop :: "(int \<Rightarrow> int) \<Rightarrow> int \<Rightarrow> ioports \<Rightarrow> ioports option" where
  "reserve_loop ints i s =
     (if i < ints 0 then
        (case request_region (word_of_int (ints i)) (word_of_int (ints (i + 1))) ''reserved'' s of
           None \<Rightarrow> None
         | Some s \<Rightarrow> reserve_loop ints (i + 2) s)
      else Some s)"
  by pat_completeness auto
termination
  by (relation "measure (\<lambda>(ints, i, _). nat (ints 0 - i))") auto

declare reserve_loop.simps [simp del]

definition reserve_setup :: "(int \<Rightarrow> int) \<Rightarrow> ioports \<Rightarrow> ioports option" where
  "reserve_setup ints s = reserve_loop ints 1 s"

text \<open>\<^verbatim>\<open>/proc/ioports\<close>: the text and its length; \<^verbatim>\<open>None\<close> if the walk does not end.\<close>

partial_function (option) ioport_lines ::
    "ioports \<Rightarrow> nat option \<Rightarrow> string \<Rightarrow> (nat option \<times> string) option" where
  "ioport_lines s p text =
     (case p of
        None \<Rightarrow> Some (p, text)
      | Some i \<Rightarrow>
          if length text < 4000 then
            (case sprintf ''%04lx-%04lx : %s\<newline>''
                    [AInt (rfrom (iotable s i)), AInt (rlast s i), AStr (Some (rname (iotable s i)))] of
               None \<Rightarrow> None
             | Some (n, t) \<Rightarrow> ioport_lines s (rnext (iotable s i)) (text @ t))
          else Some (p, text))"

definition get_ioport_list :: "ioports \<Rightarrow> (int \<times> string) option" where
  "get_ioport_list s =
     (case ioport_lines s (iohead s) [] of
        None \<Rightarrow> None
      | Some (p, text) \<Rightarrow>
          let text = (if p \<noteq> None then text @ ''4K limit reached!\<newline>'' else text)
          in Some (int (length text), text))"

section \<open>Linked lists in the table\<close>

text \<open>The links from \<^verbatim>\<open>l\<close> lead through the slots \<^verbatim>\<open>xs\<close> to the link \<^verbatim>\<open>m\<close>.\<close>

fun lpath :: "ioports \<Rightarrow> nat option \<Rightarrow> nat list \<Rightarrow> nat option \<Rightarrow> bool" where
  "lpath s l [] m \<longleftrightarrow> l = m"
| "lpath s l (x # xs) m \<longleftrightarrow> l = Some x \<and> lpath s (rnext (iotable s x)) xs m"

lemma lpath_append: "lpath s l (xs @ ys) m \<longleftrightarrow> (\<exists>k. lpath s l xs k \<and> lpath s k ys m)"
  by (induction xs arbitrary: l) auto

lemma lpath_cong:
  "(\<And>x. x \<in> set xs \<Longrightarrow> rnext (iotable s x) = rnext (iotable s' x)) \<Longrightarrow> lpath s l xs m = lpath s' l xs m"
  by (induction xs arbitrary: l) auto

definition last_addr :: "nat list \<Rightarrow> nat option" where
  "last_addr xs = (if xs = [] then None else Some (last xs))"

lemma nxt_last_addr: "lpath s (iohead s) xs m \<Longrightarrow> nxt s (last_addr xs) = m"
  by (cases xs rule: rev_cases) (auto simp: last_addr_def nxt_def lpath_append)

text \<open>Linking a slot in behind the slots \<^verbatim>\<open>pre\<close>, and unlinking the slot behind them.\<close>

lemma lpath_insert:
  assumes "lpath s (iohead s) (pre @ post) None" "distinct (pre @ post)" "i \<notin> set (pre @ post)"
    and "rnext e = nxt s (last_addr pre)"
    and "s' = set_nxt (last_addr pre) (Some i) (s\<lparr>iotable := (iotable s)(i := e)\<rparr>)"
  shows "lpath s' (iohead s') (pre @ i # post) None"
proof (cases pre rule: rev_cases)
  case Nil
  have "lpath s' (iohead s) post None = lpath s (iohead s) post None"
    using assms(3) by (intro lpath_cong) (auto simp: assms(5) Nil last_addr_def set_nxt_def)
  then show ?thesis
    using assms(1,4) by (simp add: assms(5) Nil last_addr_def set_nxt_def nxt_def)
next
  case (snoc pre' a)
  have ia: "i \<noteq> a" "a \<notin> set pre'" "a \<notin> set post" "i \<notin> set pre'" "i \<notin> set post"
    using assms(2,3) snoc by auto
  have 1: "lpath s' l pre' m = lpath s l pre' m" "lpath s' l post m = lpath s l post m" for l m
    using ia by (intro lpath_cong; auto simp: assms(5) snoc last_addr_def set_nxt_def)+
  show ?thesis
    using assms(1,4) ia 1 unfolding snoc
    by (simp add: lpath_append assms(5) snoc last_addr_def set_nxt_def nxt_def)
qed

lemma lpath_remove:
  assumes "lpath s (iohead s) (pre @ i # post) None" "distinct (pre @ i # post)"
    and "\<And>x. rnext (iotable t x) = rnext (iotable s x)" "iohead t = iohead s"
    and "s' = set_nxt (last_addr pre) (rnext (iotable s i)) t"
  shows "lpath s' (iohead s') (pre @ post) None"
proof (cases pre rule: rev_cases)
  case Nil
  have "lpath s' l post None = lpath s l post None" for l
    using assms(3) by (intro lpath_cong) (simp add: assms(5) Nil last_addr_def set_nxt_def)
  then show ?thesis
    using assms(1) by (simp add: assms(5) Nil last_addr_def set_nxt_def)
next
  case (snoc pre' a)
  have ia: "i \<noteq> a" "a \<notin> set pre'" "a \<notin> set post" using assms(2) snoc by auto
  have 1: "lpath s' l pre' m = lpath s l pre' m" "lpath s' l post m = lpath s l post m" for l m
    using ia assms(3) by (intro lpath_cong; auto simp: assms(5) snoc last_addr_def set_nxt_def)+
  show ?thesis
    using assms(1,4) ia 1 unfolding snoc
    by (auto simp: lpath_append assms(5) snoc last_addr_def set_nxt_def)
qed

section \<open>The loops on a linked list\<close>

definition below :: "ioports \<Rightarrow> u32 \<Rightarrow> u32 \<Rightarrow> nat list \<Rightarrow> nat list" where
  "below s from num xs = takeWhile (\<lambda>j. rfrom (iotable s j) \<le> from + num - 1) xs"

lemma gap_loop_path:
  assumes "lpath s (nxt s p) ys None"
  shows "gap_loop s from num p =
    Some (if (p \<noteq> None \<and> from \<le> rlast s (the p)) \<or> (\<exists>j \<in> set (below s from num ys). from \<le> rlast s j) then None
          else Some (last (p # map Some (below s from num ys))))"
  using assms
proof (induction ys arbitrary: p)
  case Nil
  then show ?case by (subst gap_loop.simps) (simp add: below_def)
next
  case (Cons y ys)
  then have "nxt s p = Some y" "lpath s (nxt s (Some y)) ys None" by (simp_all add: nxt_def)
  then show ?case
    using Cons.IH [of "Some y"] by (subst gap_loop.simps) (auto simp: below_def not_less)
qed

lemma last_map_addr: "last (None # map Some xs) = last_addr xs"
  by (cases xs rule: rev_cases) (simp_all add: last_addr_def)

lemma find_gap_path:
  assumes "lpath s (iohead s) ys None"
  shows "find_gap s from num =
    Some (if from > from + num - 1 \<or> (\<exists>j \<in> set (below s from num ys). from \<le> rlast s j) then None
          else Some (last_addr (below s from num ys)))"
  using assms gap_loop_path [of s None ys "from" num] unfolding last_map_addr
  by (simp add: find_gap_def nxt_def)

definition other_region :: "ioports \<Rightarrow> u32 \<Rightarrow> u32 \<Rightarrow> nat \<Rightarrow> bool" where
  "other_region s from num j \<longleftrightarrow> \<not> (rfrom (iotable s j) = from \<and> rnum (iotable s j) = num)"

lemma release_loop_path:
  assumes "lpath s (nxt s p) ys None"
  shows "release_loop from num s p =
    (case dropWhile (other_region s from num) ys of
       [] \<Rightarrow> Some s
     | q # _ \<Rightarrow> Some (set_nxt (last (p # map Some (takeWhile (other_region s from num) ys)))
           (rnext (iotable s q)) (s\<lparr>iotable := (iotable s)(q := (iotable s q)\<lparr>rnum := 0\<rparr>)\<rparr>)))"
  using assms
proof (induction ys arbitrary: p)
  case Nil
  then show ?case by (subst release_loop.simps) simp
next
  case (Cons y ys)
  then have "nxt s p = Some y" "lpath s (nxt s (Some y)) ys None" by (simp_all add: nxt_def)
  then show ?case
  proof (cases "other_region s from num y")
    case True
    then have "\<not> (rfrom (iotable s y) = from \<and> rnum (iotable s y) = num)" by (simp add: other_region_def)
    then have "release_loop from num s p = release_loop from num s (Some y)"
      using \<open>nxt s p = Some y\<close> by (subst release_loop.simps) auto
    then show ?thesis
      using Cons.IH [of "Some y"] \<open>lpath s (nxt s (Some y)) ys None\<close> True by (simp only: takeWhile.simps dropWhile.simps list.map if_True last_ConsR list.distinct not_False_eq_True)
  next
    case False
    then have "rfrom (iotable s y) = from" "rnum (iotable s y) = num" by (simp_all add: other_region_def)
    then show ?thesis
      using \<open>nxt s p = Some y\<close> False by (subst release_loop.simps) (simp add: Let_def)
  qed
qed

lemma release_region_path:
  assumes "lpath s (iohead s) ys None"
  shows "release_region from num s =
    (case dropWhile (other_region s from num) ys of
       [] \<Rightarrow> Some s
     | q # _ \<Rightarrow> Some (set_nxt (last_addr (takeWhile (other_region s from num) ys))
           (rnext (iotable s q)) (s\<lparr>iotable := (iotable s)(q := (iotable s q)\<lparr>rnum := 0\<rparr>)\<rparr>)))"
  using assms release_loop_path [of s None ys "from" num] unfolding last_map_addr
  by (simp add: release_region_def nxt_def)

section \<open>The invariant\<close>

text \<open>The first and the last port of the region in slot \<^verbatim>\<open>i\<close>, as numbers.\<close>

definition lo :: "ioports \<Rightarrow> nat \<Rightarrow> nat" where
  "lo s i = unat (rfrom (iotable s i))"

definition hi :: "ioports \<Rightarrow> nat \<Rightarrow> nat" where
  "hi s i = unat (rfrom (iotable s i)) + unat (rnum (iotable s i)) - 1"

definition used :: "ioports \<Rightarrow> nat set" where
  "used s = {i. i < IOTABLE_SIZE \<and> rnum (iotable s i) \<noteq> 0}"

text \<open>
  The list through the slots \<^verbatim>\<open>xs\<close> holds exactly the used slots, and their regions are in
  ascending order without overlap.
\<close>

definition region_list :: "ioports \<Rightarrow> nat list \<Rightarrow> bool" where
  "region_list s xs \<longleftrightarrow>
     lpath s (iohead s) xs None \<and> distinct xs \<and>
     set xs = used s \<and>
     (\<forall>i \<in> set xs. hi s i < 2 ^ 32) \<and>
     sorted_wrt (\<lambda>i j. hi s i < lo s j) xs"

definition io_ok :: "ioports \<Rightarrow> bool" where
  "io_ok s \<longleftrightarrow> (\<exists>xs. region_list s xs)"

text \<open>The registered regions, each the first port and the number of ports, and the ports of a region.\<close>

definition regions :: "ioports \<Rightarrow> (u32 \<times> u32) set" where
  "regions s = (\<lambda>i. (rfrom (iotable s i), rnum (iotable s i))) ` used s"

fun region_ports :: "u32 \<times> u32 \<Rightarrow> nat set" where
  "region_ports (from, num) = {unat from ..< unat from + unat num}"

lemma iolog_frame [simp]:
  "regions (s\<lparr>iolog := l\<rparr>) = regions s" "region_list (s\<lparr>iolog := l\<rparr>) xs = region_list s xs"
proof -
  have "lpath (s\<lparr>iolog := l\<rparr>) k xs m = lpath s k xs m" for k m by (rule lpath_cong) simp
  then show "regions (s\<lparr>iolog := l\<rparr>) = regions s" "region_list (s\<lparr>iolog := l\<rparr>) xs = region_list s xs"
    by (simp_all add: regions_def region_list_def used_def hi_def lo_def)
qed

text \<open>A region that could be granted: it ends below \<open>2\<^sup>3\<^sup>2\<close> and no registered region overlaps it.\<close>

definition vacant :: "(u32 \<times> u32) set \<Rightarrow> u32 \<Rightarrow> u32 \<Rightarrow> bool" where
  "vacant R from num \<longleftrightarrow>
     unat from + unat num \<le> 2 ^ 32 \<and> (\<forall>r \<in> R. region_ports r \<inter> region_ports (from, num) = {})"

lemma last_port:
  assumes "n \<noteq> 0" "unat f + unat n \<le> 2 ^ 32"
  shows "unat (f + n - 1 :: u32) = unat f + unat n - 1"
proof -
  have n: "1 \<le> unat n" using assms(1) by (metis One_nat_def Suc_leI neq0_conv unat_eq_zero)
  have "f + n - 1 = of_nat (unat f + unat n - 1)"
    using n by (simp add: of_nat_diff)
  moreover have "unat f + unat n - 1 < 2 ^ 32" using assms(2) n by simp
  ultimately show ?thesis by (simp add: unat_of_nat)
qed

lemma region_order: "rnum (iotable s i) \<noteq> 0 \<Longrightarrow> lo s i \<le> hi s i"
  using unat_eq_zero [of "rnum (iotable s i)"] by (simp add: lo_def hi_def)

lemma unat_pos: "n \<noteq> 0 \<Longrightarrow> 0 < unat (n :: u32)"
  using unat_eq_zero [of n] by simp

lemma wrap_last:
  fixes f n :: u32
  assumes "n \<noteq> 0"
  shows "f > f + n - 1 \<longleftrightarrow> \<not> unat f + unat n \<le> 2 ^ 32"
proof (cases "unat f + unat n \<le> 2 ^ 32")
  case True
  then show ?thesis
    using last_port [OF assms True] unat_pos [OF assms] unfolding word_less_nat_alt by simp
next
  case False
  have n: "1 \<le> unat n" using unat_pos [OF assms] by simp
  have "f + n - 1 = of_nat (unat f + unat n - 1)" using n by (simp add: of_nat_diff)
  then have "unat (f + n - 1) = (unat f + unat n - 1) mod 2 ^ 32" by (simp add: unat_of_nat)
  also have "\<dots> = unat f + unat n - 1 - 2 ^ 32"
    using False n unat_u32_less [of f] unat_u32_less [of n] by (subst le_mod_geq) simp_all
  also have "\<dots> < unat f" using False n unat_u32_less [of n] by simp
  finally show ?thesis using False unfolding word_less_nat_alt by simp
qed

lemma takeWhile_sorted:
  "sorted_wrt (\<lambda>i j. P j \<longrightarrow> P i) xs \<Longrightarrow> takeWhile P xs = filter P xs"
  by (induction xs) (auto simp: filter_empty_conv)

lemma region_sorted:
  assumes "region_list s xs"
  shows "sorted_wrt (\<lambda>i j. lo s i \<le> lo s j) xs"
proof (rule sorted_wrt_mono_rel [of xs "\<lambda>i j. hi s i < lo s j"])
  fix i j assume "i \<in> set xs" "hi s i < lo s j"
  then show "lo s i \<le> lo s j"
    using assms region_order [of s i] by (auto simp: region_list_def used_def)
qed (use assms in \<open>simp add: region_list_def\<close>)

lemma below_filter:
  assumes "region_list s xs"
  shows "below s from num xs = filter (\<lambda>j. rfrom (iotable s j) \<le> from + num - 1) xs"
  unfolding below_def
proof (rule takeWhile_sorted)
  show "sorted_wrt (\<lambda>i j. rfrom (iotable s j) \<le> from + num - 1 \<longrightarrow> rfrom (iotable s i) \<le> from + num - 1) xs"
    using region_sorted [OF assms]
    by (rule sorted_wrt_mono_rel [rotated]) (auto simp: lo_def word_le_nat_alt)
qed

lemma region_last:
  assumes "region_list s xs" "i \<in> set xs"
  shows "unat (rlast s i) = hi s i"
proof -
  have "hi s i < 2 ^ 32" "rnum (iotable s i) \<noteq> 0"
    using assms by (auto simp: region_list_def used_def)
  then show ?thesis
    using last_port [of "rnum (iotable s i)" "rfrom (iotable s i)"]
    unfolding rlast_def hi_def by simp
qed

text \<open>What the search finds in a consistent registry.\<close>

lemma find_gap_vacant:
  assumes "region_list s xs" "num \<noteq> 0"
  shows "find_gap s from num =
    Some (if vacant (regions s) from num then Some (last_addr (below s from num xs)) else None)"
proof -
  have path: "lpath s (iohead s) xs None" and set: "set xs = used s"
    using assms(1) by (simp_all add: region_list_def)
  have "(\<exists>j \<in> set (below s from num xs). from \<le> rlast s j)
      \<longleftrightarrow> \<not> (\<forall>r \<in> regions s. region_ports r \<inter> region_ports (from, num) = {})"
    if fits: "unat from + unat num \<le> 2 ^ 32"
  proof -
    have "rfrom (iotable s j) \<le> from + num - 1 \<and> from \<le> rlast s j
        \<longleftrightarrow> region_ports (rfrom (iotable s j), rnum (iotable s j)) \<inter> region_ports (from, num) \<noteq> {}"
      if "j \<in> used s" for j
    proof -
      have "0 < unat num" "0 < unat (rnum (iotable s j))"
        using assms(2) that unat_pos by (auto simp: used_def)
      then show ?thesis
        using last_port [OF assms(2) fits] region_last [OF assms(1), of j] that set
        by (auto simp: word_le_nat_alt hi_def)
    qed
    then show ?thesis
      by (auto simp: below_filter [OF assms(1)] set regions_def)
  qed
  then show ?thesis
    unfolding find_gap_path [OF path] vacant_def wrap_last [OF assms(2)] by auto
qed

text \<open>Two slots never hold overlapping regions.\<close>

lemma region_apart:
  assumes "region_list s xs" "i \<in> used s" "j \<in> used s" "i \<noteq> j"
  shows "hi s i < lo s j \<or> hi s j < lo s i"
proof -
  have "\<forall>i \<in> set xs. \<forall>j \<in> set xs. i \<noteq> j \<longrightarrow> hi s i < lo s j \<or> hi s j < lo s i"
    if "sorted_wrt (\<lambda>i j. hi s i < lo s j) xs"
    using that by (induction xs) auto
  then show ?thesis using assms by (simp add: region_list_def)
qed

lemma regs_inj:
  assumes "region_list s xs" "i \<in> used s" "j \<in> used s"
    and "rfrom (iotable s i) = rfrom (iotable s j)" "rnum (iotable s i) = rnum (iotable s j)"
  shows "i = j"
proof (rule ccontr)
  assume "i \<noteq> j"
  then show False
    using region_apart [OF assms(1-3)] region_order [of s j] assms(3-5) by (auto simp: used_def lo_def hi_def)
qed

section \<open>The operations implement the set of regions\<close>

lemma sorted_region:
  assumes "sorted_wrt (\<lambda>i j. hi s i < lo s j) ys" "\<And>j. j \<in> set ys \<Longrightarrow> lo s' j = lo s j \<and> hi s' j = hi s j"
  shows "sorted_wrt (\<lambda>i j. hi s' i < lo s' j) ys"
  using assms(1) by (rule sorted_wrt_mono_rel [rotated]) (simp add: assms(2))

lemma free_slot_some: "free_slot s = Some i \<Longrightarrow> i < IOTABLE_SIZE \<and> i \<notin> used s"
  by (auto simp: free_slot_def find_Some_iff used_def)

lemma last_addr_below: "xs = pre @ post \<Longrightarrow> last_addr pre = Some a \<Longrightarrow> a \<in> set xs"
  by (auto simp: last_addr_def split: if_splits)

lemma request_region_granted:
  assumes ok: "region_list s xs" and num: "num \<noteq> 0" and slot: "free_slot s = Some i"
    and vac: "vacant (regions s) from num"
  shows "\<exists>s' xs'. request_region from num name s = Some s' \<and> region_list s' xs'
    \<and> regions s' = insert (from, num) (regions s)"
proof -
  define pre where "pre = below s from num xs"
  define post where "post = dropWhile (\<lambda>j. rfrom (iotable s j) \<le> from + num - 1) xs"
  have xs: "xs = pre @ post" by (simp add: pre_def post_def below_def)
  have path: "lpath s (iohead s) (pre @ post) None" and dist: "distinct (pre @ post)"
    and set: "set (pre @ post) = used s" and high: "\<forall>j \<in> used s. hi s j < 2 ^ 32"
    and sorted: "sorted_wrt (\<lambda>i j. hi s i < lo s j) (pre @ post)"
    using ok xs by (auto simp: region_list_def)
  have i: "i < IOTABLE_SIZE" "i \<notin> used s" using free_slot_some [OF slot] by simp_all
  define e where "e = \<lparr>rfrom = from, rnum = num, rname = name, rnext = nxt s (last_addr pre)\<rparr>"
  define s' where "s' = set_nxt (last_addr pre) (Some i) (s\<lparr>iotable := (iotable s)(i := e)\<rparr>)"
  have req: "request_region from num name s = Some s'"
    using find_gap_vacant [OF ok num, of "from"] vac
    by (simp add: request_region_def slot pre_def [symmetric] s'_def e_def)
  have path': "lpath s' (iohead s') (pre @ i # post) None"
  proof (rule lpath_insert [OF path dist _ _ s'_def])
    show "i \<notin> set (pre @ post)" unfolding set by (rule i)
  qed (simp add: e_def)
  have fields: "rfrom (iotable s' j) = (if j = i then from else rfrom (iotable s j))"
    "rnum (iotable s' j) = (if j = i then num else rnum (iotable s j))" for j
    using i last_addr_below [of xs pre post] xs set
    by (auto simp: s'_def e_def set_nxt_def split: option.splits)
  have used: "used s' = insert i (used s)" using i num by (auto simp: used_def fields)
  have lohi: "lo s' j = (if j = i then unat from else lo s j)"
    "hi s' j = (if j = i then unat from + unat num - 1 else hi s j)" for j
    by (simp_all add: lo_def hi_def fields)
  have fits: "unat from + unat num \<le> 2 ^ 32" using vac by (simp add: vacant_def)
  have apart: "hi s j < unat from \<or> unat from + unat num - 1 < lo s j" if "j \<in> used s" for j
  proof -
    have "0 < unat (rnum (iotable s j))" using that unat_pos by (auto simp: used_def)
    moreover have "region_ports (rfrom (iotable s j), rnum (iotable s j)) \<inter> region_ports (from, num) = {}"
      using vac that by (auto simp: vacant_def regions_def)
    ultimately show ?thesis using unat_pos [OF num] by (auto simp: lo_def hi_def)
  qed
  have in_pre: "j \<in> set pre \<longleftrightarrow> j \<in> used s \<and> lo s j \<le> unat from + unat num - 1" for j
    using last_port [OF num fits] ok
    unfolding pre_def below_filter [OF ok] word_le_nat_alt lo_def by (auto simp: region_list_def)
  then have "hi s j < unat from" if "j \<in> set pre" for j
    using apart [of j] that by fastforce
  moreover have "unat from + unat num - 1 < lo s j" if "j \<in> set post" for j
    using that in_pre [of j] dist set by fastforce
  moreover have "sorted_wrt (\<lambda>i j. hi s' i < lo s' j) pre" "sorted_wrt (\<lambda>i j. hi s' i < lo s' j) post"
  proof -
    have "sorted_wrt (\<lambda>i j. hi s i < lo s j) pre" "sorted_wrt (\<lambda>i j. hi s i < lo s j) post"
      using sorted by (simp_all add: sorted_wrt_append)
    moreover have "lo s' j = lo s j \<and> hi s' j = hi s j" if "j \<in> used s" for j
      using that i by (auto simp: lohi)
    ultimately show "sorted_wrt (\<lambda>i j. hi s' i < lo s' j) pre" "sorted_wrt (\<lambda>i j. hi s' i < lo s' j) post"
      using set by (auto intro!: sorted_region [of s _ s'])
  qed
  ultimately have "sorted_wrt (\<lambda>i j. hi s' i < lo s' j) (pre @ i # post)"
    using sorted i set by (auto simp: sorted_wrt_append lohi)
  then have "region_list s' (pre @ i # post)"
    using path' dist i set high fits unat_pos [OF num] by (auto simp: region_list_def used lohi)
  moreover have "regions s' = insert (from, num) (regions s)"
    using i by (auto simp: regions_def used fields)
  ultimately show ?thesis using req by blast
qed

lemma release_region_some:
  assumes ok: "region_list s xs" and num: "num \<noteq> 0"
  shows "\<exists>s' xs'. release_region from num s = Some s' \<and> region_list s' xs'
    \<and> regions s' = regions s - {(from, num)}"
proof -
  define pre where "pre = takeWhile (other_region s from num) xs"
  define post where "post = dropWhile (other_region s from num) xs"
  have xs: "xs = pre @ post" by (simp add: pre_def post_def)
  have path: "lpath s (iohead s) xs None" and set: "set xs = used s"
    using ok by (simp_all add: region_list_def)
  show ?thesis
  proof (cases post)
    case Nil
    then have "\<forall>j \<in> used s. other_region s from num j" using set by (simp add: post_def)
    then have "(from, num) \<notin> regions s" by (auto simp: regions_def other_region_def)
    moreover have "release_region from num s = Some s"
      using release_region_path [OF path, of "from" num] Nil by (simp only: post_def list.case)
    ultimately show ?thesis using ok by auto
  next
    case (Cons q post')
    then have q: "rfrom (iotable s q) = from" "rnum (iotable s q) = num"
      using hd_dropWhile [of "other_region s from num" xs] by (auto simp: post_def other_region_def)
    define t where "t = s\<lparr>iotable := (iotable s)(q := (iotable s q)\<lparr>rnum := 0\<rparr>)\<rparr>"
    define s' where "s' = set_nxt (last_addr pre) (rnext (iotable s q)) t"
    have rel: "release_region from num s = Some s'"
      using release_region_path [OF path, of "from" num] Cons by (simp add: post_def pre_def s'_def t_def)
    have dist: "distinct (pre @ q # post')" and sorted: "sorted_wrt (\<lambda>i j. hi s i < lo s j) (pre @ q # post')"
      and high: "\<forall>j \<in> used s. hi s j < 2 ^ 32" and path2: "lpath s (iohead s) (pre @ q # post') None"
      using ok xs Cons by (auto simp: region_list_def)
    have path': "lpath s' (iohead s') (pre @ post') None"
      using lpath_remove [OF path2 dist _ _ s'_def] by (simp add: t_def)
    have fields: "rfrom (iotable s' j) = rfrom (iotable s j)"
      "rnum (iotable s' j) = (if j = q then 0 else rnum (iotable s j))" for j
      using dist last_addr_below [of pre pre "[]"]
      by (auto simp: s'_def t_def set_nxt_def split: option.splits)
    have used: "used s' = used s - {q}" by (auto simp: used_def fields)
    have lohi: "lo s' j = lo s j" "j \<noteq> q \<Longrightarrow> hi s' j = hi s j" for j
      by (simp_all add: lo_def hi_def fields)
    have sets: "set (pre @ post') = used s - {q}" using set xs Cons dist by auto
    have "sorted_wrt (\<lambda>i j. hi s i < lo s j) (pre @ post')"
      using sorted by (auto simp: sorted_wrt_append)
    then have "sorted_wrt (\<lambda>i j. hi s' i < lo s' j) (pre @ post')"
    proof (rule sorted_region)
      fix j assume "j \<in> set (pre @ post')"
      then have "j \<noteq> q" unfolding sets by simp
      then show "lo s' j = lo s j \<and> hi s' j = hi s j" by (simp add: lohi)
    qed
    then have "region_list s' (pre @ post')"
      using path' dist sets high by (auto simp: region_list_def used lohi)
    moreover have "regions s' = regions s - {(from, num)}"
      using regs_inj [OF ok] q set xs Cons by (auto simp: regions_def used fields)
    ultimately show ?thesis using rel by blast
  qed
qed

lemma check_region_vacant:
  assumes "region_list s xs" "num \<noteq> 0"
  shows "check_region s from num = Some (if vacant (regions s) from num then 0 else - EBUSY)"
  by (simp add: check_region_def find_gap_vacant [OF assms])

lemma request_region_some:
  assumes "region_list s xs" "num \<noteq> 0"
  shows "\<exists>s' xs'. request_region from num name s = Some s' \<and> region_list s' xs'
    \<and> regions s' = (if free_slot s \<noteq> None \<and> vacant (regions s) from num then insert (from, num) (regions s) else regions s)"
proof (cases "free_slot s")
  case None
  then show ?thesis using assms(1) by (auto simp: request_region_def)
next
  case (Some i)
  show ?thesis
  proof (cases "vacant (regions s) from num")
    case True
    then show ?thesis using request_region_granted [OF assms Some True] Some by simp
  next
    case False
    then have "request_region from num name s = Some s"
      using find_gap_vacant [OF assms, of "from"] Some by (simp add: request_region_def)
    then show ?thesis using assms(1) False by auto
  qed
qed

lemma regs_disjoint:
  assumes "region_list s xs" "r \<in> regions s" "r' \<in> regions s" "r \<noteq> r'"
  shows "region_ports r \<inter> region_ports r' = {}"
proof -
  obtain i j where ij: "i \<in> used s" "j \<in> used s" "i \<noteq> j"
    and r: "r = (rfrom (iotable s i), rnum (iotable s i))" "r' = (rfrom (iotable s j), rnum (iotable s j))"
    using assms(2-4) by (auto simp: regions_def)
  then show ?thesis
    using region_apart [OF assms(1) ij] by (auto simp: lo_def hi_def)
qed

section \<open>The registry as its clients see it\<close>

datatype region_op = Request u32 u32 string | Release u32 u32

fun op_num :: "region_op \<Rightarrow> u32" where
  "op_num (Request from num name) = num"
| "op_num (Release from num) = num"

text \<open>A sequence of calls by any number of drivers.\<close>

fun run_ops ::
    "(u32 \<Rightarrow> u32 \<Rightarrow> string \<Rightarrow> 's \<Rightarrow> 's option) \<Rightarrow> (u32 \<Rightarrow> u32 \<Rightarrow> 's \<Rightarrow> 's option) \<Rightarrow> region_op list \<Rightarrow> 's \<Rightarrow> 's option" where
  "run_ops req rel [] s = Some s"
| "run_ops req rel (Request from num name # ops) s =
     (case req from num name s of None \<Rightarrow> None | Some s \<Rightarrow> run_ops req rel ops s)"
| "run_ops req rel (Release from num # ops) s =
     (case rel from num s of None \<Rightarrow> None | Some s \<Rightarrow> run_ops req rel ops s)"

locale region_registry =
  fixes req :: "u32 \<Rightarrow> u32 \<Rightarrow> string \<Rightarrow> 's \<Rightarrow> 's option"
    and rel :: "u32 \<Rightarrow> u32 \<Rightarrow> 's \<Rightarrow> 's option"
    and chk :: "'s \<Rightarrow> u32 \<Rightarrow> u32 \<Rightarrow> int option"
    and R :: "'s \<Rightarrow> (u32 \<times> u32) set"
    and inv :: "'s \<Rightarrow> bool"
  assumes req_law: "inv s \<Longrightarrow> num \<noteq> 0 \<Longrightarrow>
      \<exists>s'. req from num name s = Some s' \<and> inv s' \<and>
        (R s' = R s \<or> vacant (R s) from num \<and> R s' = insert (from, num) (R s))"
    and rel_law: "inv s \<Longrightarrow> num \<noteq> 0 \<Longrightarrow> \<exists>s'. rel from num s = Some s' \<and> inv s' \<and> R s' = R s - {(from, num)}"
    and chk_law: "inv s \<Longrightarrow> num \<noteq> 0 \<Longrightarrow>
      chk s from num = Some (if vacant (R s) from num then 0 else - EBUSY)"
begin

lemma run_keeps:
  assumes "inv s" "\<forall>x \<in> set ops. op_num x \<noteq> 0" "r \<in> R s" "Release (fst r) (snd r) \<notin> set ops"
  shows "\<exists>s'. run_ops req rel ops s = Some s' \<and> inv s' \<and> r \<in> R s'"
  using assms
proof (induction ops arbitrary: s)
  case (Cons x ops)
  show ?case
  proof (cases x)
    case (Request f n nm)
    then obtain s' where "req f n nm s = Some s'" "inv s'" "r \<in> R s'"
      using req_law [of s n f nm] Cons.prems by auto
    then show ?thesis using Cons.IH [of s'] Cons.prems Request by simp
  next
    case (Release f n)
    then obtain s' where "rel f n s = Some s'" "inv s'" "r \<in> R s'"
      using rel_law [of s n f] Cons.prems by (cases r) auto
    then show ?thesis using Cons.IH [of s'] Cons.prems Release by simp
  qed
qed simp

lemma kept_refuses:
  assumes "inv s" "r \<in> R s" "region_ports r \<inter> region_ports (f, n) \<noteq> {}"
  shows "chk s f n = Some (- EBUSY)"
proof -
  have "n \<noteq> 0" using assms(3) by (cases r) auto
  then show ?thesis using chk_law [OF assms(1)] assms(2,3) by (auto simp: vacant_def)
qed

end

interpretation io: region_registry request_region release_region check_region regions io_ok
proof unfold_locales
  fix s and "from" num :: u32 and name assume "io_ok s" "num \<noteq> 0"
  then show "\<exists>s'. request_region from num name s = Some s' \<and> io_ok s' \<and>
      (regions s' = regions s \<or> vacant (regions s) from num \<and> regions s' = insert (from, num) (regions s))"
  proof -
    assume "io_ok s" "num \<noteq> 0"
    then obtain xs s' xs' where "request_region from num name s = Some s'" "region_list s' xs'"
      "regions s' = (if free_slot s \<noteq> None \<and> vacant (regions s) from num then insert (from, num) (regions s) else regions s)"
      unfolding io_ok_def using request_region_some by blast
    then show ?thesis by (cases "free_slot s \<noteq> None \<and> vacant (regions s) from num") (auto simp: io_ok_def)
  qed
next
  fix s and "from" num :: u32 assume "io_ok s" "num \<noteq> 0"
  then show "\<exists>s'. release_region from num s = Some s' \<and> io_ok s' \<and> regions s' = regions s - {(from, num)}"
    unfolding io_ok_def using release_region_some [of s _ num "from"] by blast
next
  fix s and "from" num :: u32 assume "io_ok s" "num \<noteq> 0"
  then show "check_region s from num = Some (if vacant (regions s) from num then 0 else - EBUSY)"
    using check_region_vacant by (auto simp: io_ok_def)
qed

section \<open>Properties\<close>

text \<open>The registry at boot.\<close>

definition ioports_boot :: ioports where
  "ioports_boot = \<lparr>iohead = None, iotable = \<lambda>_. \<lparr>rfrom = 0, rnum = 0, rname = [], rnext = None\<rparr>, iolog = []\<rparr>"

lemma ioports_boot_ok: "region_list ioports_boot []" "regions ioports_boot = {}"
  by (simp_all add: region_list_def ioports_boot_def used_def regions_def)

lemma free_slot_boot: "free_slot ioports_boot = Some 0"
proof -
  have "[0..<IOTABLE_SIZE] = 0 # [1..<IOTABLE_SIZE]" by (simp add: upt_conv_Cons IOTABLE_SIZE_def)
  then show ?thesis by (simp add: free_slot_def ioports_boot_def)
qed

text \<open>
  A request for no ports. Only one for port 0 gets past the comparison in \<^verbatim>\<open>find_gap\<close>, and only while no region is registered: the entry is
  linked in but its slot counts as free, and from then on every request is refused.
\<close>

lemma empty_registry:
  assumes "region_list s xs" "regions s = {}"
  shows "xs = []" "iohead s = None" "free_slot s = Some 0"
proof -
  have u: "used s = {}" using assms(2) by (simp add: regions_def)
  then show xs: "xs = []" using assms(1) by (simp add: region_list_def)
  then show "iohead s = None" using assms(1) by (simp add: region_list_def)
  have "rnum (iotable s 0) = 0" using u by (auto simp: used_def IOTABLE_SIZE_def)
  moreover have "[0..<IOTABLE_SIZE] = 0 # [1..<IOTABLE_SIZE]" by (simp add: upt_conv_Cons IOTABLE_SIZE_def)
  ultimately show "free_slot s = Some 0" by (simp add: free_slot_def)
qed

lemma zero_region_blocks:
  assumes "region_list s xs" "regions s = {}"
  shows "check_region s 0 0 = Some 0"
    "\<exists>s'. request_region 0 0 name s = Some s' \<and> (\<forall>from num name. check_region s' from num = Some (- EBUSY) \<and> request_region from num name s' = Some s')"
proof -
  note e = empty_registry [OF assms]
  define s' where "s' = s\<lparr>iohead := Some 0, iotable := (iotable s)(0 := \<lparr>rfrom = 0, rnum = 0, rname = name, rnext = None\<rparr>)\<rparr>"
  have g: "find_gap s 0 0 = Some (Some None)"
    by (simp add: find_gap_def gap_loop.simps nxt_def e(2))
  then show "check_region s 0 0 = Some 0" by (simp add: check_region_def)
  have "request_region 0 0 name s = Some s'"
    using g by (simp add: request_region_def e(2,3) s'_def Let_def set_nxt_def nxt_def)
  moreover have "find_gap s' from num = Some None" for "from" num
  proof -
    have "lpath s' (iohead s') [0] None" by (simp add: s'_def)
    from find_gap_path [OF this] show ?thesis by (simp add: below_def s'_def rlast_def)
  qed
  moreover have "free_slot s' \<noteq> None" by (auto simp: s'_def free_slot_def find_None_iff IOTABLE_SIZE_def)
  ultimately show "\<exists>s'. request_region 0 0 name s = Some s' \<and> (\<forall>from num name. check_region s' from num = Some (- EBUSY) \<and> request_region from num name s' = Some s')"
    by (auto simp: check_region_def request_region_def)
qed

lemma no_ports_gap:
  assumes "region_list s xs" "from \<noteq> 0 \<or> regions s \<noteq> {}"
  shows "find_gap s from 0 = Some None"
proof (cases "from = 0")
  case True
  then obtain i where i: "i \<in> set xs" using assms by (auto simp: region_list_def regions_def)
  then have "i \<in> set (below s from 0 xs)" by (simp add: below_def True takeWhile_eq_all_conv [THEN iffD2])
  moreover have "lpath s (iohead s) xs None" using assms(1) by (simp add: region_list_def)
  ultimately show ?thesis using find_gap_path [of s xs "from" 0] True by auto
next
  case False
  then have "from > from + 0 - 1" using unat_pos [OF False] by (simp add: word_less_nat_alt unat_minus_one)
  then show ?thesis by (simp add: find_gap_def)
qed

lemma no_ports_release:
  assumes "region_list s xs"
  shows "release_region from 0 s = Some s" "(from, 0) \<notin> regions s"
proof -
  have "other_region s from 0 j" if "j \<in> set xs" for j
    using that assms by (auto simp: other_region_def region_list_def used_def)
  then have d: "dropWhile (other_region s from 0) xs = []" by simp
  have "lpath s (iohead s) xs None" using assms by (simp add: region_list_def)
  from release_region_path [OF this, of "from" 0] show "release_region from 0 s = Some s" unfolding d by simp
  show "(from, 0) \<notin> regions s" by (auto simp: regions_def used_def)
qed

text \<open>
  C5: the linked table implements a set of disjoint regions. From a consistent registry every call returns. A release removes exactly the region with
  that start and size and leaves the registry consistent. A request leaves it consistent and adds its region exactly if it is for at least one port, a slot is free and no registered
  region overlaps it, and a check answers whether a request would find the ports free: requests for no ports are refused. The one exception is a request for no ports
  from port 0 on an empty registry: the check allows it, and once it is made every check is refused and every further request changes nothing.
\<close>
theorem ioports_refine:
  assumes "io_ok s"
  shows "(\<exists>s'. release_region from num s = Some s' \<and> io_ok s' \<and> regions s' = regions s - {(from, num)})
    \<and> (if from = 0 \<and> num = 0 \<and> regions s = {}
       then check_region s from num = Some 0
         \<and> (\<exists>s'. request_region from num name s = Some s' \<and> (\<forall>from num name. check_region s' from num = Some (- EBUSY) \<and> request_region from num name s' = Some s'))
       else check_region s from num = Some (if num \<noteq> 0 \<and> vacant (regions s) from num then 0 else - EBUSY)
         \<and> (\<exists>s'. request_region from num name s = Some s' \<and> io_ok s'
           \<and> regions s' = (if num \<noteq> 0 \<and> free_slot s \<noteq> None \<and> vacant (regions s) from num then insert (from, num) (regions s) else regions s)))"
proof (cases "num = 0")
  obtain xs where xs: "region_list s xs" using assms(1) by (auto simp: io_ok_def)
  case False
  then show ?thesis
    using request_region_some [OF xs False, of "from" name] release_region_some [OF xs False, of "from"]
      check_region_vacant [OF xs False, of "from"]
    unfolding io_ok_def by auto
next
  obtain xs where xs: "region_list s xs" using assms(1) by (auto simp: io_ok_def)
  case True
  note rel = no_ports_release [OF xs, of "from"]
  show ?thesis
  proof (cases "from = 0 \<and> regions s = {}")
    case zero: True
    then show ?thesis using True rel assms zero_region_blocks(1) [OF xs] zero_region_blocks(2) [OF xs, of name] by simp
  next
    case False
    have "request_region from 0 name s = Some s \<or> (\<exists>l. request_region from 0 name s = Some (s\<lparr>iolog := l\<rparr>))"
      using no_ports_gap [OF xs, of "from"] False by (auto simp: request_region_def split: option.split)
    then have "\<exists>s'. request_region from 0 name s = Some s' \<and> io_ok s' \<and> regions s' = regions s"
      using assms io_ok_def iolog_frame by metis
    moreover have "check_region s from 0 = Some (- EBUSY)"
      using no_ports_gap [OF xs, of "from"] False by (auto simp: check_region_def)
    ultimately show ?thesis using True False rel assms by auto
  qed
qed

theorem ioports_refine_witness:
  "io_ok ioports_boot \<and> (\<exists>s1. request_region 0x60 16 ''kbd'' ioports_boot = Some s1 \<and> regions s1 = {(0x60, 16)}) \<and>
   (\<exists>s1. request_region 0 0 ''x'' ioports_boot = Some s1 \<and> check_region s1 0x60 16 = Some (- EBUSY))"
proof -
  have ok: "io_ok ioports_boot" using ioports_boot_ok by (auto simp: io_ok_def)
  have "free_slot ioports_boot \<noteq> None" by (simp add: free_slot_boot)
  moreover have "vacant (regions ioports_boot) 0x60 16" by (simp add: vacant_def ioports_boot_ok)
  ultimately show ?thesis
    using ok ioports_refine [OF ok, of "0x60" 16 "''kbd''"] ioports_refine [OF ok, of 0 0 "''x''"] ioports_boot_ok(2) by auto
qed

text \<open>
  C21: a registered region is its driver's own until it is released: whatever requests and releases of other
  regions follow, in any order, all of them return, and every region that shares a port with it is refused.
\<close>
theorem region_exclusive:
  assumes "io_ok s" "(from, num) \<in> regions s" "\<forall>x \<in> set ops. op_num x \<noteq> 0" "Release from num \<notin> set ops"
    and "region_ports (from, num) \<inter> region_ports (from', num') \<noteq> {}"
  shows "\<exists>s'. run_ops request_region release_region ops s = Some s' \<and> (from, num) \<in> regions s'
    \<and> check_region s' from' num' = Some (- EBUSY)"
proof -
  obtain s' where "run_ops request_region release_region ops s = Some s'" "io_ok s'" "(from, num) \<in> regions s'"
    using io.run_keeps [of s ops "(from, num)"] assms(1-4) by auto
  then show ?thesis using io.kept_refuses [OF _ _ assms(5)] by blast
qed

theorem region_exclusive_witness:
  "\<exists>s s'. request_region 0x20 0x20 ''pic1'' ioports_boot = Some s
    \<and> run_ops request_region release_region [Request 0x30 1 ''x'', Release 0x30 1, Request 0xa0 0x20 ''pic2''] s = Some s'
    \<and> check_region s' 0x3f 4 = Some (- EBUSY)"
proof -
  define ops where "ops = [Request 0x30 1 ''x'', Release 0x30 1, Request 0xa0 0x20 ''pic2'']"
  have "free_slot ioports_boot \<noteq> None \<and> vacant (regions ioports_boot) 0x20 0x20"
    by (simp add: free_slot_boot vacant_def ioports_boot_ok)
  then obtain s where s: "request_region 0x20 0x20 ''pic1'' ioports_boot = Some s" "io_ok s" "(0x20, 0x20) \<in> regions s"
    using request_region_some [OF ioports_boot_ok(1), of "0x20" "0x20" "''pic1''"] unfolding io_ok_def by auto
  have "63 \<in> region_ports (0x20, 0x20) \<inter> region_ports (0x3f, 4)" by simp
  then have "region_ports (0x20, 0x20) \<inter> region_ports (0x3f, 4) \<noteq> {}" by blast
  moreover have "\<forall>x \<in> set ops. op_num x \<noteq> 0" "Release 0x20 0x20 \<notin> set ops" by (simp_all add: ops_def)
  ultimately show ?thesis
    using region_exclusive [OF s(2,3), of ops] s(1) unfolding ops_def [symmetric] by blast
qed

end
