(* ===== verification/Irq.thy ===== *)
theory Irq
  imports Ioports
begin

text \<open>
  The interrupt lines of the i386, \<^verbatim>\<open>arch/i386/kernel/irq.c\<close> with the entry stubs of
  \<^verbatim>\<open>include/asm-i386/irq.h\<close>, uniprocessor: registration of handlers, delivery of an interrupt, and the
  probing for the line of a device. The list of actions of a line is the linked list of the source;
  handlers and \<^verbatim>\<open>dev_id\<close> pointers are numbers. What a handler does to the state of its driver is a
  parameter; a handler is taken not to register or free handlers itself. \<^verbatim>\<open>sti\<close> in the slow stub lets
  other lines interrupt a handler; here interrupts are delivered one after the other. Every byte
  written to an I/O port is recorded, most recent first.
\<close>

section \<open>State\<close>

definition SA_SHIRQ :: u32 where "SA_SHIRQ = 0x04000000"
definition SA_INTERRUPT :: u32 where "SA_INTERRUPT = 0x20000000"
definition SA_SAMPLE_RANDOM :: u32 where "SA_SAMPLE_RANDOM = 0x10000000"

lemmas sa_defs [flag_defs] = SA_SHIRQ_def SA_INTERRUPT_def SA_SAMPLE_RANDOM_def

record irqaction =
  ahandler :: nat
  aflags :: u32
  amask :: u32
  aname :: string
  adev :: nat

text \<open>Which of its three stubs the gate of a line points to.\<close>

datatype stub = BadStub | SlowStub | FastStub

type_synonym ports_out = "(u16 \<times> u8) list"

record irqs =
  irq_action :: "nat \<Rightarrow> irqaction list"
  cache_21 :: u8
  cache_A1 :: u8
  idt :: "nat \<Rightarrow> stub"
  kstat_interrupts :: "nat \<Rightarrow> u32"
  outp :: ports_out
  rand_init :: "nat list"
  rand_added :: "nat list"
  smptrap :: bool

definition outb :: "u8 \<Rightarrow> u16 \<Rightarrow> irqs \<Rightarrow> irqs" where
  "outb v port s = s\<lparr>outp := (port, v) # outp s\<rparr>"

section \<open>Masking\<close>

definition irq_bit :: "nat \<Rightarrow> u8" where
  "irq_bit irq_nr = push_bit (irq_nr mod 8) 1"

definition mask_irq :: "nat \<Rightarrow> irqs \<Rightarrow> irqs" where
  "mask_irq irq_nr s =
     (if irq_nr < 8
      then let s = s\<lparr>cache_21 := cache_21 s OR irq_bit irq_nr\<rparr> in outb (cache_21 s) 0x21 s
      else let s = s\<lparr>cache_A1 := cache_A1 s OR irq_bit irq_nr\<rparr> in outb (cache_A1 s) 0xa1 s)"

definition unmask_irq :: "nat \<Rightarrow> irqs \<Rightarrow> irqs" where
  "unmask_irq irq_nr s =
     (if irq_nr < 8
      then let s = s\<lparr>cache_21 := cache_21 s AND NOT (irq_bit irq_nr)\<rparr> in outb (cache_21 s) 0x21 s
      else let s = s\<lparr>cache_A1 := cache_A1 s AND NOT (irq_bit irq_nr)\<rparr> in outb (cache_A1 s) 0xa1 s)"

definition disable_irq :: "nat \<Rightarrow> irqs \<Rightarrow> irqs" where
  "disable_irq irq_nr s = mask_irq irq_nr s"

definition enable_irq :: "nat \<Rightarrow> irqs \<Rightarrow> irqs" where
  "enable_irq irq_nr s = unmask_irq irq_nr s"

section \<open>Registration\<close>

text \<open>\<^verbatim>\<open>!shared\<close>: point the gate to the stub of the handler's type and let the line through.\<close>

definition setup_x86_irq :: "nat \<Rightarrow> irqaction \<Rightarrow> irqs \<Rightarrow> int \<times> irqs" where
  "setup_x86_irq irq new s =
     (let old = irq_action s irq;
          shared = (old \<noteq> [])
      in if shared \<and> aflags (hd old) AND aflags new AND SA_SHIRQ = 0 then (- EBUSY, s)
         else if shared \<and> (aflags (hd old) XOR aflags new) AND SA_INTERRUPT \<noteq> 0 then (- EBUSY, s)
         else
           let s = (if aflags new AND SA_SAMPLE_RANDOM \<noteq> 0 then s\<lparr>rand_init := irq # rand_init s\<rparr> else s);
               s = s\<lparr>irq_action := (irq_action s)(irq := old @ [new])\<rparr>;
               s = (if \<not> shared then
                      unmask_irq irq (s\<lparr>idt := (idt s)(irq :=
                        if aflags new AND SA_INTERRUPT \<noteq> 0 then FastStub else SlowStub)\<rparr>)
                    else s)
           in (0, s))"

text \<open>Handler 0 is the null pointer; \<^verbatim>\<open>mem\<close> says whether \<^verbatim>\<open>kmalloc\<close> has room for the action.\<close>

definition request_irq :: "bool \<Rightarrow> nat \<Rightarrow> nat \<Rightarrow> u32 \<Rightarrow> string \<Rightarrow> nat \<Rightarrow> irqs \<Rightarrow> int \<times> irqs" where
  "request_irq mem irq handler irqflags devname dev_id s =
     (if irq > 15 then (- EINVAL, s)
      else if handler = 0 then (- EINVAL, s)
      else if \<not> mem then (- ENOMEM, s)
      else setup_x86_irq irq
        \<lparr>ahandler = handler, aflags = irqflags, amask = 0, aname = devname, adev = dev_id\<rparr> s)"

text \<open>Unlinking the first action with the given \<^verbatim>\<open>dev_id\<close>; \<^verbatim>\<open>None\<close> when there is none.\<close>

fun unlink_action :: "nat \<Rightarrow> irqaction list \<Rightarrow> irqaction list option" where
  "unlink_action dev_id [] = None"
| "unlink_action dev_id (action # next) =
     (if adev action \<noteq> dev_id then map_option ((#) action) (unlink_action dev_id next) else Some next)"

definition free_irq :: "nat \<Rightarrow> nat \<Rightarrow> irqs \<Rightarrow> irqs" where
  "free_irq irq dev_id s =
     (if irq > 15 then s
      else case unlink_action dev_id (irq_action s irq) of
             None \<Rightarrow> s
           | Some rest \<Rightarrow>
               let s = s\<lparr>irq_action := (irq_action s)(irq := rest)\<rparr>
               in if rest = [] then (mask_irq irq s)\<lparr>idt := (idt s)(irq := BadStub)\<rparr> else s)"

section \<open>Delivery\<close>

text \<open>
  A handler: its number, the line and its \<^verbatim>\<open>dev_id\<close> change the state of the drivers. \<^verbatim>\<open>inb\<close> is the answer
  of a port after the given writes.
\<close>

type_synonym 'x handlers = "nat \<Rightarrow> nat \<Rightarrow> nat \<Rightarrow> 'x \<Rightarrow> 'x"
type_synonym port_in = "ports_out \<Rightarrow> u16 \<Rightarrow> u8"

fun run_actions :: "'x handlers \<Rightarrow> nat \<Rightarrow> irqaction list \<Rightarrow> u32 \<times> 'x \<Rightarrow> u32 \<times> 'x" where
  "run_actions hs irq [] (do_random, x) = (do_random, x)"
| "run_actions hs irq (action # next) (do_random, x) =
     run_actions hs irq next (do_random OR aflags action, hs (ahandler action) irq (adev action) x)"

definition count_and_run :: "'x handlers \<Rightarrow> nat \<Rightarrow> irqs \<times> 'x \<Rightarrow> irqs \<times> 'x" where
  "count_and_run hs irq sx =
     (let (s, x) = sx;
          s = s\<lparr>kstat_interrupts := (kstat_interrupts s)(irq := kstat_interrupts s irq + 1)\<rparr>;
          (do_random, x) = run_actions hs irq (irq_action s irq) (0, x)
      in if do_random AND SA_SAMPLE_RANDOM \<noteq> 0 then (s\<lparr>rand_added := irq # rand_added s\<rparr>, x) else (s, x))"

definition do_IRQ :: "port_in \<Rightarrow> 'x handlers \<Rightarrow> nat \<Rightarrow> irqs \<times> 'x \<Rightarrow> irqs \<times> 'x" where
  "do_IRQ inb hs irq sx =
     (let (c, intm, mask) =
        (if irq \<ge> 8 then (cache_A1 (fst sx), inb (outp (fst sx)) 0xa1, push_bit (irq - 8) 1)
         else (cache_21 (fst sx), inb (outp (fst sx)) 0x21, push_bit irq 1))
      in if c AND mask = 0 \<or> intm AND mask = 0 then sx else count_and_run hs irq sx)"

definition do_fast_IRQ :: "'x handlers \<Rightarrow> nat \<Rightarrow> irqs \<times> 'x \<Rightarrow> irqs \<times> 'x" where
  "do_fast_IRQ hs irq sx = count_and_run hs irq sx"

text \<open>\<^verbatim>\<open>ACK_FIRST\<close>/\<^verbatim>\<open>ACK_SECOND\<close>: mask the line, then end of interrupt; the port reads are delays.\<close>

definition ack_irq :: "nat \<Rightarrow> irqs \<Rightarrow> irqs" where
  "ack_irq irq s =
     (if irq < 8 then
        let s = s\<lparr>cache_21 := cache_21 s OR irq_bit irq\<rparr>; s = outb (cache_21 s) 0x21 s
        in outb 0x20 0x20 s
      else
        let s = s\<lparr>cache_A1 := cache_A1 s OR irq_bit irq\<rparr>; s = outb (cache_A1 s) 0xa1 s;
            s = outb 0x20 0xa0 s
        in outb 0x20 0x20 s)"

definition unblk_irq :: "nat \<Rightarrow> irqs \<Rightarrow> irqs" where
  "unblk_irq irq s =
     (if irq < 8
      then let s = s\<lparr>cache_21 := cache_21 s AND NOT (irq_bit irq)\<rparr> in outb (cache_21 s) 0x21 s
      else let s = s\<lparr>cache_A1 := cache_A1 s AND NOT (irq_bit irq)\<rparr> in outb (cache_A1 s) 0xa1 s)"

text \<open>The stubs of \<^verbatim>\<open>BUILD_IRQ\<close>, and of \<^verbatim>\<open>BUILD_TIMER_IRQ\<close>, where the three are one.\<close>

definition slow_interrupt :: "port_in \<Rightarrow> 'x handlers \<Rightarrow> nat \<Rightarrow> irqs \<times> 'x \<Rightarrow> irqs \<times> 'x" where
  "slow_interrupt inb hs irq sx =
     (let (s, x) = do_IRQ inb hs irq (ack_irq irq (fst sx), snd sx) in (unblk_irq irq s, x))"

definition fast_interrupt :: "'x handlers \<Rightarrow> nat \<Rightarrow> irqs \<times> 'x \<Rightarrow> irqs \<times> 'x" where
  "fast_interrupt hs irq sx =
     (let (s, x) = do_fast_IRQ hs irq (ack_irq irq (fst sx), snd sx) in (unblk_irq irq s, x))"

definition bad_interrupt :: "nat \<Rightarrow> irqs \<times> 'x \<Rightarrow> irqs \<times> 'x" where
  "bad_interrupt irq sx = (ack_irq irq (fst sx), snd sx)"

definition irq_interrupt :: "port_in \<Rightarrow> 'x handlers \<Rightarrow> nat \<Rightarrow> irqs \<times> 'x \<Rightarrow> irqs \<times> 'x" where
  "irq_interrupt inb hs irq sx =
     (if irq = 0 then slow_interrupt inb hs irq sx
      else case idt (fst sx) irq of
             BadStub \<Rightarrow> bad_interrupt irq sx
           | SlowStub \<Rightarrow> slow_interrupt inb hs irq sx
           | FastStub \<Rightarrow> fast_interrupt hs irq sx)"

definition interrupts :: "port_in \<Rightarrow> 'x handlers \<Rightarrow> nat list \<Rightarrow> irqs \<times> 'x \<Rightarrow> irqs \<times> 'x" where
  "interrupts inb hs lines sx = fold (irq_interrupt inb hs) lines sx"

section \<open>Probing\<close>

fun probe_enable :: "nat list \<Rightarrow> u32 \<times> irqs \<Rightarrow> u32 \<times> irqs" where
  "probe_enable [] (irqs, s) = (irqs, s)"
| "probe_enable (i # is) (irqs, s) =
     (if irq_action s i = [] then probe_enable is (irqs OR push_bit i 1, enable_irq i s)
      else probe_enable is (irqs, s))"

definition irqmask :: "irqs \<Rightarrow> u32" where
  "irqmask s = push_bit 8 (ucast (cache_A1 s)) OR ucast (cache_21 s)"

text \<open>The wait for spurious interrupts delivers the interrupts \<^verbatim>\<open>lines\<close> that arrive in its 100 ms.\<close>

definition probe_irq_on :: "port_in \<Rightarrow> 'x handlers \<Rightarrow> nat list \<Rightarrow> irqs \<times> 'x \<Rightarrow> u32 \<times> irqs \<times> 'x" where
  "probe_irq_on inb hs lines sx =
     (let (irqs, s) = probe_enable (rev [1..<16]) (0, fst sx);
          (s, x) = interrupts inb hs lines (s, snd sx)
      in (irqs AND NOT (irqmask s), s, x))"

text \<open>\<^verbatim>\<open>ffz(~irqs)\<close> for a word that is not 0: its lowest bit.\<close>

definition first_bit :: "u32 \<Rightarrow> nat" where
  "first_bit w = hd (filter (bit w) [0..<32])"

definition probe_irq_off :: "u32 \<Rightarrow> irqs \<Rightarrow> int" where
  "probe_irq_off irqs s =
     (let irqs = irqs AND irqmask s
      in if irqs = 0 then 0
         else let i = first_bit irqs
              in if irqs \<noteq> irqs AND push_bit i 1 then - int i else int i)"

section \<open>Initialisation and report\<close>

definition LATCH :: u32 where "LATCH = (1193180 + 100 div 2) div 100"

text \<open>The two actions set up at boot; \<^verbatim>\<open>no_action\<close> is handler 1 and \<^verbatim>\<open>math_error_irq\<close> handler 2.\<close>

definition irq2 :: irqaction where
  "irq2 = \<lparr>ahandler = 1, aflags = 0, amask = 0, aname = ''cascade'', adev = 0\<rparr>"

definition irq13 :: irqaction where
  "irq13 = \<lparr>ahandler = 2, aflags = 0, amask = 0, aname = ''math error'', adev = 0\<rparr>"

definition init_IRQ :: "irqs \<times> ioports \<Rightarrow> (irqs \<times> ioports) option" where
  "init_IRQ si =
     (let (s, io) = si
      in if smptrap s then Some si
         else
           let s = s\<lparr>smptrap := True\<rparr>;
               s = outb 0x34 0x43 s;
               s = outb (ucast (LATCH AND 0xff)) 0x40 s;
               s = outb (ucast (drop_bit 8 LATCH)) 0x40 s;
               s = s\<lparr>idt := \<lambda>i. if i < 16 then BadStub else idt s i\<rparr>
           in case request_region 0x20 0x20 ''pic1'' io of
                None \<Rightarrow> None
              | Some io \<Rightarrow>
                  (case request_region 0xa0 0x20 ''pic2'' io of
                     None \<Rightarrow> None
                   | Some io \<Rightarrow>
                       let s = snd (setup_x86_irq 2 irq2 s);
                           s = snd (setup_x86_irq 13 irq13 s)
                       in Some (s, io)))"

text \<open>\<^verbatim>\<open>/proc/interrupts\<close>.\<close>

fun more_actions :: "irqaction list \<Rightarrow> string" where
  "more_actions [] = []"
| "more_actions (action # next) =
     print '',%s %s''
       [AStr (Some (if aflags action AND SA_INTERRUPT \<noteq> 0 then '' +'' else '''')), AStr (Some (aname action))]
     @ more_actions next"

definition irq_line :: "irqs \<Rightarrow> nat \<Rightarrow> string" where
  "irq_line s i =
     (case irq_action s i of
        [] \<Rightarrow> []
      | action # next \<Rightarrow>
          print ''%2d: %10u %c %s''
            [AInt (of_nat i), AInt (kstat_interrupts s i),
             AInt (if aflags action AND SA_INTERRUPT \<noteq> 0 then 43 else 32), AStr (Some (aname action))]
          @ more_actions next @ ''\<newline>'')"

definition get_irq_list :: "irqs \<Rightarrow> int \<times> string" where
  "get_irq_list s = (let t = concat (map (irq_line s) [0..<16]) in (int (length t), t))"

section \<open>Which lines are masked\<close>

definition masked :: "irqs \<Rightarrow> nat \<Rightarrow> bool" where
  "masked s i = bit (if i < 8 then cache_21 s else cache_A1 s) (i mod 8)"

lemma bit_irq_bit: "bit (irq_bit i) k \<longleftrightarrow> k = i mod 8"
  by (auto simp: irq_bit_def bit_simps)

lemma same_line:
  fixes i j :: nat
  assumes "i < 16" "j < 16" "i < 8 \<longleftrightarrow> j < 8"
  shows "j mod 8 = i mod 8 \<longleftrightarrow> j = i"
  using assms by (cases "i < 8") (auto simp: le_mod_geq)

lemma masked_or:
  assumes "i < 16" "j < 16"
    and "cache_21 s' = (if i < 8 then cache_21 s OR irq_bit i else cache_21 s)"
    and "cache_A1 s' = (if i < 8 then cache_A1 s else cache_A1 s OR irq_bit i)"
  shows "masked s' j \<longleftrightarrow> j = i \<or> masked s j"
proof (cases "i < 8 \<longleftrightarrow> j < 8")
  case True
  then show ?thesis
    using same_line [OF assms(1,2) True] by (simp add: masked_def assms(3,4) bit_or_iff bit_irq_bit disj_commute)
next
  case False
  then show ?thesis by (auto simp: masked_def assms(3,4))
qed

lemma masked_and:
  assumes "i < 16" "j < 16"
    and "cache_21 s' = (if i < 8 then cache_21 s AND NOT (irq_bit i) else cache_21 s)"
    and "cache_A1 s' = (if i < 8 then cache_A1 s else cache_A1 s AND NOT (irq_bit i))"
  shows "masked s' j \<longleftrightarrow> j \<noteq> i \<and> masked s j"
proof (cases "i < 8 \<longleftrightarrow> j < 8")
  case True
  have "bit (w AND NOT (irq_bit i)) (j mod 8) \<longleftrightarrow> j \<noteq> i \<and> bit w (j mod 8)" for w :: u8
    using same_line [OF assms(1,2) True] by (auto simp: bit_simps bit_irq_bit)
  then show ?thesis using True unfolding masked_def assms(3,4) by (simp del: mod_less)
next
  case False
  then show ?thesis by (auto simp: masked_def assms(3,4))
qed

lemma masked_ops [simp]:
  assumes "i < 16" "j < 16"
  shows "masked (mask_irq i s) j \<longleftrightarrow> j = i \<or> masked s j"
    and "masked (unmask_irq i s) j \<longleftrightarrow> j \<noteq> i \<and> masked s j"
    and "masked (ack_irq i s) j \<longleftrightarrow> j = i \<or> masked s j"
    and "masked (unblk_irq i s) j \<longleftrightarrow> j \<noteq> i \<and> masked s j"
  by (intro masked_or [OF assms] masked_and [OF assms];
      simp add: mask_irq_def unmask_irq_def ack_irq_def unblk_irq_def outb_def Let_def)+

lemma masked_fields:
  "cache_21 s' = cache_21 s \<Longrightarrow> cache_A1 s' = cache_A1 s \<Longrightarrow> masked s' i = masked s i"
  by (simp add: masked_def)

lemma mask_frame [simp]:
  "irq_action (mask_irq i s) = irq_action s" "idt (mask_irq i s) = idt s"
  "irq_action (unmask_irq i s) = irq_action s" "idt (unmask_irq i s) = idt s"
  "irq_action (ack_irq i s) = irq_action s" "idt (ack_irq i s) = idt s"
  "irq_action (unblk_irq i s) = irq_action s" "idt (unblk_irq i s) = idt s"
  "kstat_interrupts (ack_irq i s) = kstat_interrupts s" "kstat_interrupts (unblk_irq i s) = kstat_interrupts s"
  by (simp_all add: mask_irq_def unmask_irq_def ack_irq_def unblk_irq_def outb_def Let_def)

lemma bit_irqmask: "i < 16 \<Longrightarrow> bit (irqmask s) i \<longleftrightarrow> masked s i"
  by (auto simp: irqmask_def masked_def bit_simps le_mod_geq dest: bit_imp_le_length)

section \<open>The invariant of the table\<close>

text \<open>
  The gate of a line fits its first action, and the actions of a shared line all agreed to share and are
  of one type.
\<close>

definition stub_of :: "irqaction \<Rightarrow> stub" where
  "stub_of a = (if aflags a AND SA_INTERRUPT \<noteq> 0 then FastStub else SlowStub)"

definition fits :: "stub \<Rightarrow> irqaction list \<Rightarrow> bool" where
  "fits g as \<longleftrightarrow>
     (as = [] \<longrightarrow> g = BadStub) \<and> (\<forall>a \<in> set as. g = stub_of a) \<and>
     (length as > 1 \<longrightarrow> (\<forall>a \<in> set as. aflags a AND SA_SHIRQ \<noteq> 0))"

definition line_ok :: "irqs \<Rightarrow> nat \<Rightarrow> bool" where
  "line_ok s i \<longleftrightarrow> fits (idt s i) (irq_action s i)"

definition irq_ok :: "irqs \<Rightarrow> bool" where
  "irq_ok s \<longleftrightarrow> (\<forall>i < 16. line_ok s i)"

lemma irq_ok_frame: "irq_action s' = irq_action s \<Longrightarrow> idt s' = idt s \<Longrightarrow> irq_ok s' = irq_ok s"
  by (simp add: irq_ok_def line_ok_def)

lemma and_conj: "x AND y AND m \<noteq> 0 \<Longrightarrow> x AND m \<noteq> 0 \<and> y AND m \<noteq> 0" for x y m :: u32
proof (intro conjI notI)
  assume n: "x AND y AND m \<noteq> 0"
  show False if z: "x AND m = 0"
  proof -
    have "x AND y AND m = (x AND m) AND y" by (rule bit_word_eqI) (auto simp: bit_simps)
    then show False using n z by simp
  qed
  show False if z: "y AND m = 0" using n z by (simp add: and.assoc)
qed

lemma xor_same: "(x XOR y) AND m = 0 \<longleftrightarrow> x AND m = y AND m" for x y m :: u32
proof -
  have "bit ((x XOR y) AND m) k = (bit (x AND m) k \<noteq> bit (y AND m) k)" for k by (auto simp: bit_simps)
  then show ?thesis by (auto simp: bit_eq_iff)
qed

lemma fits_single: "fits (stub_of a) [a]"
  by (simp add: fits_def)

lemma fits_snoc:
  assumes "fits g as" "as \<noteq> []" "aflags (hd as) AND aflags new AND SA_SHIRQ \<noteq> 0"
    and "(aflags (hd as) XOR aflags new) AND SA_INTERRUPT = 0"
  shows "fits g (as @ [new])"
proof -
  have hd: "hd as \<in> set as" using assms(2) by simp
  have sh: "aflags (hd as) AND SA_SHIRQ \<noteq> 0" "aflags new AND SA_SHIRQ \<noteq> 0"
    using and_conj [OF assms(3)] by simp_all
  have all: "\<forall>a \<in> set as. g = stub_of a" using assms(1) by (simp add: fits_def)
  have "stub_of new = stub_of (hd as)"
    using assms(4) by (simp add: stub_of_def xor_same)
  also have "\<dots> = g" using all hd by simp
  finally have "stub_of new = g" .
  moreover have "\<forall>a \<in> set as. aflags a AND SA_SHIRQ \<noteq> 0"
  proof (cases "length as > 1")
    case True
    then show ?thesis using assms(1) by (simp add: fits_def)
  next
    case False
    then have "as = [hd as]" using assms(2) by (cases as) auto
    then have "set as = {hd as}" by (metis list.set(1) list.set(2))
    then show ?thesis using sh(1) by simp
  qed
  ultimately show ?thesis using all sh(2) by (simp add: fits_def)
qed

lemma setup_ok:
  assumes "irq_ok s" "irq < 16"
  shows "irq_ok (snd (setup_x86_irq irq new s))"
proof -
  have l: "fits (idt s irq) (irq_action s irq)" using assms by (simp add: irq_ok_def line_ok_def)
  have "line_ok (snd (setup_x86_irq irq new s)) irq"
    using l fits_snoc [OF l] fits_single [of new]
    by (auto simp: setup_x86_irq_def Let_def line_ok_def stub_of_def)
  moreover have "line_ok (snd (setup_x86_irq irq new s)) i = line_ok s i" if "i \<noteq> irq" for i
    using that by (simp add: setup_x86_irq_def Let_def line_ok_def)
  ultimately show ?thesis using assms unfolding irq_ok_def by metis
qed

lemma unlink_subset: "unlink_action d as = Some bs \<Longrightarrow> set bs \<subseteq> set as \<and> length as = Suc (length bs)"
  by (induction as arbitrary: bs) (auto split: if_splits)

lemma fits_unlink: "fits g as \<Longrightarrow> unlink_action dev as = Some bs \<Longrightarrow> bs \<noteq> [] \<Longrightarrow> fits g bs"
  using unlink_subset [of dev as bs] by (auto simp: fits_def)

lemma free_ok:
  assumes "irq_ok s"
  shows "irq_ok (free_irq irq dev s)"
proof (cases "irq > 15 \<or> unlink_action dev (irq_action s irq) = None")
  case True
  then show ?thesis using assms by (auto simp: free_irq_def)
next
  case False
  then obtain rest where rest: "unlink_action dev (irq_action s irq) = Some rest" and irq: "irq < 16" by auto
  have "line_ok s irq" using assms irq by (simp add: irq_ok_def)
  then have "line_ok (free_irq irq dev s) irq"
    using rest irq fits_unlink [OF _ rest, of "idt s irq"]
    by (cases "rest = []") (simp_all add: free_irq_def line_ok_def Let_def, simp add: fits_def)
  moreover have "line_ok (free_irq irq dev s) i = line_ok s i" if "i \<noteq> irq" for i
    using that rest irq by (simp add: free_irq_def line_ok_def Let_def)
  ultimately show ?thesis using assms unfolding irq_ok_def by metis
qed

lemma request_ok: "irq_ok s \<Longrightarrow> irq_ok (snd (request_irq mem irq h fl nm d s))"
  by (simp add: request_irq_def setup_ok)

section \<open>Delivery of an interrupt\<close>

lemma run_actions_eq:
  "run_actions hs irq as (r, x) =
     (fold (\<lambda>a r. r OR aflags a) as r, fold (\<lambda>a. hs (ahandler a) irq (adev a)) as x)"
  by (induction as arbitrary: r x) auto

lemma count_and_run_eq:
  "snd (count_and_run hs irq (s, x)) = fold (\<lambda>a. hs (ahandler a) irq (adev a)) (irq_action s irq) x"
  "irq_action (fst (count_and_run hs irq (s, x))) = irq_action s"
  "idt (fst (count_and_run hs irq (s, x))) = idt s"
  "kstat_interrupts (fst (count_and_run hs irq (s, x))) = (kstat_interrupts s)(irq := kstat_interrupts s irq + 1)"
  "masked (fst (count_and_run hs irq (s, x))) i = masked s i"
  by (simp_all add: count_and_run_def Let_def run_actions_eq masked_def)

text \<open>
  The mask register of an interrupt controller reads back what was written to it last, as its data sheet
  says.
\<close>

fun last_out :: "u16 \<Rightarrow> ports_out \<Rightarrow> u8 option" where
  "last_out p [] = None"
| "last_out p ((q, v) # h) = (if q = p then Some v else last_out p h)"

definition pic_readback :: "port_in \<Rightarrow> bool" where
  "pic_readback inb \<longleftrightarrow> (\<forall>h p v. p \<in> {0x21, 0xa1} \<longrightarrow> last_out p h = Some v \<longrightarrow> inb h p = v)"

lemma do_IRQ_frame:
  "irq_action (fst (do_IRQ inb hs irq (s, x))) = irq_action s"
  "idt (fst (do_IRQ inb hs irq (s, x))) = idt s"
  "masked (fst (do_IRQ inb hs irq (s, x))) i = masked s i"
  by (simp_all add: do_IRQ_def Let_def count_and_run_eq split_def)

text \<open>The slow path finds the line masked by its own stub, so it always goes on to the handlers.\<close>

lemma do_IRQ_acked:
  assumes "pic_readback inb" "irq < 16"
  shows "do_IRQ inb hs irq (ack_irq irq s, x) = count_and_run hs irq (ack_irq irq s, x)"
proof (cases "irq < 8")
  case True
  have "last_out 0x21 (outp (ack_irq irq s)) = Some (cache_21 (ack_irq irq s))"
    using True by (simp add: ack_irq_def Let_def outb_def)
  then have "inb (outp (ack_irq irq s)) 0x21 = cache_21 (ack_irq irq s)"
    using assms(1) by (simp add: pic_readback_def)
  moreover have "cache_21 (ack_irq irq s) AND push_bit irq 1 \<noteq> 0"
    using True by (simp add: ack_irq_def Let_def outb_def irq_bit_def)
  ultimately show ?thesis using True by (simp add: do_IRQ_def Let_def)
next
  case False
  have "last_out 0xa1 (outp (ack_irq irq s)) = Some (cache_A1 (ack_irq irq s))"
    using False by (simp add: ack_irq_def Let_def outb_def)
  then have "inb (outp (ack_irq irq s)) 0xa1 = cache_A1 (ack_irq irq s)"
    using assms(1) by (simp add: pic_readback_def)
  moreover have "cache_A1 (ack_irq irq s) AND push_bit (irq - 8) 1 \<noteq> 0"
    using False assms(2) by (simp add: ack_irq_def Let_def outb_def irq_bit_def le_mod_geq)
  ultimately show ?thesis using False by (simp add: do_IRQ_def Let_def)
qed

lemma interrupt_frame:
  assumes "irq < 16" "i < 16"
  shows "irq_action (fst (irq_interrupt inb hs irq (s, x))) = irq_action s"
    "idt (fst (irq_interrupt inb hs irq (s, x))) = idt s"
    "masked (fst (irq_interrupt inb hs irq (s, x))) i
       \<longleftrightarrow> (if i = irq then irq \<noteq> 0 \<and> idt s irq = BadStub else masked s i)"
  using assms
  by (auto simp: irq_interrupt_def slow_interrupt_def fast_interrupt_def bad_interrupt_def do_fast_IRQ_def
      do_IRQ_frame count_and_run_eq split_def Let_def split: stub.splits)

lemma interrupts_frame:
  assumes "set lines \<subseteq> {..<16}"
  shows "irq_action (fst (interrupts inb hs lines (s, x))) = irq_action s
    \<and> idt (fst (interrupts inb hs lines (s, x))) = idt s
    \<and> (0 < i \<longrightarrow> i < 16 \<longrightarrow> idt s i = BadStub \<longrightarrow>
       (masked (fst (interrupts inb hs lines (s, x))) i \<longleftrightarrow> masked s i \<or> i \<in> set lines))"
  using assms
proof (induction lines arbitrary: s x)
  case (Cons l lines)
  define s' x' where "s' = fst (irq_interrupt inb hs l (s, x))" and "x' = snd (irq_interrupt inb hs l (s, x))"
  have e: "interrupts inb hs (l # lines) (s, x) = interrupts inb hs lines (s', x')"
    by (simp add: interrupts_def s'_def x'_def)
  have l: "l < 16" using Cons.prems by simp
  note f = interrupt_frame [OF l, of _ inb hs s x, folded s'_def]
  show ?case
    using Cons.IH [of s' x'] f(1,2) [of 0] f(3) [of i] Cons.prems unfolding e by auto
qed (simp add: interrupts_def)

section \<open>Probing\<close>

lemma probe_enable_eq:
  assumes "set is \<subseteq> {..<16}" "probe_enable is (w, s) = (w', s')"
  shows "irq_action s' = irq_action s \<and> idt s' = idt s
    \<and> (\<forall>i. bit w' i \<longleftrightarrow> bit w i \<or> i \<in> set is \<and> irq_action s i = [])
    \<and> (\<forall>i < 16. masked s' i \<longleftrightarrow> masked s i \<and> \<not> (i \<in> set is \<and> irq_action s i = []))"
  using assms
proof (induction "is" arbitrary: w s)
  case (Cons l ls)
  then have l: "l < 16" by simp
  show ?case
  proof (cases "irq_action s l = []")
    case True
    have "bit (w OR push_bit l 1) i \<longleftrightarrow> bit w i \<or> i = l" for i
      using l by (auto simp: bit_simps)
    then show ?thesis
      using Cons.IH [of "w OR push_bit l 1" "enable_irq l s"] Cons.prems True l
      by (auto simp: enable_irq_def)
  next
    case False
    then show ?thesis using Cons.IH [of w s] Cons.prems by auto
  qed
qed simp

text \<open>The lines a probe watches: unassigned ones on which nothing arrived while it was set up.\<close>

definition probed :: "irqs \<Rightarrow> nat list \<Rightarrow> nat set" where
  "probed s spurious = {i. 0 < i \<and> i < 16 \<and> irq_action s i = [] \<and> i \<notin> set spurious}"

lemma probe_on_bits:
  assumes "irq_ok s" "set lines \<subseteq> {..<16}" "probe_irq_on inb hs lines (s, x) = (w, s', x')"
  shows "irq_action s' = irq_action s" "idt s' = idt s"
    and "bit w i \<longleftrightarrow> i \<in> probed s lines"
    and "i \<in> probed s lines \<Longrightarrow> \<not> masked s' i"
proof -
  obtain w1 s1 where e: "probe_enable (rev [1..<16]) (0, s) = (w1, s1)" by fastforce
  then have s': "(s', x') = interrupts inb hs lines (s1, x)" and w: "w = w1 AND NOT (irqmask s')"
    using assms(3) by (auto simp: probe_irq_on_def split_def Let_def prod_eq_iff)
  have p: "irq_action s1 = irq_action s" "idt s1 = idt s"
    "\<And>i. bit w1 i \<longleftrightarrow> 0 < i \<and> i < 16 \<and> irq_action s i = []"
    "\<And>i. i < 16 \<Longrightarrow> masked s1 i \<longleftrightarrow> masked s i \<and> \<not> (0 < i \<and> irq_action s i = [])"
  proof -
    have "set (rev [1..<16]) \<subseteq> {..<16 :: nat}" by auto
    from probe_enable_eq [OF this e]
    show "irq_action s1 = irq_action s" "idt s1 = idt s"
      "\<And>i. bit w1 i \<longleftrightarrow> 0 < i \<and> i < 16 \<and> irq_action s i = []"
      "\<And>i. i < 16 \<Longrightarrow> masked s1 i \<longleftrightarrow> masked s i \<and> \<not> (0 < i \<and> irq_action s i = [])"
      by (auto simp: Suc_le_eq)
  qed
  have q: "s' = fst (interrupts inb hs lines (s1, x))" using s' by (metis fst_conv)
  show "irq_action s' = irq_action s" "idt s' = idt s"
    using interrupts_frame [OF assms(2), of inb hs s1 x] p(1,2) q by simp_all
  have bad: "idt s1 i = BadStub" if "i < 16" "irq_action s i = []" for i
    using assms(1) that p(2) by (simp add: irq_ok_def line_ok_def fits_def)
  have m: "masked s' i \<longleftrightarrow> i \<in> set lines" if "0 < i" "i < 16" "irq_action s i = []" for i
    using interrupts_frame [OF assms(2), of inb hs s1 x i] bad [OF that(2,3)] p(4) [OF that(2)] that q
    by simp
  show "bit w i \<longleftrightarrow> i \<in> probed s lines"
    using p(3) [of i] m [of i] bit_irqmask [of i s']
    by (auto simp: w bit_and_iff bit_not_iff probed_def)
  show "i \<in> probed s lines \<Longrightarrow> \<not> masked s' i"
    using m [of i] by (auto simp: probed_def)
qed

lemma first_bit_Min:
  assumes "w \<noteq> 0"
  shows "first_bit w = Min {i. bit w i}"
proof -
  have lt: "bit w i \<Longrightarrow> i < 32" for i using bit_imp_le_length [of w i] by simp
  then have fin: "finite {i. bit w i}" by (auto intro: finite_subset [of _ "{..<32}"])
  obtain k where "bit w k" using assms by (auto simp: bit_eq_iff)
  have set: "set (filter (bit w) [0..<32]) = {i. bit w i}" using lt by auto
  then obtain m ms where ms: "filter (bit w) [0..<32] = m # ms"
    using \<open>bit w k\<close> by (cases "filter (bit w) [0..<32]") auto
  have "sorted (filter (bit w) [0..<32])" by (simp add: sorted_filter [where f = id, simplified])
  then have "\<forall>i \<in> set (m # ms). m \<le> i" unfolding ms by simp
  then show ?thesis
    using set fin unfolding first_bit_def ms by (metis Min_eqI list.sel(1) list.set_intros(1))
qed

lemma single_bit: "w = w AND push_bit i 1 \<longleftrightarrow> {k. bit w k} \<subseteq> {i}" for w :: u32
proof
  assume "w = w AND push_bit i 1"
  then have "bit w k \<Longrightarrow> bit (w AND push_bit i 1) k" for k by simp
  then show "{k. bit w k} \<subseteq> {i}" by (auto simp: bit_simps)
next
  assume "{k. bit w k} \<subseteq> {i}"
  then show "w = w AND push_bit i 1" by (intro bit_word_eqI) (auto simp: bit_simps)
qed

lemma probe_off_eq:
  assumes "\<And>i. bit w i \<Longrightarrow> i < 16" "H = {i. bit w i \<and> masked s i}"
  shows "probe_irq_off w s = (if H = {} then 0 else if H = {Min H} then int (Min H) else - int (Min H))"
proof -
  define v where "v = w AND irqmask s"
  have H: "{i. bit v i} = H"
    using assms bit_irqmask by (auto simp: v_def bit_and_iff)
  show ?thesis
  proof (cases "v = 0")
    case True
    then have "H = {}" using H by auto
    then show ?thesis using True by (simp add: probe_irq_off_def v_def)
  next
    case False
    then obtain k where "bit v k" by (auto simp: bit_eq_iff)
    then have ne: "H \<noteq> {}" using H by auto
    have "finite H" unfolding assms(2) by (rule finite_subset [of _ "{..<16}"]) (auto dest: assms(1))
    then have "Min H \<in> H" using ne by (rule Min_in)
    then have "v = v AND push_bit (Min H) 1 \<longleftrightarrow> H = {Min H}" unfolding single_bit H by auto
    then show ?thesis
      using False ne unfolding probe_irq_off_def v_def [symmetric] Let_def first_bit_Min [OF False] H by argo
  qed
qed

lemma fits_bad: "fits g as \<Longrightarrow> as = [] \<longleftrightarrow> g = BadStub"
  by (cases as) (auto simp: fits_def stub_of_def)

lemma interrupt_runs:
  assumes "irq_ok s" "0 < irq" "irq < 16" "pic_readback inb"
  shows "snd (irq_interrupt inb hs irq (s, x)) = fold (\<lambda>a. hs (ahandler a) irq (adev a)) (irq_action s irq) x"
proof -
  have "irq_action s irq = [] \<longleftrightarrow> idt s irq = BadStub"
    using assms(1,3) by (intro fits_bad) (simp add: irq_ok_def line_ok_def)
  then show ?thesis
    using assms(2)
    by (cases "idt s irq")
      (simp_all add: irq_interrupt_def slow_interrupt_def fast_interrupt_def bad_interrupt_def do_fast_IRQ_def
        do_IRQ_acked [OF assms(4,3)] count_and_run_eq split_def)
qed

section \<open>Properties\<close>

text \<open>The state before \<^verbatim>\<open>init_IRQ\<close>, and one with a handler of each type on two lines.\<close>

definition irqs_boot :: irqs where
  "irqs_boot = \<lparr>irq_action = \<lambda>_. [], cache_21 = 0xff, cache_A1 = 0xff, idt = \<lambda>_. BadStub,
     kstat_interrupts = \<lambda>_. 0, outp = [], rand_init = [], rand_added = [], smptrap = False\<rparr>"

definition demo_irqs :: irqs where
  "demo_irqs = snd (request_irq True 11 7 SA_SHIRQ ''two'' 2 (snd (request_irq True 11 5 SA_SHIRQ ''one'' 1 irqs_boot)))"

lemma irqs_boot_ok: "irq_ok irqs_boot"
  by (simp add: irq_ok_def line_ok_def fits_def irqs_boot_def)

lemma demo_irqs_ok: "irq_ok demo_irqs"
  unfolding demo_irqs_def by (intro request_ok irqs_boot_ok)

lemma demo_irqs_action:
  "map (\<lambda>a. (ahandler a, adev a)) (irq_action demo_irqs 11) = [(5, 1), (7, 2)]" "i \<noteq> 11 \<Longrightarrow> irq_action demo_irqs i = []"
  by (simp_all add: demo_irqs_def request_irq_def setup_x86_irq_def Let_def irqs_boot_def sa_defs)

text \<open>
  C8: delivery of an interrupt. With handlers on the line, each of them is called exactly once, in the order
  they were registered, whichever stub the line uses; the interrupt is counted and the line is left
  unmasked. On a line nobody registered nothing is called and the line is left masked. No other line's mask
  changes, and no registration does.
\<close>
theorem irq_delivery:
  assumes "irq_ok s" "0 < irq" "irq < 16" "pic_readback inb" "j < 16"
  shows "\<exists>s'. irq_interrupt inb hs irq (s, x) =
      (s', fold (\<lambda>a. hs (ahandler a) irq (adev a)) (irq_action s irq) x)
    \<and> irq_action s' = irq_action s \<and> irq_ok s'
    \<and> kstat_interrupts s' = (if irq_action s irq = [] then kstat_interrupts s
         else (kstat_interrupts s)(irq := kstat_interrupts s irq + 1))
    \<and> (masked s' j \<longleftrightarrow> (if j = irq then irq_action s irq = [] else masked s j))"
proof -
  define s' where "s' = fst (irq_interrupt inb hs irq (s, x))"
  have fits: "fits (idt s irq) (irq_action s irq)" using assms(1,3) by (simp add: irq_ok_def line_ok_def)
  have ne: "irq_action s irq = [] \<longleftrightarrow> idt s irq = BadStub" by (rule fits_bad [OF fits])
  note frame = interrupt_frame [OF assms(3,5), of inb hs s x, folded s'_def]
  have ok: "irq_ok s'" using assms(1) frame(1,2) irq_ok_frame [of s' s] by simp
  have run: "snd (irq_interrupt inb hs irq (s, x)) = fold (\<lambda>a. hs (ahandler a) irq (adev a)) (irq_action s irq) x"
    by (rule interrupt_runs [OF assms(1-4)])
  have cnt: "kstat_interrupts s' = (if irq_action s irq = [] then kstat_interrupts s
         else (kstat_interrupts s)(irq := kstat_interrupts s irq + 1))"
    using assms(2) ne unfolding s'_def
    by (cases "idt s irq")
      (simp_all add: irq_interrupt_def slow_interrupt_def fast_interrupt_def bad_interrupt_def do_fast_IRQ_def
        do_IRQ_acked [OF assms(4,3)] count_and_run_eq split_def)
  have "irq_interrupt inb hs irq (s, x) = (s', snd (irq_interrupt inb hs irq (s, x)))"
    by (simp add: s'_def)
  then show ?thesis
    unfolding run using frame ok cnt ne assms(2) by auto
qed

text \<open>A controller whose mask registers read back, and handlers that note their number.\<close>

definition demo_inb :: port_in where
  "demo_inb h p = (case last_out p h of None \<Rightarrow> 0 | Some v \<Rightarrow> v)"

lemma demo_inb_readback: "pic_readback demo_inb"
  by (simp add: pic_readback_def demo_inb_def)

definition note_handlers :: "nat list handlers" where
  "note_handlers h irq dev x = h # x"

theorem irq_delivery_witness:
  "\<exists>s'. irq_interrupt demo_inb note_handlers 11 (demo_irqs, []) = (s', [7, 5]) \<and> \<not> masked s' 11"
proof -
  have two: "irq_action demo_irqs 11 \<noteq> []" using demo_irqs_action(1) by force
  have "fold (\<lambda>a. note_handlers (ahandler a) 11 (adev a)) (irq_action demo_irqs 11) [] = [7, 5]"
    by (simp add: demo_irqs_def request_irq_def setup_x86_irq_def Let_def irqs_boot_def sa_defs note_handlers_def)
  then show ?thesis
    using irq_delivery [OF demo_irqs_ok _ _ demo_inb_readback, of 11 11 note_handlers "[]"] two by auto
qed

text \<open>
  C22: probing finds the line of a device. Between \<^verbatim>\<open>probe_irq_on\<close>, during which the interrupts \<^verbatim>\<open>spurious\<close>
  arrive, and \<^verbatim>\<open>probe_irq_off\<close>, before which the interrupts \<^verbatim>\<open>lines\<close> arrive, the result is decided by the
  lines that are unassigned, were quiet before and interrupted since: 0 if there is none, the line if
  there is one, and the negated lowest if there are several. Interrupts of assigned lines make no
  difference.
\<close>
theorem probe_finds_line:
  assumes "irq_ok s" "set spurious \<subseteq> {..<16}" "set lines \<subseteq> {..<16}"
    and "probe_irq_on inb hs spurious (s, x) = (irqs, s1, x1)" "interrupts inb hs lines (s1, x1) = (s2, x2)"
    and "H = probed s spurious \<inter> set lines"
  shows "probe_irq_off irqs s2 = (if H = {} then 0 else if H = {Min H} then int (Min H) else - int (Min H))"
proof (rule probe_off_eq)
  note on = probe_on_bits [OF assms(1,2,4)]
  have s2: "s2 = fst (interrupts inb hs lines (s1, x1))" using assms(5) by simp
  show "i < 16" if "bit irqs i" for i using that on(3) by (simp add: probed_def)
  have "masked s2 i \<longleftrightarrow> i \<in> set lines" if "i \<in> probed s spurious" for i
  proof -
    have "idt s1 i = BadStub"
      using assms(1) that on(1,2) by (simp add: probed_def irq_ok_def line_ok_def fits_def)
    then show ?thesis
      using interrupts_frame [OF assms(3), of inb hs s1 x1 i] on(4) [OF that] that
      unfolding s2 by (simp add: probed_def)
  qed
  then show "H = {i. bit irqs i \<and> masked s2 i}"
    unfolding assms(6) on(3) by auto
qed

theorem probe_finds_line_witness:
  "\<exists>irqs s1 x1 s2 x2. probe_irq_on demo_inb note_handlers [3] (demo_irqs, []) = (irqs, s1, x1)
     \<and> interrupts demo_inb note_handlers [11, 9, 3] (s1, x1) = (s2, x2) \<and> probe_irq_off irqs s2 = 9"
proof -
  obtain irqs s1 x1 where on: "probe_irq_on demo_inb note_handlers [3] (demo_irqs, []) = (irqs, s1, x1)"
    by (metis prod_cases3)
  obtain s2 x2 where off: "interrupts demo_inb note_handlers [11, 9, 3] (s1, x1) = (s2, x2)" by fastforce
  have "irq_action demo_irqs 11 \<noteq> []" using demo_irqs_action(1) by force
  then have "probed demo_irqs [3] \<inter> set [11, 9, 3] = {9}"
    using demo_irqs_action(2) [of 9] by (auto simp: probed_def)
  then show ?thesis
    using probe_finds_line [OF demo_irqs_ok _ _ on off] on off by auto
qed

end
