(* ===== verification/Psnet_Init.thy ===== *)
theory Psnet_Init
  imports Psnet_Steps Irq Devices Pci_Env
begin

text \<open>
  The MRP network driver, third part: finding the boards on the PCI bus, mapping them, registering the
  device and the interrupt handlers, and undoing it (\<^verbatim>\<open>mrp_base\<close> to \<^verbatim>\<open>cleanup_module\<close> of
  \<^verbatim>\<open>drivers/char/ps2mrp-psnet.c\<close>). The initialisation runs on the device switch and the interrupt
  table of the kernel, so what it does with their answers is part of the model. The answers of the
  PCI BIOS, of \<^verbatim>\<open>vremap\<close> and of \<^verbatim>\<open>kmalloc\<close> are parameters. The compile-time comparison of the length of
  the proc file name holds and is left out.
\<close>

section \<open>State\<close>

text \<open>\<^verbatim>\<open>procs\<close> holds the registered proc entries; \<^verbatim>\<open>vfreed\<close> and \<^verbatim>\<open>kfreed\<close> what \<^verbatim>\<open>cleanup_module\<close> gave back.\<close>

record kernel =
  devs :: devices
  lines :: irqs
  net :: psnet
  procs :: "string list"
  vfreed :: "u32 list"
  kfreed :: nat

text \<open>
  \<^verbatim>\<open>kmalloc\<close> for the send (0) and receive (1) buffer of a unit, and whether it has room for the action of
  the first (0) and second (1) \<^verbatim>\<open>request_irq\<close> of a unit.
\<close>

record init_env =
  pci :: pci_env
  buffer :: "nat \<Rightarrow> nat \<Rightarrow> kbuf option"
  action_mem :: "nat \<Rightarrow> nat \<Rightarrow> bool"

definition upd :: "nat \<Rightarrow> (mrp_unit \<Rightarrow> mrp_unit) \<Rightarrow> kernel \<Rightarrow> kernel" where
  "upd i f k = k\<lparr>net := upd_unit i f (net k)\<rparr>"

abbreviation (input) unit :: "kernel \<Rightarrow> nat \<Rightarrow> mrp_unit" where
  "unit k i \<equiv> mrp_units (net k) i"

text \<open>\<^verbatim>\<open>mrp_interrupt\<close> and the address of a unit, as the interrupt table stores them.\<close>

definition MRP_INTERRUPT :: nat where "MRP_INTERRUPT = 3"
definition MRP_FOPS :: nat where "MRP_FOPS = 2"

definition unit_addr :: "nat \<Rightarrow> nat" where
  "unit_addr i = i + 1"

section \<open>Finding the boards\<close>

definition mrp_base :: "pci_env \<Rightarrow> u8 \<Rightarrow> u8 \<Rightarrow> u8 \<Rightarrow> u32" where
  "mrp_base env bs dev_fn where' =
     (case pcibios_read_config_dword env bs dev_fn where' of
        None \<Rightarrow> 0
      | Some address \<Rightarrow> if address AND 7 \<noteq> 0 then 0 else address AND NOT 0xf)"

definition mrp_remap :: "pci_env \<Rightarrow> u32 \<Rightarrow> u32" where
  "mrp_remap env base =
     (if MAP_NR base < MAP_NR (high_memory env) then 0
      else let rc = vremap env (base AND PAGE_MASK) PAGE_SIZE
           in if rc = 0 then 0 else (base AND NOT PAGE_MASK) + rc)"

text \<open>\<^verbatim>\<open>memset(mrp_units, 0, sizeof(mrp_units))\<close>; the histories of the boards start here.\<close>

definition zero_unit :: mrp_unit where
  "zero_unit = \<lparr>flags = 0, irq = 0, base0 = 0, base2 = 0, regs = 0, sendbuf = None, recvbuf = None,
     deci_out = False, deci_in = None, slen = 0, rlen = 0, nintr = 0, buf38 = None, nbytes38 = 0,
     buf40 = None, nbytes40 = 0, deci_tag_for_reset = 0, sendring = zero_ring, recvring = zero_ring,
     base4 = 0, reset_mode = 0, mbus = [], wakes = []\<rparr>"

text \<open>
  The body of the first loop for a board that was found; the number counts the boards, and every
  \<^verbatim>\<open>continue\<close> keeps the assignments made before it.
\<close>

definition probe_unit :: "pci_env \<Rightarrow> nat \<Rightarrow> u8 \<Rightarrow> u8 \<Rightarrow> int \<times> kernel \<Rightarrow> int \<times> kernel" where
  "probe_unit env index pci_bus pci_fn bk =
     (let (boards_found, k) = bk;
          b0 = mrp_base env pci_bus pci_fn PCI_BASE_ADDRESS_0;
          b2 = mrp_base env pci_bus pci_fn PCI_BASE_ADDRESS_2;
          b3 = mrp_base env pci_bus pci_fn PCI_BASE_ADDRESS_3;
          b4 = mrp_base env pci_bus pci_fn PCI_BASE_ADDRESS_4
      in if b0 = 0 \<or> b2 = 0 \<or> b3 = 0 then (boards_found, k)
         else let rc = mrp_remap env b0 in if rc = 0 then (boards_found, k)
         else let k = upd index (\<lambda>u. u\<lparr>base0 := rc\<rparr>) k; rc = mrp_remap env b2 in
              if rc = 0 then (boards_found, k)
         else let k = upd index (\<lambda>u. u\<lparr>base2 := rc\<rparr>) k; rc = mrp_remap env b3 in
              if rc = 0 then (boards_found, k)
         else
           let k = upd index (\<lambda>u. u\<lparr>regs := rc\<rparr>) k;
               k = (if b4 \<noteq> 0 then
                      let rc = mrp_remap env b4
                      in if rc = 0 then k else upd index (\<lambda>u. u\<lparr>base4 := rc\<rparr>) k
                    else k)
           in case pcibios_read_config_byte env pci_bus pci_fn PCI_INTERRUPT_LINE of
                None \<Rightarrow> (boards_found, k)
              | Some line \<Rightarrow>
                  let k = upd index (\<lambda>u. u\<lparr>irq := ucast line\<rparr>) k;
                      k = upd index (set_flag MRPF_DETECT) k;
                      k = upd index (\<lambda>u. u\<lparr>reset_mode := - 2\<rparr>) k
                  in (boards_found + 1, k))"

fun probe_units :: "pci_env \<Rightarrow> nat list \<Rightarrow> int \<times> kernel \<Rightarrow> int \<times> kernel" where
  "probe_units env [] bk = bk"
| "probe_units env (index # is) bk =
     (case pcibios_find_device env index of
        None \<Rightarrow> bk
      | Some (pci_bus, pci_fn) \<Rightarrow> probe_units env is (probe_unit env index pci_bus pci_fn bk))"

section \<open>Attaching the units\<close>

text \<open>
  The two calls of \<^verbatim>\<open>request_irq\<close>, with the second made when the first returned 0. The result is that of
  the last call.
\<close>

definition request_lines :: "init_env \<Rightarrow> nat \<Rightarrow> kernel \<Rightarrow> int \<times> kernel" where
  "request_lines env index k =
     (let (iRc, l) = request_irq (action_mem env index 0) (unat (irq (unit k index))) MRP_INTERRUPT
                       (SA_INTERRUPT OR SA_SHIRQ) ''MRP'' (unit_addr index) (lines k);
          k = k\<lparr>lines := l\<rparr>
      in if iRc = 0 then
           let (iRc, l) = request_irq (action_mem env index 1) (unat (irq (unit k index))) MRP_INTERRUPT
                            SA_SHIRQ ''MRP'' (unit_addr index) (lines k)
           in (iRc, k\<lparr>lines := l\<rparr>)
         else (iRc, k))"

definition start_board :: "mrp_dev \<Rightarrow> mrp_unit \<Rightarrow> mrp_unit" where
  "start_board dev u =
     (let h = and32 dev IDK50 (NOT 0x20) (mbus u);
          h = or32 dev IDK50 0x40000000 h;
          h = and32 dev IDK50 (NOT 0x40000000) h;
          h = or32 dev IDK4C 0x40 h;
          h = wr16 IER 0 h
      in set_flag MRPF_VALID (u\<lparr>mbus := h\<rparr>))"

definition attach_unit :: "init_env \<Rightarrow> mrp_dev \<Rightarrow> nat \<Rightarrow> kernel \<Rightarrow> kernel" where
  "attach_unit env dev index k =
     (if \<not> flag MRPF_DETECT (unit k index) then k
      else case buffer env index 0 of
             None \<Rightarrow> k
           | Some b \<Rightarrow>
               let k = upd index (\<lambda>u. u\<lparr>sendbuf := Some b\<rparr>) k
               in case buffer env index 1 of
                    None \<Rightarrow> k
                  | Some b \<Rightarrow>
                      let k = upd index (\<lambda>u. u\<lparr>recvbuf := Some b\<rparr>) k;
                          (iRc, k) = request_lines env index k
                      in if iRc = 0 then k else upd index (start_board dev) k)"

definition mrp_init :: "init_env \<Rightarrow> mrp_dev \<Rightarrow> kernel \<Rightarrow> int \<times> kernel" where
  "mrp_init env dev k =
     (let k = k\<lparr>net := (net k)\<lparr>mrp_units := (\<lambda>_. zero_unit)\<rparr>\<rparr>
      in if \<not> pcibios_present (pci env) then (0, k)
         else
           let (boards_found, k) = probe_units (pci env) [0, 1, 2, 3] (0, k)
           in if boards_found = 0 then (0, k)
              else
                let (iRc, d) = register_chrdev 0 ''mrp'' (Some MRP_FOPS) (devs k);
                    k = k\<lparr>devs := d\<rparr>
                in if iRc \<le> 0 then (0, k)
                   else
                     let k = k\<lparr>net := (net k)\<lparr>mrp_major := iRc\<rparr>\<rparr>;
                         k = k\<lparr>procs := ''mrp'' # procs k\<rparr>
                     in (0, fold (attach_unit env dev) [0, 1, 2, 3] k))"

section \<open>Unloading\<close>

definition stop_unit :: "mrp_dev \<Rightarrow> nat \<Rightarrow> kernel \<Rightarrow> kernel" where
  "stop_unit dev index k =
     (let u = unit k index;
          k = (if flag MRPF_VALID u then
                 let k = upd index (\<lambda>u. u\<lparr>mbus := and32 dev IDK4C (NOT 0x40) (or32 dev IDK50 0x20 (mbus u))\<rparr>) k
                 in k\<lparr>lines := free_irq (unat (irq u)) (unit_addr index) (lines k)\<rparr>
               else k);
          n = length (filter (\<lambda>b. b \<noteq> None) [sendbuf u, recvbuf u, buf38 u, buf40 u])
      in k\<lparr>kfreed := kfreed k + n,
           vfreed := rev (filter (\<lambda>a. a \<noteq> 0) [base0 u, base2 u, regs u]) @ vfreed k\<rparr>)"

definition cleanup_module :: "mrp_dev \<Rightarrow> kernel \<Rightarrow> kernel" where
  "cleanup_module dev k =
     (if mrp_major (net k) \<le> 0 then k
      else
        let k = fold (stop_unit dev) [0, 1, 2, 3] k;
            (r, d) = unregister_chrdev (nat (mrp_major (net k))) ''mrp'' (devs k)
        in k\<lparr>devs := d, procs := remove1 ''mrp'' (procs k)\<rparr>)"

section \<open>The two requests for a line\<close>

definition mrp_action :: "nat \<Rightarrow> irqaction" where
  "mrp_action index = \<lparr>ahandler = MRP_INTERRUPT, aflags = SA_INTERRUPT OR SA_SHIRQ, amask = 0,
     aname = ''MRP'', adev = unit_addr index\<rparr>"

text \<open>A line takes the handler if it is free, or shared by handlers of the fast type.\<close>

definition takes_fast :: "irqs \<Rightarrow> nat \<Rightarrow> bool" where
  "takes_fast l i \<longleftrightarrow> i \<le> 15 \<and> (irq_action l i = [] \<or>
     aflags (hd (irq_action l i)) AND SA_SHIRQ \<noteq> 0 \<and> aflags (hd (irq_action l i)) AND SA_INTERRUPT \<noteq> 0)"

lemma sa_bit:
  "f AND SA_INTERRUPT = 0 \<longleftrightarrow> \<not> bit f 29" "f AND SA_SHIRQ = 0 \<longleftrightarrow> \<not> bit f 26"
  using and_exp_eq_0_iff_not_bit [of f 29] and_exp_eq_0_iff_not_bit [of f 26] by (simp_all add: sa_defs)

lemma sa_flag_bits:
  "bit (SA_INTERRUPT OR SA_SHIRQ) 29" "bit (SA_INTERRUPT OR SA_SHIRQ) 26"
  "\<not> bit SA_SHIRQ 29" "bit SA_SHIRQ 26" "bit SA_INTERRUPT 29" "\<not> bit SA_INTERRUPT 26"
  "(SA_INTERRUPT OR SA_SHIRQ) AND SA_SAMPLE_RANDOM = 0" "SA_SHIRQ AND SA_SAMPLE_RANDOM = 0"
  "SA_INTERRUPT \<noteq> 0"
  by (simp_all add: sa_defs)

lemma mrp_action_flags [simp]: "aflags (mrp_action index) = SA_INTERRUPT OR SA_SHIRQ" "adev (mrp_action index) = unit_addr index"
    "ahandler (mrp_action index) = MRP_INTERRUPT"
  by (simp_all add: mrp_action_def)

lemma request_first:
  assumes "request_irq mem i MRP_INTERRUPT (SA_INTERRUPT OR SA_SHIRQ) ''MRP'' (unit_addr index) l = (r, l')"
  shows "r = 0 \<longleftrightarrow> mem \<and> takes_fast l i"
    and "irq_action l' = (if r = 0 then (irq_action l)(i := irq_action l i @ [mrp_action index]) else irq_action l)"
    and "r \<noteq> 0 \<Longrightarrow> l' = l"
  using assms
  by (auto simp: request_irq_def setup_x86_irq_def Let_def takes_fast_def sa_bit sa_flag_bits bit_simps
      mrp_action_def MRP_INTERRUPT_def split: if_splits)

lemma request_second:
  assumes "aflags (hd (irq_action l i)) AND SA_INTERRUPT \<noteq> 0" "irq_action l i \<noteq> []"
    and "request_irq mem i MRP_INTERRUPT SA_SHIRQ ''MRP'' (unit_addr index) l = (r, l')"
  shows "r \<noteq> 0 \<and> l' = l"
  using assms
  by (auto simp: request_irq_def setup_x86_irq_def Let_def sa_bit sa_flag_bits bit_simps MRP_INTERRUPT_def split: if_splits)

text \<open>
  The first request either registers the handler, and then the second is refused because the types differ,
  or it fails. The number returned is never 0.
\<close>

lemma request_lines_eq:
  assumes "request_lines env index k = (r, k')"
  shows "r \<noteq> 0" and "net k' = net k"
    and "irq_action (lines k') =
      (if action_mem env index 0 \<and> takes_fast (lines k) (unat (irq (unit k index)))
       then (irq_action (lines k))(unat (irq (unit k index)) :=
         irq_action (lines k) (unat (irq (unit k index))) @ [mrp_action index])
       else irq_action (lines k))"
    and "irq_ok (lines k) \<Longrightarrow> irq_ok (lines k')"
proof -
  define i where "i = unat (irq (unit k index))"
  obtain r1 l1 where 1: "request_irq (action_mem env index 0) i MRP_INTERRUPT (SA_INTERRUPT OR SA_SHIRQ)
      ''MRP'' (unit_addr index) (lines k) = (r1, l1)" by fastforce
  obtain r2 l2 where 2: "request_irq (action_mem env index 1) i MRP_INTERRUPT SA_SHIRQ
      ''MRP'' (unit_addr index) l1 = (r2, l2)" by fastforce
  have k': "(r, k') = (if r1 = 0 then (r2, k\<lparr>lines := l2\<rparr>) else (r1, k\<lparr>lines := l1\<rparr>))"
    using assms 1 2 by (cases "r1 = 0") (simp_all add: request_lines_def i_def [symmetric] Let_def)
  have r2: "r2 \<noteq> 0 \<and> l2 = l1" if "r1 = 0"
  proof (rule request_second [OF _ _ 2])
    have t: "takes_fast (lines k) i" using request_first(1) [OF 1] that by simp
    have l1: "irq_action l1 i = irq_action (lines k) i @ [mrp_action index]"
      using request_first(2) [OF 1] that by simp
    then show "irq_action l1 i \<noteq> []" by simp
    show "aflags (hd (irq_action l1 i)) AND SA_INTERRUPT \<noteq> 0"
      using t unfolding l1 by (cases "irq_action (lines k) i") (auto simp: takes_fast_def sa_bit sa_flag_bits)
  qed
  have ok1: "irq_ok (lines k) \<Longrightarrow> irq_ok l1" using request_ok [of "lines k"] 1 by (metis snd_conv)
  show "r \<noteq> 0" "net k' = net k" using k' r2 by (auto split: if_splits)
  show "irq_ok (lines k) \<Longrightarrow> irq_ok (lines k')" using k' r2 ok1 by (auto split: if_splits)
  show "irq_action (lines k') =
      (if action_mem env index 0 \<and> takes_fast (lines k) (unat (irq (unit k index)))
       then (irq_action (lines k))(unat (irq (unit k index)) :=
         irq_action (lines k) (unat (irq (unit k index))) @ [mrp_action index])
       else irq_action (lines k))"
    using k' r2 request_first [OF 1] unfolding i_def [symmetric] by (auto split: if_splits)
qed

section \<open>Attaching a unit\<close>

lemma upd_simps [simp]:
  "unit (upd i f k) j = (if j = i then f (unit k i) else unit k j)" "lines (upd i f k) = lines k"
  "devs (upd i f k) = devs k" "procs (upd i f k) = procs k"
  by (simp_all add: upd_def upd_unit_def)

lemma flag_start [simp]: "flag MRPF_VALID (start_board dev u)" "irq (start_board dev u) = irq u"
  by (simp_all add: start_board_def Let_def set_flag_def flag_def mrpf_defs bit_or_nonzero)

lemma attach_detected:
  assumes "flag MRPF_DETECT (unit k index)" "buffer env index 0 = Some b" "buffer env index 1 = Some b'"
  shows "flag MRPF_VALID (unit (attach_unit env dev index k) index)"
    and "irq_action (lines (attach_unit env dev index k)) =
      (if action_mem env index 0 \<and> takes_fast (lines k) (unat (irq (unit k index)))
       then (irq_action (lines k))(unat (irq (unit k index)) :=
         irq_action (lines k) (unat (irq (unit k index))) @ [mrp_action index])
       else irq_action (lines k))"
    and "irq_ok (lines k) \<Longrightarrow> irq_ok (lines (attach_unit env dev index k))"
proof -
  define k1 where "k1 = upd index (\<lambda>u. u\<lparr>recvbuf := Some b'\<rparr>) (upd index (\<lambda>u. u\<lparr>sendbuf := Some b\<rparr>) k)"
  obtain r k2 where r: "request_lines env index k1 = (r, k2)" by fastforce
  have k1: "lines k1 = lines k" "irq (unit k1 index) = irq (unit k index)" by (simp_all add: k1_def)
  have a: "attach_unit env dev index k = upd index (start_board dev) k2"
    using assms r request_lines_eq(1) [OF r] by (simp add: attach_unit_def k1_def Let_def)
  show "flag MRPF_VALID (unit (attach_unit env dev index k) index)" by (simp add: a)
  show "irq_action (lines (attach_unit env dev index k)) =
      (if action_mem env index 0 \<and> takes_fast (lines k) (unat (irq (unit k index)))
       then (irq_action (lines k))(unat (irq (unit k index)) :=
         irq_action (lines k) (unat (irq (unit k index))) @ [mrp_action index])
       else irq_action (lines k))"
    using request_lines_eq(3) [OF r] by (simp add: a k1)
  show "irq_ok (lines k) \<Longrightarrow> irq_ok (lines (attach_unit env dev index k))"
    using request_lines_eq(4) [OF r] by (simp add: a k1)
qed

section \<open>The units after initialisation\<close>

text \<open>\<^verbatim>\<open>kmalloc\<close> returns buffers of the size it was asked for.\<close>

definition full_buffers :: "init_env \<Rightarrow> bool" where
  "full_buffers env \<longleftrightarrow> (\<forall>i j b. buffer env i j = Some b \<longrightarrow> ksize b = MRP_MAX_PKT_SIZE)"

text \<open>What initialisation keeps of a unit it has not opened yet.\<close>

definition fresh :: "mrp_unit \<Rightarrow> bool" where
  "fresh u \<longleftrightarrow> unit_ok u \<and> cp_idle u"

lemma fresh_zero: "fresh zero_unit"
  by (simp add: fresh_def unit_ok_def cp_idle_def zero_unit_def zero_ring_def buf_ok_def flag_def ring_ok_def)

lemma fresh_upd [simp]:
  "fresh (u\<lparr>base0 := a\<rparr>) = fresh u" "fresh (u\<lparr>base2 := a\<rparr>) = fresh u" "fresh (u\<lparr>regs := a\<rparr>) = fresh u"
  "fresh (u\<lparr>base4 := a\<rparr>) = fresh u" "fresh (u\<lparr>irq := a\<rparr>) = fresh u" "fresh (u\<lparr>reset_mode := m\<rparr>) = fresh u"
  by (simp_all add: fresh_def unit_ok_def cp_idle_def flag_def)

lemma fresh_flag [simp]:
  "fresh (set_flag MRPF_DETECT u) = fresh u" "fresh (set_flag MRPF_VALID u) = fresh u"
  by (simp_all add: fresh_def unit_ok_def cp_idle_def flag_def set_flag_def mrpf_defs set_and_other)

lemma fresh_buffer:
  "fresh u \<Longrightarrow> ksize b = MRP_MAX_PKT_SIZE \<Longrightarrow> fresh (u\<lparr>sendbuf := Some b\<rparr>)"
  "fresh u \<Longrightarrow> ksize b = MRP_MAX_PKT_SIZE \<Longrightarrow> fresh (u\<lparr>recvbuf := Some b\<rparr>)"
  by (simp_all add: fresh_def unit_ok_def cp_idle_def buf_ok_def flag_def)

lemma fresh_start [simp]: "fresh (start_board dev u) = fresh u"
  by (simp add: start_board_def Let_def)
    (simp add: fresh_def cp_idle_def flag_def or32_def and32_def rd32_def wr32_def wr16_def Let_def)

definition all_fresh :: "kernel \<Rightarrow> bool" where
  "all_fresh k \<longleftrightarrow> (\<forall>i. fresh (unit k i))"

lemma all_fresh_upd: "all_fresh k \<Longrightarrow> (\<And>u. fresh u \<Longrightarrow> fresh (f u)) \<Longrightarrow> all_fresh (upd i f k)"
  by (simp add: all_fresh_def)

lemma probe_unit_fresh: "all_fresh (snd bk) \<Longrightarrow> all_fresh (snd (probe_unit env i b f bk))"
  by (auto simp: probe_unit_def Let_def split_def intro!: all_fresh_upd split: option.split)

lemma probe_units_fresh: "all_fresh (snd bk) \<Longrightarrow> all_fresh (snd (probe_units env is bk))"
  by (induction env "is" bk rule: probe_units.induct) (auto simp: probe_unit_fresh split: option.split)

lemma attach_fresh:
  assumes "full_buffers env" "all_fresh k"
  shows "all_fresh (attach_unit env dev i k)"
proof -
  have net: "all_fresh (snd (request_lines env i k)) = all_fresh k" for k
    using request_lines_eq(2) [of env i k] by (simp add: all_fresh_def prod_eq_iff)
  show ?thesis
    using assms fresh_buffer
    by (auto simp: attach_unit_def Let_def split_def full_buffers_def net intro!: all_fresh_upd split: option.split)
qed

lemma init_fresh:
  assumes "full_buffers env"
  shows "all_fresh (snd (mrp_init env dev k))"
proof -
  define k0 where "k0 = k\<lparr>net := (net k)\<lparr>mrp_units := (\<lambda>_. zero_unit)\<rparr>\<rparr>"
  have "all_fresh k0" by (simp add: k0_def all_fresh_def fresh_zero)
  then have p: "all_fresh (snd (probe_units (pci env) [0, 1, 2, 3] (0, k0)))"
    by (intro probe_units_fresh) simp
  have f: "all_fresh (fold (attach_unit env dev) is k)" if "all_fresh k" for "is" k
    using that assms by (induction "is" arbitrary: k) (auto simp: attach_fresh)
  obtain n k1 where k1: "probe_units (pci env) [0, 1, 2, 3] (0, k0) = (n, k1)" by fastforce
  have "all_fresh k1" using p k1 by simp
  then have n: "all_fresh (k1\<lparr>devs := d\<rparr>)" "all_fresh (k1\<lparr>devs := d, net := (net k1)\<lparr>mrp_major := m\<rparr>, procs := q\<rparr>)" for d q m
    by (simp_all add: all_fresh_def)
  show ?thesis
    using f [OF n(2)] n(1) \<open>all_fresh k0\<close> \<open>all_fresh k1\<close>
    unfolding mrp_init_def Let_def k0_def [symmetric] k1
    by (simp add: split_def del: fold.simps)
qed

section \<open>Properties\<close>

text \<open>
  C36: the handling of the interrupt line in \<^verbatim>\<open>mrp_init\<close>. For a detected board with its buffers the unit always
  becomes valid. Its handler runs, behind those already on the line, exactly if the line was free or
  shared by fast handlers; if the line was refused, interrupts go on as before the attachment and never
  reach the unit, which is valid all the same.
\<close>
theorem mrp_attach_line:
  assumes "irq_ok (lines k)" "flag MRPF_DETECT (unit k index)"
    and "buffer env index 0 = Some b" "buffer env index 1 = Some b'"
    and "i = unat (irq (unit k index))" "0 < i" "i < 16" "pic_readback inb"
    and "k' = attach_unit env dev index k"
  shows "flag MRPF_VALID (unit k' index) \<and>
    snd (irq_interrupt inb hs i (lines k', x)) =
      (let y = snd (irq_interrupt inb hs i (lines k, x))
       in if action_mem env index 0 \<and> takes_fast (lines k) i then hs MRP_INTERRUPT i (unit_addr index) y else y)"
proof -
  note a = attach_detected [OF assms(2-4), of dev, folded assms(5,9)]
  show ?thesis
    using a(1,2) interrupt_runs [OF assms(1,6-8), of hs x] interrupt_runs [OF a(3) [OF assms(1)] assms(6-8), of hs x]
    by (cases "action_mem env index 0 \<and> takes_fast (lines k) i") (auto simp: Let_def)
qed

text \<open>A detected unit on line 11, which two slow handlers share, and memory for everything.\<close>

definition demo_kernel :: kernel where
  "demo_kernel = \<lparr>devs = empty_devices, lines = demo_irqs,
     net = (demo_psnet demo_pkt)\<lparr>mrp_units := (\<lambda>_. zero_unit\<lparr>flags := MRPF_DETECT, irq := 11\<rparr>)\<rparr>,
     procs = [], vfreed = [], kfreed = 0\<rparr>"

definition demo_env :: init_env where
  "demo_env = \<lparr>pci = \<lparr>pcibios_present = True, pcibios_find_device = (\<lambda>i. if i = 0 then Some (0, 0) else None),
       pcibios_read_config_dword = (\<lambda>_ _ _. Some 0xf0000000), pcibios_read_config_byte = (\<lambda>_ _ _. Some 11),
       high_memory = 0x01000000, vremap = (\<lambda>a n. a)\<rparr>,
     buffer = (\<lambda>_ _. Some zero_kbuf), action_mem = (\<lambda>_ _. True)\<rparr>"

theorem mrp_attach_line_witness:
  "flag MRPF_VALID (unit (attach_unit demo_env (feed_dev [] 0) 0 demo_kernel) 0)
   \<and> snd (irq_interrupt demo_inb note_handlers 11 (lines (attach_unit demo_env (feed_dev [] 0) 0 demo_kernel), [])) = [7, 5]"
proof -
  have k: "irq_ok (lines demo_kernel)" "flag MRPF_DETECT (unit demo_kernel 0)" "irq (unit demo_kernel 0) = 11"
    "lines demo_kernel = demo_irqs"
    using demo_irqs_ok by (simp_all add: demo_kernel_def flag_def mrpf_defs)
  have "\<not> takes_fast demo_irqs 11"
    by (simp add: takes_fast_def demo_irqs_def request_irq_def setup_x86_irq_def Let_def irqs_boot_def sa_defs)
  moreover have "snd (irq_interrupt demo_inb note_handlers 11 (demo_irqs, [])) = [7, 5]"
    using interrupt_runs [OF demo_irqs_ok _ _ demo_inb_readback, of 11 note_handlers "[]"]
    by (simp add: demo_irqs_def request_irq_def setup_x86_irq_def Let_def irqs_boot_def sa_defs note_handlers_def)
  ultimately show ?thesis
    using mrp_attach_line [OF k(1,2) _ _ _ _ _ demo_inb_readback refl, of demo_env zero_kbuf zero_kbuf 11 "feed_dev [] 0" note_handlers "[]"]
    by (simp add: k demo_env_def)
qed

text \<open>
  C6: from the initialisation on, in every interleaving of interrupts and file operations, calls that sleep
  included, every unit is consistent (its rings, buffers and lengths) and has not written a byte of the
  control plane to its board.
\<close>
theorem psnet_after_init:
  assumes "full_buffers env" "mrp_init env dev k = (r, k')" "(psnet_step dev)\<^sup>*\<^sup>* (net k') s"
  shows "\<forall>i. unit_ok (mrp_units s i) \<and> writes_to CPR (mbus (mrp_units s i)) = []"
proof -
  have "all_fresh k'" using init_fresh [OF assms(1), of dev k] assms(2) by simp
  then have "\<forall>i. unit_ok (unit k' i)" "\<forall>i. cp_idle (unit k' i)" by (auto simp: all_fresh_def fresh_def)
  then have "\<forall>i. unit_ok (mrp_units s i)" "\<forall>i. cp_idle (mrp_units s i)"
    using ok.steps_all [OF assms(3)] cp.steps_all [OF assms(3)] by blast+
  then show ?thesis by (simp add: cp_idle_def)
qed


theorem psnet_after_init_witness:
  "\<forall>i. unit_ok (mrp_units (mrp_release 0 (snd (mrp_open (feed_dev [] 0) 0 (net (snd (mrp_init demo_env (feed_dev [] 0) demo_kernel)))))) i)"
proof -
  let ?k = "snd (mrp_init demo_env (feed_dev [] 0) demo_kernel)"
  let ?s = "snd (mrp_open (feed_dev [] 0) 0 (net ?k))"
  have b: "full_buffers demo_env" by (simp add: full_buffers_def demo_env_def zero_kbuf_def)
  have "psnet_step (feed_dev [] 0) (net ?k) ?s" by (rule step_open [OF prod.collapse [symmetric]])
  moreover have "psnet_step (feed_dev [] 0) ?s (mrp_release 0 ?s)" by (rule step_release)
  ultimately have "(psnet_step (feed_dev [] 0))\<^sup>*\<^sup>* (net ?k) (mrp_release 0 ?s)" by simp
  from psnet_after_init [OF b prod.collapse [symmetric] this] show ?thesis by blast
qed

end
