(* ===== verification/Psnet_Unload.thy ===== *)
theory Psnet_Unload
  imports Psnet_Init
begin

text \<open>
  Loading and unloading the MRP network driver: what \<^verbatim>\<open>cleanup_module\<close> gives back of what \<^verbatim>\<open>mrp_init\<close> took.
\<close>

section \<open>What loading leaves alone\<close>

lemma upd_frame [simp]:
  "vfreed (upd i f k) = vfreed k" "kfreed (upd i f k) = kfreed k" "mrp_major (net (upd i f k)) = mrp_major (net k)"
  by (simp_all add: upd_def upd_unit_def)

text \<open>The resources of the kernel, apart from interrupt lines and the units themselves.\<close>

definition rest_of :: "kernel \<Rightarrow> devices \<times> string list \<times> u32 list \<times> nat \<times> int" where
  "rest_of k = (devs k, procs k, vfreed k, kfreed k, mrp_major (net k))"

lemma rest_upd [simp]: "rest_of (upd i f k) = rest_of k"
  by (simp add: rest_of_def)

lemma rest_lines [simp]: "rest_of (k\<lparr>lines := l\<rparr>) = rest_of k"
  by (simp add: rest_of_def)

lemma probe_unit_frame: "rest_of (snd (probe_unit env i b f bk)) = rest_of (snd bk)"
  "lines (snd (probe_unit env i b f bk)) = lines (snd bk)"
  by (auto simp: probe_unit_def Let_def split_def split: option.split)

lemma probe_units_frame: "rest_of (snd (probe_units env xs bk)) = rest_of (snd bk)"
  "lines (snd (probe_units env xs bk)) = lines (snd bk)"
  by (induction env xs bk rule: probe_units.induct) (auto simp: probe_unit_frame split: option.split)

lemma request_lines_rest: "rest_of (snd (request_lines env i k)) = rest_of k"
  by (simp add: request_lines_def Let_def split_def)

lemma attach_rest: "rest_of (attach_unit env dev i k) = rest_of k"
  by (simp add: attach_unit_def Let_def split_def request_lines_rest split: option.split)

lemma fold_attach_rest: "rest_of (fold (attach_unit env dev) xs k) = rest_of k"
  by (induction xs arbitrary: k) (simp_all add: attach_rest)

section \<open>Handlers added by loading\<close>

lemma attach_units:
  "j \<noteq> i \<Longrightarrow> unit (attach_unit env dev i k) j = unit k j"
  "irq (unit (attach_unit env dev i k) j) = irq (unit k j)"
proof -
  have net: "net (snd (request_lines env i k)) = net k" for k
    using request_lines_eq(2) [of env i k] by (simp add: prod_eq_iff)
  show "j \<noteq> i \<Longrightarrow> unit (attach_unit env dev i k) j = unit k j"
    by (simp add: attach_unit_def Let_def split_def net split: option.split)
  show "irq (unit (attach_unit env dev i k) j) = irq (unit k j)"
    by (simp add: attach_unit_def Let_def split_def net split: option.split)
qed

definition line_of :: "kernel \<Rightarrow> nat \<Rightarrow> nat" where
  "line_of k i = unat (irq (unit k i))"

lemma attach_line_of [simp]: "line_of (attach_unit env dev i k) = line_of k"
  by (rule ext) (simp add: line_of_def attach_units)

lemma attach_handler:
  obtains b where "irq_action (lines (attach_unit env dev i k)) =
      (if b then (irq_action (lines k))(line_of k i := irq_action (lines k) (line_of k i) @ [mrp_action i])
       else irq_action (lines k))"
    "b \<Longrightarrow> flag MRPF_VALID (unit (attach_unit env dev i k) i) \<and> line_of k i \<le> 15"
proof (cases "flag MRPF_DETECT (unit k i) \<and> buffer env i 0 \<noteq> None \<and> buffer env i 1 \<noteq> None")
  case True
  then obtain x y where xy: "flag MRPF_DETECT (unit k i)" "buffer env i 0 = Some x" "buffer env i 1 = Some y" by auto
  show thesis
  proof (rule that)
    show "irq_action (lines (attach_unit env dev i k)) =
        (if action_mem env i 0 \<and> takes_fast (lines k) (line_of k i)
         then (irq_action (lines k))(line_of k i := irq_action (lines k) (line_of k i) @ [mrp_action i])
         else irq_action (lines k))"
      using attach_detected(2) [OF xy, of dev] by (simp only: line_of_def)
    show "flag MRPF_VALID (unit (attach_unit env dev i k) i) \<and> line_of k i \<le> 15"
      if "action_mem env i 0 \<and> takes_fast (lines k) (line_of k i)"
      using that attach_detected(1) [OF xy, of dev] by (simp add: takes_fast_def)
  qed
next
  case False
  then have "lines (attach_unit env dev i k) = lines k"
    by (auto simp: attach_unit_def Let_def split: option.split)
  then show thesis using that [of False] by simp
qed

lemma attach_all_handlers:
  assumes "distinct xs"
  shows "\<exists>A. (\<forall>l. irq_action (lines (fold (attach_unit env dev) xs k)) l =
      irq_action (lines k) l @ map mrp_action (filter (\<lambda>i. i \<in> A \<and> line_of k i = l) xs)) \<and>
    (\<forall>i\<in>A. i \<in> set xs \<and> flag MRPF_VALID (unit (fold (attach_unit env dev) xs k) i) \<and> line_of k i \<le> 15) \<and>
    line_of (fold (attach_unit env dev) xs k) = line_of k"
  using assms
proof (induction xs arbitrary: k)
  case (Cons x xs)
  let ?k = "attach_unit env dev x k"
  obtain b where b: "irq_action (lines ?k) =
      (if b then (irq_action (lines k))(line_of k x := irq_action (lines k) (line_of k x) @ [mrp_action x])
       else irq_action (lines k))"
    "b \<Longrightarrow> flag MRPF_VALID (unit ?k x) \<and> line_of k x \<le> 15"
    by (rule attach_handler [of env dev x k]) blast
  obtain A where A: "\<And>l. irq_action (lines (fold (attach_unit env dev) xs ?k)) l =
      irq_action (lines ?k) l @ map mrp_action (filter (\<lambda>i. i \<in> A \<and> line_of k i = l) xs)"
    "\<And>i. i \<in> A \<Longrightarrow> i \<in> set xs \<and> flag MRPF_VALID (unit (fold (attach_unit env dev) xs ?k) i) \<and> line_of k i \<le> 15"
    "line_of (fold (attach_unit env dev) xs ?k) = line_of k"
    using Cons.IH [of ?k] Cons.prems by auto
  have keep: "unit (fold (attach_unit env dev) ys k') j = unit k' j" if "j \<notin> set ys" for ys k' j
    using that by (induction ys arbitrary: k') (simp_all add: attach_units)
  have x: "x \<notin> set xs" "x \<notin> A" using Cons.prems A(2) by auto
  let ?A = "if b then insert x A else A"
  have same: "filter (\<lambda>i. i \<in> insert x A \<and> line_of k i = l) xs = filter (\<lambda>i. i \<in> A \<and> line_of k i = l) xs" for l
    using x by (intro filter_cong) auto
  have "irq_action (lines (fold (attach_unit env dev) (x # xs) k)) l =
      irq_action (lines k) l @ map mrp_action (filter (\<lambda>i. i \<in> ?A \<and> line_of k i = l) (x # xs))" for l
    using A(1) [of l] b(1) x same [of l] by (cases b) auto
  moreover have "i \<in> set (x # xs) \<and> flag MRPF_VALID (unit (fold (attach_unit env dev) (x # xs) k) i) \<and> line_of k i \<le> 15"
    if "i \<in> ?A" for i
    using that A(2) [of i] b(2) keep [OF x(1), of ?k] by (auto split: if_splits)
  moreover have "line_of (fold (attach_unit env dev) (x # xs) k) = line_of k" using A(3) by simp
  ultimately show ?case by blast
qed auto

section \<open>Unloading\<close>

lemma irq_action_mask [simp]: "irq_action (mask_irq i s) = irq_action s"
  by (simp add: mask_irq_def Let_def outb_def)

lemma irq_action_free:
  "irq_action (free_irq i d s) =
     (if i > 15 then irq_action s
      else case unlink_action d (irq_action s i) of None \<Rightarrow> irq_action s | Some rest \<Rightarrow> (irq_action s)(i := rest))"
  by (auto simp: free_irq_def Let_def split: option.split)

lemma unlink_none: "(\<forall>a\<in>set as. adev a \<noteq> d) \<Longrightarrow> unlink_action d as = None"
  by (induction as) auto

lemma unlink_one: "(\<forall>a\<in>set as. adev a \<noteq> d) \<Longrightarrow> adev x = d \<Longrightarrow> unlink_action d (as @ x # bs) = Some (as @ bs)"
  by (induction as) auto

text \<open>The windows of a unit that are unmapped, and its buffers.\<close>

definition windows :: "mrp_unit \<Rightarrow> u32 list" where
  "windows u = filter (\<lambda>a. a \<noteq> 0) [base0 u, base2 u, regs u]"

definition buffers :: "mrp_unit \<Rightarrow> nat" where
  "buffers u = length (filter (\<lambda>b. b \<noteq> None) [sendbuf u, recvbuf u, buf38 u, buf40 u])"

lemma stop_unit_frame:
  "devs (stop_unit dev i k) = devs k" "procs (stop_unit dev i k) = procs k"
  "mrp_major (net (stop_unit dev i k)) = mrp_major (net k)"
  "vfreed (stop_unit dev i k) = rev (windows (unit k i)) @ vfreed k"
  "kfreed (stop_unit dev i k) = kfreed k + buffers (unit k i)"
  "windows (unit (stop_unit dev i k) j) = windows (unit k j)"
  "buffers (unit (stop_unit dev i k) j) = buffers (unit k j)"
  "flag m (unit (stop_unit dev i k) j) = flag m (unit k j)"
  "line_of (stop_unit dev i k) j = line_of k j"
  "irq_action (lines (stop_unit dev i k)) =
     (if flag MRPF_VALID (unit k i) then irq_action (free_irq (line_of k i) (unit_addr i) (lines k)) else irq_action (lines k))"
  unfolding stop_unit_def windows_def buffers_def
  by (simp_all add: Let_def upd_def upd_unit_def flag_def line_of_def)

lemma stop_all:
  "devs (fold (stop_unit dev) xs k) = devs k \<and> procs (fold (stop_unit dev) xs k) = procs k \<and>
   mrp_major (net (fold (stop_unit dev) xs k)) = mrp_major (net k) \<and>
   vfreed (fold (stop_unit dev) xs k) = rev (concat (map (\<lambda>i. windows (unit k i)) xs)) @ vfreed k \<and>
   kfreed (fold (stop_unit dev) xs k) = kfreed k + sum_list (map (\<lambda>i. buffers (unit k i)) xs)"
  by (induction xs arbitrary: k) (simp_all add: stop_unit_frame)

lemma stop_all_handlers:
  assumes "distinct xs" "\<And>l. irq_action (lines k) l = base l @ map mrp_action (filter (\<lambda>i. i \<in> A \<and> line_of k i = l) xs)"
    and "\<And>i. i \<in> A \<Longrightarrow> flag MRPF_VALID (unit k i) \<and> line_of k i \<le> 15"
    and "\<And>l a i. a \<in> set (base l) \<Longrightarrow> i \<in> set xs \<Longrightarrow> adev a \<noteq> unit_addr i"
  shows "irq_action (lines (fold (stop_unit dev) xs k)) = base"
  using assms
proof (induction xs arbitrary: k)
  case Nil
  then show ?case by auto
next
  case (Cons x xs)
  let ?k = "stop_unit dev x k"
  let ?own = "\<lambda>l. map mrp_action (filter (\<lambda>i. i \<in> A \<and> line_of k i = l) xs)"
  have others: "adev a \<noteq> unit_addr x" if "a \<in> set (base l) \<union> set (?own l)" for a l
    using that Cons.prems(1,4) by (auto simp: unit_addr_def)
  have "irq_action (lines ?k) l = base l @ ?own l" for l
  proof (cases "x \<in> A")
    case True
    have "unlink_action (unit_addr x) (irq_action (lines k) (line_of k x)) = Some (base (line_of k x) @ ?own (line_of k x))"
      unfolding Cons.prems(2) [of "line_of k x"] using True others by (auto simp: mrp_action_def intro!: unlink_one)
    then show ?thesis
      using True Cons.prems(2) [of l] Cons.prems(3) [OF True] by (auto simp: stop_unit_frame irq_action_free)
  next
    case False
    have "unlink_action (unit_addr x) (irq_action (lines k) (line_of k x)) = None"
      unfolding Cons.prems(2) [of "line_of k x"] using False others by (intro unlink_none) auto
    then show ?thesis
      using False Cons.prems(2) [of l] by (simp add: stop_unit_frame irq_action_free)
  qed
  then show ?case
    using Cons.prems by (simp, intro Cons.IH) (auto simp: stop_unit_frame)
qed

section \<open>The round trip\<close>

text \<open>Either loading gave up before registering anything, or all of the device number, the name in
  \<^verbatim>\<open>/proc\<close> and the handlers were taken.\<close>

lemma mrp_init_cases:
  assumes "mrp_init env dev k = (r, k1)" "mrp_major (net k) = 0"
  obtains (gave_up) "mrp_major (net k1) = 0" "rest_of k1 = rest_of k" "lines k1 = lines k"
    "pcibios_present (pci env) \<Longrightarrow> (\<exists>k. fst (probe_units (pci env) [0, 1, 2, 3] (0, k)) = 0)
       \<or> fst (register_chrdev 0 ''mrp'' (Some MRP_FOPS) (devs k)) \<le> 0"
  | (loaded) m d k' where "register_chrdev 0 ''mrp'' (Some MRP_FOPS) (devs k) = (m, d)" "m > 0"
    "k1 = fold (attach_unit env dev) [0, 1, 2, 3] k'" "lines k' = lines k"
    "rest_of k' = (d, ''mrp'' # procs k, vfreed k, kfreed k, m)"
proof -
  define k0 where "k0 = k\<lparr>net := (net k)\<lparr>mrp_units := (\<lambda>_. zero_unit)\<rparr>\<rparr>"
  have k0: "rest_of k0 = rest_of k" "lines k0 = lines k" by (simp_all add: k0_def rest_of_def)
  obtain n kp where p: "probe_units (pci env) [0, 1, 2, 3] (0, k0) = (n, kp)" by fastforce
  have kp: "rest_of kp = rest_of k" "lines kp = lines k"
    using probe_units_frame [of "pci env" "[0, 1, 2, 3]" "(0, k0)", unfolded p snd_conv] k0 by simp_all
  obtain m d where md: "register_chrdev 0 ''mrp'' (Some MRP_FOPS) (devs k) = (m, d)" by fastforce
  have same: "devs kp = devs k" "mrp_major (net kp) = 0" using kp(1) assms(2) by (auto simp: rest_of_def)
  note init = assms(1) [unfolded mrp_init_def Let_def, folded k0_def, unfolded p split same(1) md]
  consider "\<not> pcibios_present (pci env)" | "pcibios_present (pci env)" "n = 0"
    | "pcibios_present (pci env)" "n \<noteq> 0" "m \<le> 0" | "pcibios_present (pci env)" "n \<noteq> 0" "m > 0" by linarith
  then show thesis
  proof cases
    case 1
    then show thesis using init k0 assms(2) by (intro gave_up) (auto simp: rest_of_def)
  next
    case 2
    then show thesis using init kp same p by (intro gave_up) (auto intro: exI [of _ k0] simp del: probe_units.simps)
  next
    case 3
    then have "d = devs k" using chr.dynamic_failed [OF md] by simp
    then have "k1 = kp\<lparr>devs := devs kp\<rparr>" using 3 init same by auto
    then show thesis using kp same md 3(3) by (intro gave_up) (simp_all add: rest_of_def)
  next
    case 4
    let ?k = "kp\<lparr>devs := d, net := (net kp)\<lparr>mrp_major := m\<rparr>, procs := ''mrp'' # procs kp\<rparr>"
    have "k1 = fold (attach_unit env dev) [0, 1, 2, 3] ?k"
      using init 4 by (simp del: fold_simps)
    then show thesis using kp 4 md by (intro loaded [of m d ?k]) (simp_all only: rest_of_def, simp_all)
  qed
qed

text \<open>
  C16: Unloading the driver right after loading it, on any set of boards and whatever allocations succeeded, gives back the
  device number, the name in \<^verbatim>\<open>/proc\<close> and exactly the interrupt handlers that loading added, also when
  boards share a line with each other or with another driver. Of the memory it releases every buffer, and of the four
  windows of each unit it passes three to \<^verbatim>\<open>vfree\<close>: the window at \<^verbatim>\<open>base4\<close> is not, and when no device
  number was free none of them is.
\<close>

theorem mrp_load_unload:
  assumes "mrp_init env dev k = (r, k1)" "mrp_major (net k) = 0"
    and "\<And>l a i. a \<in> set (irq_action (lines k) l) \<Longrightarrow> i < 4 \<Longrightarrow> adev a \<noteq> unit_addr i"
  defines "k2 \<equiv> cleanup_module dev k1"
  shows "get_chrfops major 0 (devs k2) = get_chrfops major 0 (devs k) \<and> procs k2 = procs k
    \<and> irq_action (lines k2) = irq_action (lines k)
    \<and> vfreed k2 = (if mrp_major (net k1) = 0 then []
         else rev (concat (map (\<lambda>i. windows (unit k1 i)) [0, 1, 2, 3]))) @ vfreed k
    \<and> kfreed k2 = kfreed k + (if mrp_major (net k1) = 0 then 0 else sum_list (map (\<lambda>i. buffers (unit k1 i)) [0, 1, 2, 3]))"
  using assms(1,2)
proof (cases rule: mrp_init_cases)
  case gave_up
  then show ?thesis by (simp add: k2_def cleanup_module_def rest_of_def)
next
  case (loaded m d k')
  define xs where "xs = [0, 1, 2, 3 :: nat]"
  have xs: "distinct xs" "\<And>i. i \<in> set xs \<Longrightarrow> i < 4" by (auto simp: xs_def)
  note k1_eq = loaded(3) [folded xs_def]
  let ?s = "fold (stop_unit dev) xs k1"
  have k1: "devs k1 = d" "procs k1 = ''mrp'' # procs k" "vfreed k1 = vfreed k" "kfreed k1 = kfreed k" "mrp_major (net k1) = m"
    using loaded(5) fold_attach_rest [of env dev xs k'] unfolding k1_eq rest_of_def by simp_all
  obtain A where A: "\<And>l. irq_action (lines k1) l =
      irq_action (lines k) l @ map mrp_action (filter (\<lambda>i. i \<in> A \<and> line_of k1 i = l) xs)"
    "\<And>i. i \<in> A \<Longrightarrow> flag MRPF_VALID (unit k1 i) \<and> line_of k1 i \<le> 15"
    using attach_all_handlers [OF xs(1), of env dev k'] unfolding k1_eq [symmetric] loaded(4) by auto
  have irqs: "irq_action (lines ?s) = irq_action (lines k)"
    by (rule stop_all_handlers [where A = A]) (use A assms(3) xs in auto)
  note s = stop_all [of dev xs k1, unfolded k1]
  have "k2 = ?s\<lparr>devs := snd (unregister_chrdev (nat m) ''mrp'' d), procs := remove1 ''mrp'' (''mrp'' # procs k)\<rparr>"
    using loaded(2) s k1(5) unfolding k2_def cleanup_module_def Let_def xs_def [symmetric] by (simp add: split_def)
  then show ?thesis unfolding xs_def [symmetric]
    using irqs s k1(5) loaded(2) chr.unregister_back [OF loaded(1,2)] by simp
qed

text \<open>One board, on line 11, which a fast shared handler of another driver is on already.\<close>

definition shared_line_kernel :: kernel where
  "shared_line_kernel = demo_kernel
     \<lparr>lines := snd (request_irq True 11 5 (SA_INTERRUPT OR SA_SHIRQ) ''one'' 100 irqs_boot),
      net := (net demo_kernel)\<lparr>mrp_major := 0\<rparr>\<rparr>"

lemma demo_probe: "fst (probe_units (pci demo_env) [0, 1, 2, 3] (0, k)) = 1"
proof -
  have base: "mrp_base (pci demo_env) 0 0 w = 0xf0000000" for w
    by (simp add: mrp_base_def demo_env_def)
  have remap: "mrp_remap (pci demo_env) 0xf0000000 \<noteq> 0"
    by (simp add: mrp_remap_def demo_env_def MAP_NR_def PAGE_MASK_def PAGE_SIZE_def Let_def)
  show ?thesis
    using base remap by (simp add: probe_unit_def Let_def demo_env_def)
qed

lemma demo_loads: "mrp_major (net (snd (mrp_init demo_env dev shared_line_kernel))) = 127"
proof (cases "mrp_init demo_env dev shared_line_kernel")
  case (Pair r k1)
  have major: "mrp_major (net shared_line_kernel) = 0" by (simp add: shared_line_kernel_def)
  have reg: "fst (register_chrdev 0 ''mrp'' (Some MRP_FOPS) (devs shared_line_kernel)) = 127"
    by (simp add: shared_line_kernel_def demo_kernel_def chrdev_defs empty_devices_def no_device_def MAX_CHRDEV_def numeral_eq_Suc)
  from Pair major have "mrp_major (net k1) = 127"
  proof (cases rule: mrp_init_cases)
    case gave_up
    have "pcibios_present (pci demo_env)" by (simp add: demo_env_def)
    then show ?thesis using gave_up(4) reg unfolding demo_probe by simp
  next
    case (loaded m d k')
    then show ?thesis
      using reg fold_attach_rest [of demo_env dev "[0, 1, 2, 3]" k'] by (simp add: rest_of_def del: fold_simps)
  qed
  then show ?thesis using Pair by simp
qed

theorem mrp_load_unload_witness:
  "let k1 = snd (mrp_init demo_env (feed_dev [] 0) shared_line_kernel); k2 = cleanup_module (feed_dev [] 0) k1
   in mrp_major (net k1) = 127 \<and> map adev (irq_action (lines k2) 11) = [100] \<and> get_chrfops 127 0 (devs k2) = None \<and> procs k2 = []"
proof -
  obtain r k1 where k1: "mrp_init demo_env (feed_dev [] 0) shared_line_kernel = (r, k1)" by fastforce
  have act: "irq_action (lines shared_line_kernel) = (\<lambda>_. [])(11 :=
      [\<lparr>ahandler = 5, aflags = SA_INTERRUPT OR SA_SHIRQ, amask = 0, aname = ''one'', adev = 100\<rparr>])"
    by (simp add: shared_line_kernel_def request_irq_def setup_x86_irq_def Let_def irqs_boot_def fun_eq_iff)
  have "mrp_major (net shared_line_kernel) = 0" "get_chrfops 127 0 (devs shared_line_kernel) = None" "procs shared_line_kernel = []"
    by (simp_all add: shared_line_kernel_def demo_kernel_def empty_devices_def chrdev_defs no_device_def)
  then show ?thesis
    using mrp_load_unload [OF k1, of 127] demo_loads [of "feed_dev [] 0"] k1
    by (auto simp: act unit_addr_def split: if_splits)
qed

end
