(* ===== verification/Psnet_Info.thy ===== *)
theory Psnet_Info
  imports Psnet_File Vsprintf
begin

text \<open>
  The report of the MRP network driver in \<^verbatim>\<open>/proc/mrp\<close>, \<^verbatim>\<open>mrp_get_info\<close> of
  \<^verbatim>\<open>drivers/char/ps2mrp-psnet.c\<close>. The text is built with \<^verbatim>\<open>sprintf\<close> into one page that the proc file
  system hands in; nothing in the function looks at how much of it is left. The word read through the
  \<^verbatim>\<open>base4\<close> window is the hardware's and a parameter.
\<close>

section \<open>The report\<close>

text \<open>\<^verbatim>\<open>cat(fmt, arg...)\<close> on the text so far.\<close>

definition cat :: "string \<Rightarrow> varg list \<Rightarrow> string \<Rightarrow> string" where
  "cat fmt args t = t @ print fmt args"

text \<open>One row of \<^verbatim>\<open>hexdump\<close>: \<^verbatim>\<open>numbytes\<close> bytes of the buffer from \<^verbatim>\<open>pos\<close> on.\<close>

definition hex_byte :: "u8 \<Rightarrow> nat \<Rightarrow> string \<Rightarrow> string" where
  "hex_byte b i t = (let t = cat ''%02x'' [AInt (ucast b)] t in if odd i then cat '' '' [] t else t)"

definition hex_gap :: "nat \<Rightarrow> string \<Rightarrow> string" where
  "hex_gap i t = (if odd i then cat ''   '' [] t else cat ''  '' [] t)"

definition hex_char :: "u8 \<Rightarrow> string \<Rightarrow> string" where
  "hex_char b t = (if b \<ge> 32 \<and> b \<le> 126 then cat ''%c'' [AInt (ucast b)] t else cat ''.'' [] t)"

definition hex_row :: "mem \<Rightarrow> nat \<Rightarrow> u32 \<Rightarrow> nat \<Rightarrow> string \<Rightarrow> string" where
  "hex_row mybuf pos off numbytes t =
     (let t = cat ''%08x: '' [AInt off] t;
          t = fold (\<lambda>i. hex_byte (mybuf (pos + i)) i) [0..<numbytes] t;
          t = fold hex_gap [numbytes..<16] t;
          t = cat '' '' [] t;
          t = fold (\<lambda>i. hex_char (mybuf (pos + i))) [0..<numbytes] t
      in cat ''\<newline>'' [] t)"

function hexdump :: "mem \<Rightarrow> nat \<Rightarrow> u32 \<Rightarrow> nat \<Rightarrow> string \<Rightarrow> string" where
  "hexdump mybuf pos off siz t =
     (if siz = 0 then t
      else let numbytes = (if siz > 16 then 16 else siz)
           in hexdump mybuf (pos + numbytes) (off + 16) (siz - numbytes) (hex_row mybuf pos off numbytes t))"
  by pat_completeness auto
termination
  by (relation "measure (\<lambda>(_, _, _, siz, _). siz)") auto

declare hexdump.simps [simp del]

text \<open>\<^verbatim>\<open>if (mrp->nbytes) { cat(...); hexdump(...); }\<close>; a null or too short buffer is read out of bounds.\<close>

definition dump_boot :: "string \<Rightarrow> kbuf option \<Rightarrow> int \<Rightarrow> string \<Rightarrow> string run" where
  "dump_boot title bf nbytes t =
     (if nbytes = 0 then Done t
      else case bf of
             None \<Rightarrow> Fault
           | Some k \<Rightarrow>
               if unat (word_of_int nbytes :: u32) > ksize k then Fault
               else Done (hexdump (kbytes k) 0 0 (unat (word_of_int nbytes :: u32)) (cat title [] t)))"

definition flag_words :: "(u32 \<times> string) list" where
  "flag_words = [(MRPF_DETECT, '' DETECT''), (MRPF_VALID, '' VALID''), (MRPF_RESET, '' RESET''),
     (MRPF_OPENED, '' OPENED''), (MRPF_SBUSY, '' SBUSY''), (MRPF_RDONE, '' RDONE''),
     (MRPF_REQTAG, '' REQTAG''), (MRPF_CPOPEN, '' CPOPEN''), (MRPF_CPBUSY, '' CPBUSY'')]"

definition reg_words :: "(mreg \<times> string) list" where
  "reg_words = [(BID, '' BID=%04x''), (RST, '' RST=%04x''), (CPS, '' CPS=%04x''), (CPR, '' CPR=%04x''),
     (FST, '' FST=%04x''), (TXC, '' TXC=%04x''), (RXC, '' RXC=%04x''), (F1C, '' F1C=%04x\<newline>''),
     (IST, '' IST=%04x''), (ISP, '' ISP=%04x''), (IER, '' IER=%04x''), (CSI, '' CSI=%04x''),
     (FSI, '' FSI=%04x''), (AEO, '' AEO=%04x''), (AFO, '' AFO=%04x\<newline>'')]"

definition cat_reg :: "mrp_dev \<Rightarrow> mreg \<times> string \<Rightarrow> string \<times> mrp_unit \<Rightarrow> string \<times> mrp_unit" where
  "cat_reg dev rf tu =
     (let (v, u) = rdr dev (fst rf) (snd tu) in (cat (snd rf) [AInt (ucast v)] (fst tu), u))"

text \<open>The part for a valid unit.\<close>

definition info_valid :: "mrp_dev \<Rightarrow> u32 \<Rightarrow> string \<times> mrp_unit \<Rightarrow> (string \<times> mrp_unit) run" where
  "info_valid dev data0 tu =
     (let (t, u) = fold (cat_reg dev) reg_words tu
      in if base4 u = 0 then Fault
         else
           let t = cat '' base4 = 0x%08x, reset_mode = %d\<newline>'' [AInt data0, AInt (word_of_int (reset_mode u))] t;
               t = cat '' nbytes38=%xh, nbytes40=%xh\<newline>''
                     [AInt (word_of_int (nbytes38 u)), AInt (word_of_int (nbytes40 u))] t
           in case dump_boot '' buf38:\<newline>'' (buf38 u) (nbytes38 u) t of
                Fault \<Rightarrow> Fault
              | Done t \<Rightarrow>
                  (case dump_boot '' buf40:\<newline>'' (buf40 u) (nbytes40 u) t of
                     Fault \<Rightarrow> Fault
                   | Done t \<Rightarrow> Done (t, u)))"

definition info_unit :: "mrp_dev \<Rightarrow> u32 \<Rightarrow> nat \<Rightarrow> string \<times> mrp_unit \<Rightarrow> (string \<times> mrp_unit) run" where
  "info_unit dev data0 index tu =
     (let (t, u) = tu;
          t = cat ''unit%d'' [AInt (of_nat index)] t;
          t = fold (\<lambda>(m, w) t. if flag m u then cat w [] t else t) flag_words t;
          t = cat '' nintr=%d'' [AInt (nintr u)] t;
          t = cat ''\<newline>'' [] t
      in if flag MRPF_VALID u then info_valid dev data0 (t, u) else Done (t, u))"

fun info_units ::
    "mrp_dev \<Rightarrow> (nat \<Rightarrow> u32) \<Rightarrow> nat list \<Rightarrow> string \<times> psnet \<Rightarrow> (string \<times> psnet) run" where
  "info_units dev data0 [] ts = Done ts"
| "info_units dev data0 (index # is) (t, s) =
     (case info_unit dev (data0 index) index (t, mrp_units (cli s) index) of
        Fault \<Rightarrow> Fault
      | Done (t, u) \<Rightarrow> info_units dev data0 is (t, sti (upd_unit index (\<lambda>_. u) (cli s))))"

text \<open>The length it returns, the text in the page, and the state.\<close>

definition mrp_get_info ::
    "mrp_dev \<Rightarrow> (nat \<Rightarrow> u32) \<Rightarrow> psnet \<Rightarrow> (int \<times> string \<times> psnet) run" where
  "mrp_get_info dev data0 s =
     (let t = cat ''DECI1 $Revision: 3.10 $ %s %s\<newline>'' [AStr (Some ''Mar 10 1999''), AStr (Some ''21:15:11'')] []
      in case info_units dev data0 [0, 1, 2, 3] (t, s) of
           Fault \<Rightarrow> Fault
         | Done (t, s) \<Rightarrow> Done (int (length t), t, s))"

section \<open>Lengths\<close>

lemma cat_length: "length (cat fmt args t) = length t + length (print fmt args)"
  by (simp add: cat_def)

lemma print_literal [simp]: "CHR ''%'' \<notin> set lit \<Longrightarrow> print lit [] = lit"
  using vs_loop_literal [of lit "[]"] by (simp add: print_def sprintf_def vsprintf_def emit_def)

lemma hex_text:
  assumes "unat w < 16 ^ k" "0 < k"
  shows "length (number_text w 16 (int k) (- 1) 1) = k"
  using number_digits_bound [OF _ assms, of False] number_digits_length(1) [of 16 False w]
  by (simp add: number_text_length number_sign_def number_prefix_def number_abs_def has_def fmt_flag_defs)

lemma dec_text:
  "length (number_text w 10 (- 1) (- 1) 2) \<le> 11" "length (number_text w 16 (- 1) (- 1) 0) \<le> 8"
proof -
  have "unat (number_abs 2 w) < 2 ^ 32" by (rule unat_u32_less)
  then have "length (number_digits False 10 (number_abs 2 w)) \<le> 10"
    by (intro number_digits_bound) simp_all
  moreover have "length (number_sign 2 w) \<le> 1" "number_prefix 2 10 = []"
    by (simp_all add: number_sign_def number_prefix_def has_def fmt_flag_defs)
  ultimately show "length (number_text w 10 (- 1) (- 1) 2) \<le> 11"
    by (simp add: number_text_length has_def fmt_flag_defs)
  have "unat w < 2 ^ 32" by (rule unat_u32_less)
  then have "length (number_digits False 16 w) \<le> 8"
    by (intro number_digits_bound) simp_all
  then show "length (number_text w 16 (- 1) (- 1) 0) \<le> 8"
    by (simp add: number_text_length number_sign_def number_prefix_def number_abs_def has_def fmt_flag_defs)
qed

lemma print_hex [simp]:
  "length (print ''%08x: '' [AInt w]) = 10" "length (print ''%02x'' [AInt (ucast (b :: u8))]) = 2"
  "length (print ''%c'' [AInt w]) = 1"
proof -
  have "unat w < 2 ^ 32" by (rule unat_u32_less)
  then show "length (print ''%08x: '' [AInt w]) = 10"
    using hex_text [of w 8] by (simp add: print_def sprintf_eval)
  have "unat b < 2 ^ 8" using unsigned_less [of b] by simp
  then have "unat (ucast b :: u32) < 16 ^ 2" by (simp add: unsigned_ucast_eq take_bit_nat_eq_self)
  then show "length (print ''%02x'' [AInt (ucast (b :: u8))]) = 2"
    using hex_text [of "ucast b" 2] by (simp add: print_def sprintf_eval)
  show "length (print ''%c'' [AInt w]) = 1"
    by (simp add: print_def sprintf_eval)
qed

text \<open>Every row takes 52 characters and one for each byte.\<close>

lemma fold_length:
  assumes "\<And>x t. x \<in> set xs \<Longrightarrow> length (f x t) = length t + g x"
  shows "length (fold f xs t) = length t + sum_list (map g xs)"
  using assms by (induction xs arbitrary: t) simp_all

lemma hex_row_length:
  assumes "n \<le> 16"
  shows "length (hex_row m pos off n t) = length t + 52 + n"
proof -
  have bytes: "length (fold (\<lambda>i. hex_byte (m (pos + i)) i) [0..<n] t)
      = length t + sum_list (map (\<lambda>i. if odd i then 3 else 2) [0..<n])" for t
    by (rule fold_length) (simp add: hex_byte_def Let_def cat_length)
  have gaps: "length (fold hex_gap [n..<16] t) = length t + sum_list (map (\<lambda>i. if odd i then 3 else 2) [n..<16])" for t
    by (rule fold_length) (simp add: hex_gap_def cat_length)
  have chars: "length (fold (\<lambda>i. hex_char (m (pos + i))) [0..<n] t) = length t + sum_list (map (\<lambda>i. 1) [0..<n])" for t
    by (rule fold_length) (simp add: hex_char_def cat_length)
  have "[0..<n] @ [n..<16] = [0..<16]" using assms by (metis le0 le_add_diff_inverse upt_add_eq_append)
  then have "sum_list (map (\<lambda>i. if odd i then 3 else 2) [0..<n]) + sum_list (map (\<lambda>i. if odd i then 3 else 2) [n..<16])
      = sum_list (map (\<lambda>i. if odd i then 3 else 2 :: nat) [0..<16])"
    by (metis map_append sum_list_append)
  also have "\<dots> = 40" by code_simp
  finally show ?thesis
    by (simp add: hex_row_def Let_def cat_length bytes gaps chars sum_list_triv)
qed

definition dump_length :: "nat \<Rightarrow> nat" where
  "dump_length n = n + 52 * ((n + 15) div 16)"

lemma hexdump_length: "length (hexdump m pos off n t) = length t + dump_length n"
proof (induction m pos off n t rule: hexdump.induct)
  case (1 m pos off n t)
  show ?case
  proof (cases "n = 0")
    case False
    then have "(n + 15) div 16 = Suc ((n - (if n > 16 then 16 else n) + 15) div 16)" by auto
    then show ?thesis
      using 1 False by (subst hexdump.simps) (simp add: Let_def hex_row_length dump_length_def)
  qed (simp add: hexdump.simps dump_length_def)
qed

lemma print_bounds:
  "length (print ''unit%d'' [AInt w]) \<le> 15" "length (print '' nintr=%d'' [AInt w]) \<le> 18"
  "length (print '' base4 = 0x%08x, reset_mode = %d\<newline>'' [AInt w, AInt v]) \<le> 46"
  "length (print '' nbytes38=%xh, nbytes40=%xh\<newline>'' [AInt w, AInt v]) \<le> 40"
  "length (print ''DECI1 $Revision: 3.10 $ %s %s\<newline>'' [AStr (Some ''Mar 10 1999''), AStr (Some ''21:15:11'')]) = 45"
proof -
  note d = dec_text [of w] dec_text [of v]
  have "unat w < 16 ^ 8" using unat_u32_less [of w] by simp
  note h = hex_text [OF this]
  show "length (print ''unit%d'' [AInt w]) \<le> 15" using d by (simp add: print_def sprintf_eval)
  show "length (print '' nintr=%d'' [AInt w]) \<le> 18" using d by (simp add: print_def sprintf_eval)
  show "length (print '' base4 = 0x%08x, reset_mode = %d\<newline>'' [AInt w, AInt v]) \<le> 46"
    using d h by (simp add: print_def sprintf_eval)
  show "length (print '' nbytes38=%xh, nbytes40=%xh\<newline>'' [AInt w, AInt v]) \<le> 40"
    using d by (simp add: print_def sprintf_eval)
  show "length (print ''DECI1 $Revision: 3.10 $ %s %s\<newline>'' [AStr (Some ''Mar 10 1999''), AStr (Some ''21:15:11'')]) = 45"
    by (simp add: print_def sprintf_eval)
qed

lemma print_reg:
  assumes "rf \<in> set reg_words"
  shows "length (print (snd rf) [AInt (ucast (v :: u16))]) \<le> 10"
proof -
  have "unat v < 2 ^ 16" using unsigned_less [of v] by simp
  then have "unat (ucast v :: u32) < 16 ^ 4" by (simp add: unsigned_ucast_eq take_bit_nat_eq_self)
  from hex_text [OF this]
  have t: "length (number_text (ucast v) 16 4 (- 1) 1) = 4" by simp
  have "\<forall>rf \<in> set reg_words. length (print (snd rf) [AInt (ucast (v :: u16))]) \<le> 10"
    using t by (simp add: reg_words_def print_def sprintf_eval)
  then show ?thesis using assms by blast
qed

section \<open>The length of the report\<close>

text \<open>What must hold for a valid unit so that the report does not read through a null pointer.\<close>

definition info_ok :: "mrp_unit \<Rightarrow> bool" where
  "info_ok u \<longleftrightarrow> (flag MRPF_VALID u \<longrightarrow> base4 u \<noteq> 0
     \<and> 0 \<le> nbytes38 u \<and> nbytes38 u < 2 ^ 32 \<and> (nbytes38 u \<noteq> 0 \<longrightarrow> (\<exists>(k :: kbuf). buf38 u = Some k \<and> nat (nbytes38 u) \<le> ksize k))
     \<and> 0 \<le> nbytes40 u \<and> nbytes40 u < 2 ^ 32 \<and> (nbytes40 u \<noteq> 0 \<longrightarrow> (\<exists>(k :: kbuf). buf40 u = Some k \<and> nat (nbytes40 u) \<le> ksize k)))"

definition kept_length :: "mrp_unit \<Rightarrow> nat" where
  "kept_length u = (if flag MRPF_VALID u then dump_length (nat (nbytes38 u)) + dump_length (nat (nbytes40 u)) else 0)"

lemma dump_boot_length:
  assumes "0 \<le> n" "n < 2 ^ 32" "n \<noteq> 0 \<longrightarrow> (\<exists>(k :: kbuf). b = Some k \<and> nat n \<le> ksize k)"
    and "CHR ''%'' \<notin> set title" "length title \<le> 8"
  shows "\<exists>t'. dump_boot title b n t = Done t' \<and> length t + dump_length (nat n) \<le> length t'
    \<and> length t' \<le> length t + dump_length (nat n) + 8"
proof (cases "n = 0")
  case True
  then show ?thesis by (simp add: dump_boot_def dump_length_def)
next
  case False
  then obtain k where k: "b = Some (k :: kbuf)" "nat n \<le> ksize k" using assms(3) by auto
  have "dump_boot title b n t = Done (hexdump (kbytes k) 0 0 (nat n) (t @ title))"
    using False k assms(4) by (simp add: dump_boot_def unat_word_of_int [OF assms(1,2)] cat_def)
  then show ?thesis using assms(5) by (simp add: hexdump_length)
qed

lemma fold_cat_reg:
  assumes "set rs \<subseteq> set reg_words" "fold (cat_reg dev) rs (t, u) = (t', u')"
  shows "length t \<le> length t' \<and> length t' \<le> length t + 10 * length rs \<and> (\<exists>h. u' = u\<lparr>mbus := h\<rparr>)"
  using assms
proof (induction rs arbitrary: t u)
  case (Cons r rs)
  define t1 u1 where "t1 = fst (cat_reg dev r (t, u))" and "u1 = snd (cat_reg dev r (t, u))"
  have 1: "length t \<le> length t1 \<and> length t1 \<le> length t + 10" "\<exists>h. u1 = u\<lparr>mbus := h\<rparr>"
    using print_reg [of r] Cons.prems(1)
    by (auto simp: t1_def u1_def cat_reg_def rdr_def rd16_def Let_def cat_length)
  have "fold (cat_reg dev) rs (t1, u1) = (t', u')" using Cons.prems(2) by (simp add: t1_def u1_def)
  then show ?case using Cons.IH [of t1 u1] Cons.prems(1) 1 by auto
next
  case Nil
  then have "u' = u\<lparr>mbus := mbus u\<rparr>" "t' = t" by simp_all
  then show ?case by (simp, blast)
qed

lemma info_valid_length:
  assumes "info_ok u" "flag MRPF_VALID u"
  shows "\<exists>t' u'. info_valid dev d (t, u) = Done (t', u') \<and> length t + kept_length u \<le> length t'
    \<and> length t' \<le> length t + kept_length u + 252 \<and> (\<exists>h. u' = u\<lparr>mbus := h\<rparr>)"
proof -
  obtain t1 u1 where f: "fold (cat_reg dev) reg_words (t, u) = (t1, u1)" by fastforce
  have l1: "length t \<le> length t1" "length t1 \<le> length t + 150" and u1: "\<exists>h. u1 = u\<lparr>mbus := h\<rparr>"
    using fold_cat_reg [OF _ f] by (simp_all add: reg_words_def)
  then have eq: "base4 u1 = base4 u" "nbytes38 u1 = nbytes38 u" "nbytes40 u1 = nbytes40 u" "buf38 u1 = buf38 u"
    "buf40 u1 = buf40 u" "reset_mode u1 = reset_mode u" by auto
  define t2 where "t2 = cat '' nbytes38=%xh, nbytes40=%xh\<newline>''
      [AInt (word_of_int (nbytes38 u)), AInt (word_of_int (nbytes40 u))]
      (cat '' base4 = 0x%08x, reset_mode = %d\<newline>'' [AInt d, AInt (word_of_int (reset_mode u))] t1)"
  have l2: "length t1 \<le> length t2" "length t2 \<le> length t1 + 86"
    using print_bounds(3) [of d "word_of_int (reset_mode u)"]
      print_bounds(4) [of "word_of_int (nbytes38 u)" "word_of_int (nbytes40 u)"]
    by (simp_all add: t2_def cat_length)
  obtain t3 where t3: "dump_boot '' buf38:\<newline>'' (buf38 u) (nbytes38 u) t2 = Done t3"
    "length t2 + dump_length (nat (nbytes38 u)) \<le> length t3" "length t3 \<le> length t2 + dump_length (nat (nbytes38 u)) + 8"
    using dump_boot_length [of "nbytes38 u" "buf38 u" "'' buf38:\<newline>''" t2] assms by (auto simp: info_ok_def)
  obtain t4 where t4: "dump_boot '' buf40:\<newline>'' (buf40 u) (nbytes40 u) t3 = Done t4"
    "length t3 + dump_length (nat (nbytes40 u)) \<le> length t4" "length t4 \<le> length t3 + dump_length (nat (nbytes40 u)) + 8"
    using dump_boot_length [of "nbytes40 u" "buf40 u" "'' buf40:\<newline>''" t3] assms by (auto simp: info_ok_def)
  have "info_valid dev d (t, u) = Done (t4, u1)"
    using assms t3(1) t4(1) by (simp add: info_valid_def f eq t2_def [symmetric] Let_def info_ok_def)
  then show ?thesis
    using l1 l2 t3(2,3) t4(2,3) u1 assms(2) by (simp add: kept_length_def)
qed

lemma flag_words_length:
  "\<forall>mw \<in> set flag_words. CHR ''%'' \<notin> set (snd mw) \<and> length (snd mw) \<le> 7" "length flag_words = 9"
  by (simp_all add: flag_words_def)

lemma fold_flag_words:
  assumes "\<forall>mw \<in> set ws. CHR ''%'' \<notin> set (snd mw) \<and> length (snd mw) \<le> 7"
  shows "length t \<le> length (fold (\<lambda>(m, w) t. if flag m u then cat w [] t else t) ws t)
    \<and> length (fold (\<lambda>(m, w) t. if flag m u then cat w [] t else t) ws t) \<le> length t + 7 * length ws"
  using assms
proof (induction ws arbitrary: t)
  case (Cons mw ws)
  define t' where "t' = (case mw of (m, w) \<Rightarrow> if flag m u then cat w [] t else t)"
  have "length t \<le> length t'" "length t' \<le> length t + 7"
    using Cons.prems by (auto simp: t'_def cat_length split: prod.split)
  moreover have "fold (\<lambda>(m, w) t. if flag m u then cat w [] t else t) (mw # ws) t
      = fold (\<lambda>(m, w) t. if flag m u then cat w [] t else t) ws t'"
    by (simp add: t'_def split_def)
  ultimately show ?case using Cons.IH [of t'] Cons.prems by auto
qed simp

lemma info_unit_length:
  assumes "info_ok u"
  shows "\<exists>t' u'. info_unit dev d i (t, u) = Done (t', u') \<and> length t + kept_length u \<le> length t'
    \<and> length t' \<le> length t + kept_length u + 349"
proof -
  define t1 where "t1 = cat ''unit%d'' [AInt (of_nat i)] t"
  define t2 where "t2 = fold (\<lambda>(m, w) t. if flag m u then cat w [] t else t) flag_words t1"
  define t3 where "t3 = cat ''\<newline>'' [] (cat '' nintr=%d'' [AInt (nintr u)] t2)"
  have 1: "length t \<le> length t1" "length t1 \<le> length t + 15"
    using print_bounds(1) [of "of_nat i"] by (simp_all add: t1_def cat_length)
  have 2: "length t1 \<le> length t2" "length t2 \<le> length t1 + 63"
    using fold_flag_words [OF flag_words_length(1), of t1 u] flag_words_length(2) by (simp_all add: t2_def)
  have 3: "length t2 \<le> length t3" "length t3 \<le> length t2 + 19"
    using print_bounds(2) [of "nintr u"] by (simp_all add: t3_def cat_length)
  have e: "info_unit dev d i (t, u) = (if flag MRPF_VALID u then info_valid dev d (t3, u) else Done (t3, u))"
    by (simp add: info_unit_def Let_def t1_def t2_def t3_def)
  show ?thesis
  proof (cases "flag MRPF_VALID u")
    case True
    then show ?thesis using info_valid_length [OF assms True, of dev d t3] 1 2 3 unfolding e by auto
  next
    case False
    then show ?thesis using 1 2 3 unfolding e by (simp add: kept_length_def)
  qed
qed

lemma info_units_length:
  assumes "\<forall>i \<in> set js. info_ok (mrp_units s i)" "distinct js"
  shows "\<exists>t' s'. info_units dev d js (t, s) = Done (t', s')
    \<and> length t + (\<Sum>i\<leftarrow>js. kept_length (mrp_units s i)) \<le> length t'
    \<and> length t' \<le> length t + (\<Sum>i\<leftarrow>js. kept_length (mrp_units s i)) + 349 * length js"
  using assms
proof (induction js arbitrary: t s)
  case (Cons i js)
  have "mrp_units (cli s) i = mrp_units s i" by (simp add: cli_def)
  then obtain t1 u where 1: "info_unit dev (d i) i (t, mrp_units (cli s) i) = Done (t1, u)"
    "length t + kept_length (mrp_units s i) \<le> length t1" "length t1 \<le> length t + kept_length (mrp_units s i) + 349"
    using info_unit_length [of "mrp_units s i" dev "d i" i t] Cons.prems by auto
  define s1 where "s1 = sti (upd_unit i (\<lambda>_. u) (cli s))"
  have s1: "mrp_units s1 j = mrp_units s j" if "j \<in> set js" for j
    using Cons.prems(2) that by (auto simp: s1_def upd_unit_def cli_def sti_def)
  then have "(\<Sum>j\<leftarrow>js. kept_length (mrp_units s1 j)) = (\<Sum>j\<leftarrow>js. kept_length (mrp_units s j))"
    by (simp cong: map_cong)
  moreover obtain t' s' where "info_units dev d js (t1, s1) = Done (t', s')"
    "length t1 + (\<Sum>j\<leftarrow>js. kept_length (mrp_units s1 j)) \<le> length t'"
    "length t' \<le> length t1 + (\<Sum>j\<leftarrow>js. kept_length (mrp_units s1 j)) + 349 * length js"
    using Cons.IH [of s1 t1] Cons.prems s1 by auto
  ultimately show ?case using 1 by (auto simp: s1_def [symmetric])
qed simp

section \<open>Properties\<close>

lemma dump_length_mono: "m \<le> n \<Longrightarrow> dump_length m \<le> dump_length n"
  by (simp add: dump_length_def add_mono div_le_mono)

text \<open>
  C37: the report against the page it is written to. It fits the 4096 bytes with room to spare as long as no
  valid unit keeps a reset packet, and it always overruns them when a valid unit keeps one of 960 bytes or
  more, though packets of up to 16384 bytes are accepted and kept.
\<close>
theorem mrp_get_info_page:
  assumes "\<forall>i < 4. info_ok (mrp_units s i)"
  shows "\<exists>t s'. mrp_get_info dev data0 s = Done (int (length t), t, s')
    \<and> ((\<forall>i < 4. flag MRPF_VALID (mrp_units s i) \<longrightarrow> nbytes38 (mrp_units s i) = 0 \<and> nbytes40 (mrp_units s i) = 0)
         \<longrightarrow> length t < 4096)
    \<and> ((\<exists>i < 4. flag MRPF_VALID (mrp_units s i) \<and> (960 \<le> nbytes38 (mrp_units s i) \<or> 960 \<le> nbytes40 (mrp_units s i)))
         \<longrightarrow> 4096 < length t)"
proof -
  define K where "K = (\<Sum>i\<leftarrow>[0, 1, 2, 3]. kept_length (mrp_units s i))"
  define h where "h = cat ''DECI1 $Revision: 3.10 $ %s %s\<newline>'' [AStr (Some ''Mar 10 1999''), AStr (Some ''21:15:11'')] []"
  have "length h = 45" using print_bounds(5) by (simp add: h_def cat_length)
  then obtain t s' where t: "info_units dev data0 [0, 1, 2, 3] (h, s) = Done (t, s')" "45 + K \<le> length t"
    "length t \<le> 45 + K + 1396"
    using info_units_length [of "[0, 1, 2, 3]" s dev data0 h] assms by (auto simp: K_def)
  then have get: "mrp_get_info dev data0 s = Done (int (length t), t, s')"
    by (simp add: mrp_get_info_def h_def [symmetric] del: info_units.simps)
  have small: "K = 0" if "\<forall>i < 4. flag MRPF_VALID (mrp_units s i) \<longrightarrow> nbytes38 (mrp_units s i) = 0 \<and> nbytes40 (mrp_units s i) = 0"
    using that by (simp add: K_def kept_length_def dump_length_def)
  have large: "4080 \<le> K" if i: "i < 4" "flag MRPF_VALID (mrp_units s i)"
      "960 \<le> nbytes38 (mrp_units s i) \<or> 960 \<le> nbytes40 (mrp_units s i)" for i
  proof -
    have "dump_length 960 = 4080" by (simp add: dump_length_def)
    moreover have "960 \<le> nat (nbytes38 (mrp_units s i)) \<or> 960 \<le> nat (nbytes40 (mrp_units s i))"
      using i(3) by auto
    ultimately have "4080 \<le> dump_length (nat (nbytes38 (mrp_units s i))) \<or> 4080 \<le> dump_length (nat (nbytes40 (mrp_units s i)))"
      using dump_length_mono [of 960] by metis
    then have "4080 \<le> kept_length (mrp_units s i)" using i(2) by (auto simp: kept_length_def)
    moreover have "i = 0 \<or> i = 1 \<or> i = 2 \<or> i = 3" using i(1) by auto
    ultimately show ?thesis by (auto simp: K_def)
  qed
  show ?thesis using get t(2,3) small large by force
qed


text \<open>A unit that keeps a reset packet of 1000 bytes.\<close>

definition keeping_unit :: mrp_unit where
  "keeping_unit = demo_unit\<lparr>base4 := 0x1000, buf40 := Some \<lparr>ksize = 1000, kbytes = \<lambda>_. 0\<rparr>, nbytes40 := 1000\<rparr>"

theorem mrp_get_info_page_witness:
  "\<exists>t s'. mrp_get_info (feed_dev [] 0) (\<lambda>_. 0)
     \<lparr>mrp_units = (\<lambda>_. keeping_unit), mrp_major = 254, mod_use = 1, iflag = True, umem = \<lambda>_. 0\<rparr>
     = Done (int (length t), t, s') \<and> 4096 < length t"
proof -
  define s where "s = \<lparr>mrp_units = (\<lambda>_. keeping_unit), mrp_major = 254, mod_use = 1, iflag = True, umem = \<lambda>_. 0\<rparr>"
  have v: "flag MRPF_VALID keeping_unit" "nbytes40 keeping_unit = 1000" "nbytes38 keeping_unit = 0"
    by (simp_all add: keeping_unit_def demo_unit_def flag_def mrpf_defs)
  have "\<forall>i < 4. info_ok (mrp_units s i)"
    by (simp add: s_def info_ok_def v) (simp add: keeping_unit_def)
  moreover have "\<exists>i < 4. flag MRPF_VALID (mrp_units s i) \<and> (960 \<le> nbytes38 (mrp_units s i) \<or> 960 \<le> nbytes40 (mrp_units s i))"
    by (intro exI [of _ 0]) (simp add: s_def v)
  ultimately show ?thesis
    unfolding s_def [symmetric] using mrp_get_info_page [of s "feed_dev [] 0" "\<lambda>_. 0"] by blast
qed

end
