(* ===== verification/Printk.thy ===== *)
theory Printk
  imports Vsprintf
begin

text \<open>
  The kernel log, \<^verbatim>\<open>kernel/printk.c\<close>: \<^verbatim>\<open>printk\<close> tags each line with its level, puts it into a ring of 8192
  characters and shows it on the console; \<^verbatim>\<open>sys_syslog\<close> reads the ring, consuming it or not;
  \<^verbatim>\<open>register_console\<close> shows what was logged before there was a console. The message is formatted into a
  static buffer of 1024 characters, from its fourth on; what would not fit as the comment there hopes is
  a memory fault. The console is the list of the strings given to it, latest first.
\<close>

section \<open>State\<close>

definition LOG_BUF_LEN :: nat where "LOG_BUF_LEN = 8192"
definition LOG_MASK :: u32 where "LOG_MASK = 8191"

record klog =
  log_buf :: "nat \<Rightarrow> char"
  log_start :: u32
  log_size :: u32
  logged_chars :: u32
  console_loglevel :: int
  console_proc :: bool
  console :: "string list"
  msg_level :: int
  log_wakes :: nat

datatype 'a outcome = Ret 'a | Crash

section \<open>Printing\<close>

text \<open>The body of the inner loop: one character into the ring.\<close>

definition log_char :: "char \<Rightarrow> klog \<Rightarrow> klog" where
  "log_char c k =
     (let k = k\<lparr>log_buf := (log_buf k)(unat ((log_start k + log_size k) AND LOG_MASK) := c)\<rparr>;
          k = (if log_size k < of_nat LOG_BUF_LEN then k\<lparr>log_size := log_size k + 1\<rparr>
               else k\<lparr>log_start := (log_start k + 1) AND LOG_MASK\<rparr>)
      in k\<lparr>logged_chars := logged_chars k + 1\<rparr>)"












section \<open>Reading the log\<close>







section \<open>The first console\<close>

text \<open>
  The loop of \<^verbatim>\<open>register_console\<close> over the backlog \<^verbatim>\<open>rest\<close>, with \<^verbatim>\<open>chunk\<close> in its buffer of 16 characters. At the
  start of a message it skips three characters and takes the second for the level, a \<^verbatim>\<open>char\<close>, which is signed;
  a chunk shorter than that is read beyond its end.
\<close>

definition schar :: "int \<Rightarrow> int" where
  "schar n = (n + 128) mod 256 - 128"

fun backlog :: "int \<Rightarrow> int \<Rightarrow> string \<Rightarrow> string \<Rightarrow> string list \<Rightarrow> string list outcome" where
  "backlog lev conlev chunk [] out = Ret out"
| "backlog lev conlev chunk (c # rest) out =
     (let chunk = chunk @ [c]
      in if c \<noteq> CHR ''\<newline>'' \<and> rest \<noteq> [] \<and> length chunk < 15 then backlog lev conlev chunk rest out
         else if lev < 0 \<and> length chunk < 3 then Crash
         else
           let q = (if lev < 0 then drop 3 chunk else chunk);
               lev = (if lev < 0 then schar (schar (int (cval (chunk ! 1))) - 48) else lev);
               out = (if lev < conlev then q # out else out);
               lev = (if c = CHR ''\<newline>'' then - 1 else lev)
           in backlog lev conlev [] rest out)"

definition log_contents :: "klog \<Rightarrow> string" where
  "log_contents k = map (\<lambda>i. log_buf k (unat ((log_start k + of_nat i) AND LOG_MASK))) [0..<unat (log_size k)]"

definition register_console :: "klog \<Rightarrow> klog outcome" where
  "register_console k =
     (let k = k\<lparr>console_proc := True\<rparr>
      in case backlog (- 1) (console_loglevel k) [] (log_contents k) (console k) of
           Crash \<Rightarrow> Crash
         | Ret out \<Rightarrow> Ret (k\<lparr>console := out\<rparr>))"

section \<open>The ring holds the end of the history\<close>









section \<open>What is logged\<close>





lemma log_char_frame:
  "msg_level (log_char c k) = msg_level k" "console (log_char c k) = console k"
  "console_loglevel (log_char c k) = console_loglevel k" "console_proc (log_char c k) = console_proc k"
  by (simp_all add: log_char_def Let_def)







section \<open>What is read\<close>



section \<open>Properties\<close>





end
