(* ===== verification/Page_Alloc.thy ===== *)
theory Page_Alloc
  imports Vsprintf
begin

text \<open>
  The physical page allocator \<^verbatim>\<open>mm/page_alloc.c\<close>: the doubly linked queues of free areas, one
  per order, with the toggle bit of every pair of buddies, \<^verbatim>\<open>__get_free_pages\<close>, \<^verbatim>\<open>free_pages\<close>
  and \<^verbatim>\<open>__free_page\<close>, and their set up by \<^verbatim>\<open>free_area_init\<close> and \<^verbatim>\<open>mem_init\<close>.

  The queues are kept as the code has them, as pointers: a node is the head of an area
  (\<^verbatim>\<open>memory_head\<close>) or an entry of \<^verbatim>\<open>mem_map\<close>. Page numbers, masks and bit indices are 32-bit
  words. A \<^verbatim>\<open>None\<close> of a merge is an access outside \<^verbatim>\<open>free_area\<close>; a \<^verbatim>\<open>None\<close> of a scan of a queue or of
  an allocation is a loop that never ends, or that follows a pointer which is none of the queue.
\<close>

section \<open>State\<close>

definition NR_MEM_LISTS :: nat where "NR_MEM_LISTS = 6"

abbreviation (input) PG_DMA :: nat where "PG_DMA \<equiv> 7"
abbreviation (input) PG_reserved :: nat where "PG_reserved \<equiv> 31"

definition GFP_BUFFER :: int where "GFP_BUFFER = 0"
definition GFP_ATOMIC :: int where "GFP_ATOMIC = 1"
definition GFP_KERNEL :: int where "GFP_KERNEL = 3"
definition GFP_NFS :: int where "GFP_NFS = 5"
definition GFP_IO :: int where "GFP_IO = 6"

datatype node = Null | Area nat | Page nat

text \<open>
  The members of \<^verbatim>\<open>struct page\<close> and \<^verbatim>\<open>struct free_area_struct\<close> this file uses, each as an array,
  and the variables around them. \<^verbatim>\<open>swap_freed\<close> records the calls of \<^verbatim>\<open>swap_free\<close>, \<^verbatim>\<open>woken\<close> counts
  the wake ups of \<^verbatim>\<open>buffer_wait\<close>, \<^verbatim>\<open>messages\<close> records the calls of \<^verbatim>\<open>printk\<close>, \<^verbatim>\<open>gfp_count\<close> is the static
  counter of \<^verbatim>\<open>__get_free_pages\<close>. \<^verbatim>\<open>page_user\<close> and \<^verbatim>\<open>reclaim_state\<close> are there for \<^verbatim>\<open>try_to_free_page\<close> alone: by
  \<^verbatim>\<open>page_user\<close> it finds the pages it may take back (the members \<^verbatim>\<open>inode\<close> and \<^verbatim>\<open>buffers\<close>, or an entry of a page table; 0 is none),
  \<^verbatim>\<open>reclaim_state\<close> stands for its static variables.
\<close>

record mm =
  nxt :: "node \<Rightarrow> node"
  prv :: "node \<Rightarrow> node"
  bitmap :: "nat \<Rightarrow> nat \<Rightarrow> bool"
  page_count :: "nat \<Rightarrow> u32"
  page_flags :: "nat \<Rightarrow> u32"
  page_age :: "nat \<Rightarrow> u8"
  page_nr :: "nat \<Rightarrow> u32"
  page_user :: "nat \<Rightarrow> u32"
  reclaim_state :: "u32 list"
  nr_free_pages :: u32
  map_addr :: "nat \<Rightarrow> u32"
  swap_cache :: "nat \<Rightarrow> u32"
  swap_freed :: "u32 list"
  buffer_waiters :: bool
  woken :: nat
  min_free_pages :: int
  free_pages_low :: int
  free_pages_high :: int
  page_initial_age :: u8
  high_memory :: u32
  gfp_count :: int
  messages :: "(string \<times> varg list) list"

section \<open>Queues of free areas\<close>

definition init_mem_queue :: "nat \<Rightarrow> mm \<Rightarrow> mm" where
  "init_mem_queue head m =
     m\<lparr>nxt := (nxt m)(Area head := Area head), prv := (prv m)(Area head := Area head)\<rparr>"

definition add_mem_queue :: "nat \<Rightarrow> node \<Rightarrow> mm \<Rightarrow> mm" where
  "add_mem_queue head entry m =
     (let next = nxt m (Area head);
          m1 = m\<lparr>prv := (prv m)(entry := Area head)\<rparr>;
          m2 = m1\<lparr>nxt := (nxt m1)(entry := next)\<rparr>;
          m3 = m2\<lparr>prv := (prv m2)(next := entry)\<rparr>
      in m3\<lparr>nxt := (nxt m3)(Area head := entry)\<rparr>)"

definition remove_mem_queue :: "node \<Rightarrow> mm \<Rightarrow> mm" where
  "remove_mem_queue entry m =
     (let next = nxt m entry; prev = prv m entry;
          m1 = m\<lparr>prv := (prv m)(next := prev)\<rparr>
      in m1\<lparr>nxt := (nxt m1)(prev := next)\<rparr>)"

text \<open>\<^verbatim>\<open>change_bit\<close>: complement a bit of the map of an area and return what it was.\<close>

definition change_bit :: "u32 \<Rightarrow> nat \<Rightarrow> mm \<Rightarrow> bool \<times> mm" where
  "change_bit nr area m =
     (bitmap m area (unat nr),
      m\<lparr>bitmap := (bitmap m)(area := (bitmap m area)(unat nr := \<not> bitmap m area (unat nr)))\<rparr>)"

section \<open>Freeing\<close>

text \<open>The loop of \<^verbatim>\<open>free_pages_ok\<close>, which merges the freed block with its buddy while that is free.\<close>

function free_merge :: "nat \<Rightarrow> u32 \<Rightarrow> u32 \<Rightarrow> u32 \<Rightarrow> mm \<Rightarrow> (nat \<times> u32 \<times> mm) option" where
  "free_merge area msk index map_nr m =
     (if msk + push_bit (NR_MEM_LISTS - 1) 1 = 0 then Some (area, map_nr, m)
      else if NR_MEM_LISTS \<le> area then None
      else
        let (old, m1) = change_bit index area m in
        if \<not> old then Some (area, map_nr, m1)
        else
          let m2 = remove_mem_queue (Page (unat (map_nr XOR (- msk)))) m1;
              msk' = push_bit 1 msk
          in free_merge (area + 1) msk' (drop_bit 1 index) (map_nr AND msk') m2)"
  by pat_completeness auto
termination by (relation "measure (\<lambda>(area, _). NR_MEM_LISTS - area)") auto

declare free_merge.simps [simp del]

definition free_pages_ok :: "u32 \<Rightarrow> nat \<Rightarrow> mm \<Rightarrow> mm option" where
  "free_pages_ok map_nr order m =
     (let index = drop_bit (1 + order) map_nr;
          msk = push_bit order (NOT 0);
          map_nr = map_nr AND msk;
          m = m\<lparr>nr_free_pages := nr_free_pages m - msk\<rparr>
      in case free_merge order msk index map_nr m of
           None \<Rightarrow> None
         | Some (area, map_nr, m) \<Rightarrow>
             let m = add_mem_queue area (Page (unat map_nr)) m
             in Some (if buffer_waiters m then m\<lparr>woken := woken m + 1\<rparr> else m))"

definition PageReserved :: "nat \<Rightarrow> mm \<Rightarrow> bool" where
  "PageReserved p m = bit (page_flags m p) PG_reserved"

definition PageDMA :: "nat \<Rightarrow> mm \<Rightarrow> bool" where
  "PageDMA p m = bit (page_flags m p) PG_DMA"

definition atomic_dec_and_test :: "nat \<Rightarrow> mm \<Rightarrow> bool \<times> mm" where
  "atomic_dec_and_test p m =
     (let c = page_count m p - 1 in (c = 0, m\<lparr>page_count := (page_count m)(p := c)\<rparr>))"

definition delete_from_swap_cache :: "u32 \<Rightarrow> mm \<Rightarrow> mm" where
  "delete_from_swap_cache index m =
     (let entry = swap_cache m (unat index);
          m1 = m\<lparr>swap_cache := (swap_cache m)(unat index := 0)\<rparr>
      in if entry \<noteq> 0 then m1\<lparr>swap_freed := swap_freed m1 @ [entry]\<rparr> else m1)"

text \<open>\<^verbatim>\<open>__free_page\<close>, of the page with the given place in \<^verbatim>\<open>mem_map\<close>.\<close>

definition free_one_page :: "nat \<Rightarrow> mm \<Rightarrow> mm option" where
  "free_one_page page m =
     (if PageReserved page m then Some m
      else
        let (zero, m1) = atomic_dec_and_test page m in
        if zero then
          let map_nr = page_nr m1 page in
          free_pages_ok map_nr 0 (delete_from_swap_cache map_nr m1)
        else Some m1)"

definition free_pages :: "u32 \<Rightarrow> nat \<Rightarrow> mm \<Rightarrow> mm option" where
  "free_pages addr order m =
     (let map_nr = MAP_NR addr in
      if map_nr < MAP_NR (high_memory m) then
        if PageReserved (unat map_nr) m then Some m
        else
          let (zero, m1) = atomic_dec_and_test (unat map_nr) m in
          if zero then free_pages_ok map_nr order (delete_from_swap_cache map_nr m1)
          else Some m1
      else Some m)"

section \<open>Allocation\<close>

definition MARK_USED :: "u32 \<Rightarrow> nat \<Rightarrow> nat \<Rightarrow> mm \<Rightarrow> mm" where
  "MARK_USED index order area m = snd (change_bit (drop_bit (1 + order) index) area m)"

definition ADDRESS :: "u32 \<Rightarrow> u32" where
  "ADDRESS x = 0 + push_bit 12 x"

text \<open>
  The inner loop of \<^verbatim>\<open>RMQUEUE\<close>: the first entry of the queue that serves the request, with its
  predecessor.
\<close>

partial_function (option) scan_queue :: "bool \<Rightarrow> nat \<Rightarrow> node \<Rightarrow> mm \<Rightarrow> (node \<times> nat) option option" where
  "scan_queue dma area prev m =
     (case nxt m prev of
        Page ret \<Rightarrow> if \<not> dma \<or> PageDMA ret m then Some (Some (prev, ret)) else scan_queue dma area (Page ret) m
      | Area a \<Rightarrow> if a = area then Some None else None
      | Null \<Rightarrow> None)"

text \<open>
  \<^verbatim>\<open>EXPAND\<close>: hand the lower halves of a larger block back to the queues. The macro advances
  \<^verbatim>\<open>map\<close> and \<^verbatim>\<open>index\<close>, so the caller goes on with the last upper half.
\<close>

fun EXPAND :: "nat \<Rightarrow> u32 \<Rightarrow> nat \<Rightarrow> nat \<Rightarrow> u32 \<Rightarrow> mm \<Rightarrow> nat \<times> u32 \<times> mm" where
  "EXPAND mp index low high sz m =
     (if low < high then
        let high = high - 1; sz = drop_bit 1 sz;
            m1 = add_mem_queue high (Page mp) m;
            m2 = MARK_USED index high high m1
        in EXPAND (mp + unat sz) (index + sz) low high sz m2
      else
        (mp, index,
         m\<lparr>page_count := (page_count m)(mp := 1),
           page_age := (page_age m)(mp := page_initial_age m)\<rparr>))"

declare EXPAND.simps [simp del]

text \<open>\<^verbatim>\<open>RMQUEUE\<close>, from the area of \<^verbatim>\<open>new_order\<close> up: the address of the block it returns, if it returns.\<close>

function RMQUEUE :: "nat \<Rightarrow> bool \<Rightarrow> nat \<Rightarrow> mm \<Rightarrow> (u32 option \<times> mm) option" where
  "RMQUEUE order dma new_order m =
     (case scan_queue dma new_order (Area new_order) m of
        None \<Rightarrow> None
      | Some (Some (prev, ret)) \<Rightarrow>
          let map_nr = page_nr m ret;
              next = nxt m (Page ret);
              m1 = m\<lparr>nxt := (nxt m)(prev := next)\<rparr>;
              m2 = m1\<lparr>prv := (prv m1)(next := prev)\<rparr>;
              m3 = MARK_USED map_nr new_order new_order m2;
              m4 = m3\<lparr>nr_free_pages := nr_free_pages m3 - push_bit order 1\<rparr>;
              (_, map_nr, m5) = EXPAND ret map_nr order new_order (push_bit new_order 1) m4
          in Some (Some (ADDRESS map_nr), m5)
      | Some None \<Rightarrow>
          if new_order + 1 < NR_MEM_LISTS then RMQUEUE order dma (new_order + 1) m
          else Some (None, m))"
  by pat_completeness auto
termination by (relation "measure (\<lambda>(_, _, new_order, _). NR_MEM_LISTS - new_order)") auto

declare RMQUEUE.simps [simp del]

text \<open>
  \<^verbatim>\<open>try_to_free_page\<close> of \<^verbatim>\<open>mm/vmscan.c\<close> is a parameter; \<^verbatim>\<open>intr\<close> is \<^verbatim>\<open>intr_count\<close> and \<^verbatim>\<open>ra\<close> the return
  address the warning prints.
\<close>

type_synonym reclaimer = "int \<Rightarrow> bool \<Rightarrow> mm \<Rightarrow> bool \<times> mm"

definition gfp_priority :: "bool \<Rightarrow> u32 \<Rightarrow> int \<Rightarrow> mm \<Rightarrow> int \<times> mm" where
  "gfp_priority intr ra priority m =
     (if intr \<and> priority \<noteq> GFP_ATOMIC then
        let m1 = m\<lparr>gfp_count := gfp_count m + 1\<rparr> in
        if gfp_count m1 < 5 then
          (GFP_ATOMIC,
           m1\<lparr>messages := messages m1 @ [(''gfp called nonatomically from interrupt %p\<newline>'', [AInt ra])]\<rparr>)
        else (priority, m1)
      else (priority, m))"

definition gfp_reserved :: "int \<Rightarrow> mm \<Rightarrow> int" where
  "gfp_reserved priority m =
     (let reserved_pages = 5;
          reserved_pages = (if priority \<noteq> GFP_NFS then min_free_pages m else reserved_pages)
      in if (priority = GFP_BUFFER \<or> priority = GFP_IO) \<and> 48 \<le> reserved_pages
         then reserved_pages - (12 + reserved_pages div 8) else reserved_pages)"

partial_function (option) gfp_repeat ::
  "reclaimer \<Rightarrow> int \<Rightarrow> nat \<Rightarrow> bool \<Rightarrow> int \<Rightarrow> mm \<Rightarrow> (u32 \<times> mm) option" where
  "gfp_repeat try_to_free_page priority order dma reserved_pages m =
     (if priority = GFP_ATOMIC \<or> reserved_pages < sint (nr_free_pages m) then
        (case RMQUEUE order dma order m of
           None \<Rightarrow> None
         | Some (Some addr, m1) \<Rightarrow> Some (addr, m1)
         | Some (None, m1) \<Rightarrow> Some (0, m1))
      else if priority \<noteq> GFP_BUFFER then
        (let (freed, m1) = try_to_free_page priority dma m in
         if freed then gfp_repeat try_to_free_page priority order dma reserved_pages m1
         else Some (0, m1))
      else Some (0, m))"

definition get_free_pages ::
  "reclaimer \<Rightarrow> bool \<Rightarrow> u32 \<Rightarrow> int \<Rightarrow> nat \<Rightarrow> bool \<Rightarrow> mm \<Rightarrow> (u32 \<times> mm) option" where
  "get_free_pages try_to_free_page intr ra priority order dma m =
     (if NR_MEM_LISTS \<le> order then Some (0, m)
      else
        let (priority, m) = gfp_priority intr ra priority m
        in gfp_repeat try_to_free_page priority order dma (gfp_reserved priority m) m)"

section \<open>Report\<close>

partial_function (option) count_queue :: "nat \<Rightarrow> node \<Rightarrow> u32 \<Rightarrow> mm \<Rightarrow> u32 option" where
  "count_queue order tmp nr m =
     (if tmp = Area order then Some nr else count_queue order (nxt m tmp) (nr + 1) m)"

fun show_orders :: "nat list \<Rightarrow> u32 \<Rightarrow> mm \<Rightarrow> (u32 \<times> mm) option" where
  "show_orders [] sum_kb m = Some (sum_kb, m)"
| "show_orders (order # orders) sum_kb m =
     (case count_queue order (nxt m (Area order)) 0 m of
        None \<Rightarrow> None
      | Some nr \<Rightarrow>
          let kb = push_bit order (drop_bit 10 PAGE_SIZE)
          in show_orders orders (sum_kb + nr * kb)
               (m\<lparr>messages := messages m @ [(''%lu*%lukB '', [AInt nr, AInt kb])]\<rparr>))"

definition show_free_areas :: "mm \<Rightarrow> mm option" where
  "show_free_areas m =
     (let m1 = m\<lparr>messages := messages m @
                 [(''Free pages:      %6dkB\<newline> ( '', [AInt (push_bit (12 - 10) (nr_free_pages m))])]\<rparr>
      in case show_orders [0..<NR_MEM_LISTS] 0 m1 of
           None \<Rightarrow> None
         | Some (sum_kb, m2) \<Rightarrow>
             Some (m2\<lparr>messages := messages m2 @ [(''= %lukB)\<newline>'', [AInt sum_kb])]\<rparr>))"

section \<open>Set up\<close>

definition LONG_ALIGN :: "u32 \<Rightarrow> u32" where
  "LONG_ALIGN x = (x + 4 - 1) AND NOT (4 - 1)"

text \<open>The size of \<^verbatim>\<open>mem_map_t\<close>, thirteen words.\<close>

definition sizeof_page :: u32 where "sizeof_page = 52"

definition init_swap_cache :: "u32 \<Rightarrow> u32 \<Rightarrow> mm \<Rightarrow> u32 \<times> mm" where
  "init_swap_cache mem_start mem_end m =
     (let mem_start = (mem_start + 15) AND NOT 15;
          swap_cache_size = MAP_NR mem_end
      in (mem_start + swap_cache_size * 4,
          m\<lparr>swap_cache := (\<lambda>i. if i < unat swap_cache_size then 0 else swap_cache m i)\<rparr>))"

text \<open>Every entry of \<^verbatim>\<open>mem_map\<close> is cleared, marked reserved and fit for DMA, and numbered.\<close>

definition init_mem_map :: "nat \<Rightarrow> mm \<Rightarrow> mm" where
  "init_mem_map n m =
     m\<lparr>nxt := (\<lambda>x. case x of Page p \<Rightarrow> if p < n then Null else nxt m x | _ \<Rightarrow> nxt m x),
       prv := (\<lambda>x. case x of Page p \<Rightarrow> if p < n then Null else prv m x | _ \<Rightarrow> prv m x),
       page_count := (\<lambda>p. if p < n then 0 else page_count m p),
       page_age := (\<lambda>p. if p < n then 0 else page_age m p),
       page_flags := (\<lambda>p. if p < n then push_bit PG_DMA 1 OR push_bit PG_reserved 1 else page_flags m p),
       page_nr := (\<lambda>p. if p < n then of_nat p else page_nr m p),
       page_user := (\<lambda>p. if p < n then 0 else page_user m p)\<rparr>"

fun init_areas :: "nat list \<Rightarrow> u32 \<Rightarrow> u32 \<Rightarrow> u32 \<Rightarrow> mm \<Rightarrow> u32 \<times> mm" where
  "init_areas [] msk end_mem start_mem m = (start_mem, m)"
| "init_areas (i # rest) msk end_mem start_mem m =
     (let m1 = init_mem_queue i m;
          msk = msk + msk;
          end_mem = (end_mem + NOT msk) AND msk;
          bitmap_size = drop_bit (12 + i) (end_mem - 0);
          bitmap_size = drop_bit 3 (bitmap_size + 7);
          bitmap_size = LONG_ALIGN bitmap_size;
          m2 = m1\<lparr>map_addr := (map_addr m1)(i := start_mem),
                  bitmap := (bitmap m1)(i := (\<lambda>nr. nr \<ge> 8 * unat bitmap_size \<and> bitmap m1 i nr))\<rparr>
      in init_areas rest msk end_mem (start_mem + bitmap_size) m2)"

definition free_area_init :: "u32 \<Rightarrow> u32 \<Rightarrow> mm \<Rightarrow> u32 \<times> mm" where
  "free_area_init start_mem end_mem m =
     (let i = int (unat (drop_bit (12 + 7) (end_mem - 0)));
          i = (if i < 24 then 24 else i);
          i = i + 24;
          m1 = m\<lparr>min_free_pages := i, free_pages_low := i + i div 2, free_pages_high := i + i\<rparr>;
          (start_mem, m2) = init_swap_cache start_mem end_mem m1;
          p = start_mem + MAP_NR end_mem * sizeof_page;
          start_mem = LONG_ALIGN p;
          m3 = init_mem_map (unat (MAP_NR end_mem)) m2
      in init_areas [0..<NR_MEM_LISTS] PAGE_MASK end_mem start_mem m3)"

text \<open>
  \<^verbatim>\<open>mem_init\<close> of \<^verbatim>\<open>arch/i386/mm/init.c\<close>, up to the probe of the write protect bit. Its loops step
  through pages by address; here they run over page numbers. \<^verbatim>\<open>etext\<close> is the end of the kernel
  code and \<^verbatim>\<open>initrd\<close> the bounds of the initial RAM disk, both 0 when there is none.
\<close>

definition MAX_DMA_ADDRESS :: u32 where "MAX_DMA_ADDRESS = 0x1000000"

definition clear_page_flag :: "nat \<Rightarrow> nat \<Rightarrow> mm \<Rightarrow> mm" where
  "clear_page_flag n p m = m\<lparr>page_flags := (page_flags m)(p := page_flags m p AND NOT (push_bit n 1))\<rparr>"

record mem_counts =
  reservedpages :: u32
  codepages :: u32
  datapages :: u32

fun mem_init_loop ::
  "u32 \<Rightarrow> u32 \<times> u32 \<Rightarrow> nat list \<Rightarrow> mem_counts \<Rightarrow> mm \<Rightarrow> (mem_counts \<times> mm) option" where
  "mem_init_loop etext initrd [] c m = Some (c, m)"
| "mem_init_loop etext initrd (p # ps) c m =
     (let tmp = ADDRESS (of_nat p);
          m1 = (if MAX_DMA_ADDRESS \<le> tmp then clear_page_flag PG_DMA p m else m)
      in if PageReserved p m1 then
           mem_init_loop etext initrd ps
             (if 0xA0000 \<le> tmp \<and> tmp < 0x100000 then c\<lparr>reservedpages := reservedpages c + 1\<rparr>
              else if tmp < etext then c\<lparr>codepages := codepages c + 1\<rparr>
              else c\<lparr>datapages := datapages c + 1\<rparr>) m1
         else
           let m2 = m1\<lparr>page_count := (page_count m1)(p := 1)\<rparr> in
           if fst initrd = 0 \<or> tmp < fst initrd \<or> snd initrd \<le> tmp then
             (case free_pages tmp 0 m2 of
                None \<Rightarrow> None
              | Some m3 \<Rightarrow> mem_init_loop etext initrd ps c m3)
           else mem_init_loop etext initrd ps c m2)"

definition mem_init :: "u32 \<Rightarrow> u32 \<times> u32 \<Rightarrow> u32 \<Rightarrow> u32 \<Rightarrow> mm \<Rightarrow> mm option" where
  "mem_init etext initrd start_mem end_mem m =
     (let end_mem = end_mem AND PAGE_MASK;
          m1 = m\<lparr>high_memory := end_mem\<rparr>;
          start_low_mem = PAGE_ALIGN PAGE_SIZE;
          start_mem = PAGE_ALIGN start_mem;
          m2 = fold (clear_page_flag PG_reserved) [unat (MAP_NR start_low_mem)..<unat (MAP_NR 0x9f000)] m1;
          m3 = fold (clear_page_flag PG_reserved) [unat (MAP_NR start_mem)..<unat (MAP_NR end_mem)] m2
      in case mem_init_loop etext initrd [0..<unat (MAP_NR end_mem)]
                \<lparr>reservedpages = 0, codepages = 0, datapages = 0\<rparr> m3 of
           None \<Rightarrow> None
         | Some (c, m4) \<Rightarrow>
             Some (m4\<lparr>messages := messages m4 @
               [(''Memory: %luk/%luk available (%dk kernel code, %dk reserved, %dk data)\<newline>'',
                 [AInt (drop_bit 10 (push_bit 12 (nr_free_pages m4))), AInt (drop_bit 10 end_mem),
                  AInt (push_bit 2 (codepages c)), AInt (push_bit 2 (reservedpages c)),
                  AInt (push_bit 2 (datapages c))])]\<rparr>))"

end
