(* ===== verification/Buddy.thy ===== *)
theory Buddy
  imports Page_Alloc
begin

text \<open>
  Correctness of the page allocator. A state \<^verbatim>\<open>areas m L\<close> has queues that are well formed circular
  lists of the blocks \<^verbatim>\<open>L k\<close> of order \<^verbatim>\<open>k\<close>: aligned, disjoint, merged as far as they can be, with
  toggle bits that tell whether exactly one of two buddies is free. Allocation and freeing
  are shown to take from, and to give back to, the set of free pages exactly what they
  report; the queues are determined by that set.
\<close>

section \<open>Circular queues\<close>

fun lseg :: "mm \<Rightarrow> node \<Rightarrow> node list \<Rightarrow> node \<Rightarrow> bool" where
  "lseg m a [] b = (nxt m a = b \<and> prv m b = a)"
| "lseg m a (x # xs) b = (nxt m a = x \<and> prv m x = a \<and> lseg m x xs b)"

definition queue :: "mm \<Rightarrow> nat \<Rightarrow> nat list \<Rightarrow> bool" where
  "queue m k ps = lseg m (Area k) (map Page ps) (Area k)"

lemma lseg_append: "lseg m a (xs @ y # ys) b \<longleftrightarrow> lseg m a xs y \<and> lseg m y ys b"
  by (induction xs arbitrary: a) auto

lemma lseg_cong:
  assumes "\<And>x. x \<in> set (a # xs) \<Longrightarrow> nxt m' x = nxt m x"
    and "\<And>x. x \<in> set (b # xs) \<Longrightarrow> prv m' x = prv m x"
  shows "lseg m' a xs b \<longleftrightarrow> lseg m a xs b"
  using assms by (induction xs arbitrary: a) auto

lemma lseg_last: "lseg m a xs b \<Longrightarrow> prv m b = last (a # xs) \<and> nxt m (last (a # xs)) = b"
  by (induction xs arbitrary: a) auto

lemma lseg_hd: "lseg m a xs b \<Longrightarrow> nxt m a = hd (xs @ [b]) \<and> prv m (hd (xs @ [b])) = a"
  by (cases xs) auto

lemma queue_add:
  assumes "queue m k ps" "distinct (p # ps)"
  shows "queue (add_mem_queue k (Page p) m) k (p # ps)"
proof (cases ps)
  case Nil
  then show ?thesis using assms by (simp add: queue_def add_mem_queue_def Let_def)
next
  case (Cons q qs)
  have "lseg (add_mem_queue k (Page p) m) (Page q) (map Page qs) (Area k)
      \<longleftrightarrow> lseg m (Page q) (map Page qs) (Area k)"
    by (rule lseg_cong) (use assms Cons in \<open>auto simp: queue_def add_mem_queue_def Let_def\<close>)
  then show ?thesis using assms Cons by (simp add: queue_def add_mem_queue_def Let_def)
qed

lemma queue_add_other:
  assumes "queue m k ps" "queue m j qs" "j \<noteq> k" "p \<notin> set qs" "set ps \<inter> set qs = {}"
  shows "queue (add_mem_queue k (Page p) m) j qs"
proof -
  have n: "nxt m (Area k) \<in> insert (Area k) (Page ` set ps)"
    using assms(1) by (cases ps) (auto simp: queue_def)
  have "lseg (add_mem_queue k (Page p) m) (Area j) (map Page qs) (Area j)
      \<longleftrightarrow> lseg m (Area j) (map Page qs) (Area j)"
    by (rule lseg_cong) (use assms n in \<open>auto simp: add_mem_queue_def Let_def\<close>)
  then show ?thesis using assms by (simp add: queue_def)
qed

lemma queue_links:
  assumes "queue m k (xs @ p # ys)"
  shows "prv m (Page p) = last (Area k # map Page xs)" "nxt m (Page p) = hd (map Page ys @ [Area k])"
proof -
  have s: "lseg m (Area k) (map Page xs) (Page p)" "lseg m (Page p) (map Page ys) (Area k)"
    using assms by (simp_all add: queue_def lseg_append)
  show "prv m (Page p) = last (Area k # map Page xs)" using lseg_last [OF s(1)] by simp
  show "nxt m (Page p) = hd (map Page ys @ [Area k])" using lseg_hd [OF s(2)] by simp
qed

lemma queue_remove:
  assumes "queue m k (xs @ p # ys)" "distinct (xs @ p # ys)"
  shows "queue (remove_mem_queue (Page p) m) k (xs @ ys)"
proof -
  let ?m = "remove_mem_queue (Page p) m"
  have s: "lseg m (Area k) (map Page xs) (Page p)" "lseg m (Page p) (map Page ys) (Area k)"
    using assms by (simp_all add: queue_def lseg_append)
  note links = queue_links [OF assms(1)]
  have up: "nxt ?m = (nxt m)(last (Area k # map Page xs) := hd (map Page ys @ [Area k]))"
    "prv ?m = (prv m)(hd (map Page ys @ [Area k]) := last (Area k # map Page xs))"
    by (simp_all add: remove_mem_queue_def Let_def links)
  have front: "lseg ?m (Area k) (map Page xs) (hd (map Page ys @ [Area k]))"
  proof (cases xs rule: rev_cases)
    case Nil
    then show ?thesis by (simp add: up)
  next
    case (snoc zs z)
    have "lseg ?m (Area k) (map Page zs) (Page z) \<longleftrightarrow> lseg m (Area k) (map Page zs) (Page z)"
    proof (rule lseg_cong)
      show "nxt ?m x = nxt m x" if "x \<in> set (Area k # map Page zs)" for x
        using that snoc assms(2) by (auto simp: up)
      show "prv ?m x = prv m x" if "x \<in> set (Page z # map Page zs)" for x
        using that snoc assms(2) by (cases ys) (auto simp: up)
    qed
    then show ?thesis using s(1) snoc by (simp add: lseg_append up)
  qed
  show ?thesis
  proof (cases ys)
    case Nil
    then show ?thesis using front by (simp add: queue_def)
  next
    case (Cons y zs)
    have "lseg ?m (Page y) (map Page zs) (Area k) \<longleftrightarrow> lseg m (Page y) (map Page zs) (Area k)"
    proof (rule lseg_cong)
      show "nxt ?m x = nxt m x" if "x \<in> set (Page y # map Page zs)" for x
        using that Cons assms(2) by (cases xs rule: rev_cases) (auto simp: up)
      show "prv ?m x = prv m x" if "x \<in> set (Area k # map Page zs)" for x
        using that Cons assms(2) by (auto simp: up)
    qed
    then show ?thesis using front s(2) Cons by (simp add: queue_def lseg_append)
  qed
qed

lemma queue_remove_other:
  assumes "queue m k (xs @ p # ys)" "queue m j qs" "j \<noteq> k" "set (xs @ p # ys) \<inter> set qs = {}"
  shows "queue (remove_mem_queue (Page p) m) j qs"
proof -
  have "lseg (remove_mem_queue (Page p) m) (Area j) (map Page qs) (Area j)
      \<longleftrightarrow> lseg m (Area j) (map Page qs) (Area j)"
  proof (rule lseg_cong)
    show "nxt (remove_mem_queue (Page p) m) x = nxt m x" if "x \<in> set (Area j # map Page qs)" for x
      using that assms(3,4)
      by (cases xs rule: rev_cases) (auto simp: remove_mem_queue_def Let_def queue_links [OF assms(1)])
    show "prv (remove_mem_queue (Page p) m) x = prv m x" if "x \<in> set (Area j # map Page qs)" for x
      using that assms(3,4)
      by (cases ys) (auto simp: remove_mem_queue_def Let_def queue_links [OF assms(1)])
  qed
  then show ?thesis using assms(2) by (simp add: queue_def)
qed

section \<open>Blocks and buddies\<close>

definition block :: "nat \<Rightarrow> nat \<Rightarrow> nat set" where
  "block k b = {b..<b + 2 ^ k}"

definition buddy :: "nat \<Rightarrow> nat \<Rightarrow> nat" where
  "buddy k b = (if even (b div 2 ^ k) then b + 2 ^ k else b - 2 ^ k)"

definition parent :: "nat \<Rightarrow> nat \<Rightarrow> nat" where
  "parent k b = b div 2 ^ (k + 1) * 2 ^ (k + 1)"

lemma card_block [simp]: "card (block k b) = 2 ^ k" "finite (block k b)"
  by (simp_all add: block_def)

lemma block_ne [simp]: "block k b \<noteq> {}" "b \<in> block k b"
  by (simp_all add: block_def)

lemma half_index: "p * 2 ^ k div 2 ^ (k + 1) = p div (2 :: nat)"
proof -
  have "p * 2 ^ k div (2 ^ k * 2) = p div 2" by (simp add: div_mult2_eq)
  then show ?thesis by (simp only: power_add power_one_right)
qed

lemma aligned_cases:
  assumes "2 ^ k dvd (b :: nat)"
  obtains q where "b = 2 * q * 2 ^ k" "buddy k b = (2 * q + 1) * 2 ^ k" "parent k b = b"
    | q where "b = (2 * q + 1) * 2 ^ k" "buddy k b = 2 * q * 2 ^ k" "parent k b = 2 * q * 2 ^ k"
proof -
  obtain p where p: "b = p * 2 ^ k" using assms by (auto simp: dvd_def mult.commute)
  have d: "b div 2 ^ (k + 1) = p div 2" by (simp only: p half_index)
  show thesis
  proof (cases "even p")
    case True
    then obtain q where q: "p = 2 * q" by auto
    have "parent k b = q * 2 ^ (k + 1)" unfolding parent_def d by (simp add: q)
    then show thesis by (intro that(1) [of q]) (simp_all add: p q buddy_def algebra_simps)
  next
    case False
    then obtain q where q: "p = 2 * q + 1" by (auto elim: oddE)
    have "parent k b = q * 2 ^ (k + 1)" unfolding parent_def d by (simp add: q)
    then show thesis by (intro that(2) [of q]) (simp_all add: p q buddy_def algebra_simps)
  qed
qed

lemma buddy_simps [simp]:
  assumes "2 ^ k dvd b"
  shows "buddy k (buddy k b) = b" "2 ^ k dvd buddy k b" "buddy k b \<noteq> b"
    "buddy k b div 2 ^ (k + 1) = b div 2 ^ (k + 1)" "2 ^ (k + 1) dvd parent k b"
    "block (k + 1) (parent k b) = block k b \<union> block k (buddy k b)"
    "block k b \<inter> block k (buddy k b) = {}"
proof -
  have e: "2 * q * 2 ^ k div 2 ^ (k + 1) = q" "(2 * q + 1) * 2 ^ k div 2 ^ (k + 1) = q" for q :: nat
    by (simp_all only: half_index)
  have b: "buddy k (2 * q * 2 ^ k) = (2 * q + 1) * 2 ^ k" "buddy k ((2 * q + 1) * 2 ^ k) = 2 * q * 2 ^ k" for q
    by (simp_all add: buddy_def algebra_simps)
  show "2 ^ (k + 1) dvd parent k b" by (simp add: parent_def)
  show "buddy k (buddy k b) = b" "2 ^ k dvd buddy k b" "buddy k b \<noteq> b"
    "buddy k b div 2 ^ (k + 1) = b div 2 ^ (k + 1)"
    by (rule aligned_cases [OF assms]; simp only: b e; simp)+
  show "block (k + 1) (parent k b) = block k b \<union> block k (buddy k b)"
    "block k b \<inter> block k (buddy k b) = {}"
    by (rule aligned_cases [OF assms]; auto simp: block_def algebra_simps)+
qed

lemma aligned_same_pair:
  assumes "2 ^ k dvd b" "2 ^ k dvd c" "c div 2 ^ (k + 1) = b div 2 ^ (k + 1)"
  shows "c = b \<or> c = buddy k b"
proof -
  obtain p q where pq: "b = p * 2 ^ k" "c = q * 2 ^ k" using assms by (auto simp: dvd_def mult.commute)
  have "b div 2 ^ (k + 1) = p div 2" "c div 2 ^ (k + 1) = q div 2"
    by (simp_all only: pq half_index)
  then have h: "q div 2 = p div 2" using assms(3) by simp
  show ?thesis
  proof (cases "even p")
    case True
    then have "q = p \<or> q = p + 1" using h by presburger
    then show ?thesis using True by (auto simp: pq buddy_def algebra_simps)
  next
    case False
    then have "q = p \<or> Suc q = p" using h by presburger
    then show ?thesis using False by (auto simp: pq buddy_def algebra_simps)
  qed
qed

text \<open>Two aligned blocks that meet are nested.\<close>

lemma aligned_nested:
  assumes "2 ^ k dvd b" "2 ^ j dvd c" "k \<le> j" "block k b \<inter> block j c \<noteq> {}"
  shows "block k b \<subseteq> block j c"
proof -
  obtain p q where p: "b = p * 2 ^ k" and q: "c = q * 2 ^ j" using assms by (auto simp: dvd_def mult.commute)
  obtain d where d: "j = k + d" using assms(3) le_Suc_ex by blast
  define c' where "c' = q * 2 ^ d"
  have c: "c = c' * 2 ^ k" "c + 2 ^ j = (c' + 2 ^ d) * 2 ^ k"
    by (simp_all add: q d c'_def power_add algebra_simps)
  obtain x where x: "p * 2 ^ k \<le> x" "x < (p + 1) * 2 ^ k" "c' * 2 ^ k \<le> x" "x < (c' + 2 ^ d) * 2 ^ k"
  proof -
    obtain x where "x \<in> block k b" "x \<in> block j c" using assms(4) by auto
    then show thesis using that [of x] unfolding block_def c(2) by (simp add: p c(1) algebra_simps)
  qed
  have "x div 2 ^ k = p"
    using x(1,2) by (intro div_nat_eqI) (simp_all add: algebra_simps)
  moreover have "c' \<le> x div 2 ^ k" using x(3) by (simp add: less_eq_div_iff_mult_less_eq)
  moreover have "x div 2 ^ k < c' + 2 ^ d" using x(4) by (simp add: div_less_iff_less_mult)
  ultimately have le: "c' \<le> p" "p + 1 \<le> c' + 2 ^ d" by simp_all
  have "c' * 2 ^ k \<le> p * 2 ^ k" "(p + 1) * 2 ^ k \<le> (c' + 2 ^ d) * 2 ^ k"
    using le by (simp_all only: mult_le_mono1)
  then show ?thesis unfolding block_def c(2) by (auto simp: p c(1) algebra_simps)
qed

lemma aligned_overlap_eq:
  assumes "2 ^ k dvd b" "2 ^ k dvd c" "block k b \<inter> block k c \<noteq> {}"
  shows "b = c"
proof -
  have "block k b \<subseteq> block k c" "block k c \<subseteq> block k b"
    using aligned_nested [OF assms(1,2) _ assms(3)] aligned_nested [OF assms(2,1)] assms(3) by auto
  then show ?thesis by (auto simp: block_def)
qed

section \<open>Words of a block\<close>

lemma free_merge_stop:
  "k \<le> 5 \<Longrightarrow> (- (2 ^ k) + push_bit (NR_MEM_LISTS - 1) (1 :: u32) = 0) = (k = 5)"
proof -
  assume "k \<le> 5"
  then consider "k = 0" | "k = 1" | "k = 2" | "k = 3" | "k = 4" | "k = 5" by linarith
  then show ?thesis by cases (simp_all add: NR_MEM_LISTS_def)
qed

lemma unat_exp: "k < 32 \<Longrightarrow> unat (2 ^ k :: u32) = 2 ^ k"
proof -
  assume "k < 32"
  then have "(2 :: int) ^ k < 2 ^ 32" by (rule power_strict_increasing) simp
  then have "unat (word_of_int (2 ^ k) :: u32) = nat (2 ^ k)" by (intro unat_word_of_int zero_le_power) simp_all
  moreover have "(word_of_int (2 ^ k) :: u32) = 2 ^ k" by simp
  ultimately show ?thesis by (simp only: nat_power_eq nat_numeral zero_le_numeral)
qed

lemma xor_exp_add: "\<not> bit (b :: nat) k \<Longrightarrow> b XOR 2 ^ k = b + 2 ^ k"
proof -
  assume "\<not> bit b k"
  then have "flip_bit k b = b + 2 ^ k" by (simp add: flip_bit_eq_if set_bit_eq)
  then show ?thesis by (simp add: flip_bit_eq_xor)
qed

lemma xor_buddy:
  assumes "2 ^ k dvd b"
  shows "b XOR 2 ^ k = buddy k b"
proof (rule aligned_cases [OF assms])
  fix q assume q: "b = 2 * q * 2 ^ k" "buddy k b = (2 * q + 1) * 2 ^ k"
  have "b div 2 ^ k = 2 * q" unfolding q(1) by simp
  then have "\<not> bit b k" by (simp add: bit_iff_odd)
  then have "b XOR 2 ^ k = b + 2 ^ k" by (rule xor_exp_add)
  also have "\<dots> = buddy k b" unfolding q(2) unfolding q(1) by (simp add: distrib_right)
  finally show ?thesis .
next
  fix q assume q: "b = (2 * q + 1) * 2 ^ k" "buddy k b = 2 * q * 2 ^ k"
  have "buddy k b div 2 ^ k = 2 * q" unfolding q(2) by simp
  then have "\<not> bit (buddy k b) k" by (simp add: bit_iff_odd)
  then have "buddy k b XOR 2 ^ k = buddy k b + 2 ^ k" by (rule xor_exp_add)
  also have "\<dots> = b" unfolding q(2) unfolding q(1) by (simp add: distrib_right)
  finally have x: "buddy k b XOR 2 ^ k = b" .
  have "b XOR 2 ^ k = (buddy k b XOR 2 ^ k) XOR 2 ^ k" unfolding x ..
  then show ?thesis by (simp only: xor.assoc xor_self_eq xor.right_neutral)
qed

lemma unat_xor_buddy:
  assumes "2 ^ k dvd unat (w :: u32)" "k < 32"
  shows "unat (w XOR - (- (2 ^ k))) = buddy k (unat w)"
proof -
  have "unat (w XOR - (- (2 ^ k))) = unat w XOR 2 ^ k"
    using assms(2) by (simp add: unsigned_xor_eq unat_exp)
  also have "\<dots> = buddy k (unat w)" using assms(1) by (rule xor_buddy)
  finally show ?thesis .
qed

lemma parent_mask: "push_bit 1 (- (2 ^ k)) = NOT (mask (k + 1) :: u32)"
  by (simp add: minus_exp_eq_not_mask [symmetric] push_bit_eq_mult mult.commute)

lemma unat_and_not_mask: "unat ((w :: u32) AND NOT (mask n)) = unat w div 2 ^ n * 2 ^ n"
proof -
  have "unat (w AND NOT (mask n)) = push_bit n (drop_bit n (unat w))"
    by (rule bit_eqI) (auto simp: bit_simps dest: bit_imp_le_length)
  then show ?thesis by (simp only: push_bit_eq_mult drop_bit_eq_div)
qed

lemma unat_and_parent:
  "unat ((w :: u32) AND push_bit 1 (- (2 ^ k))) = parent k (unat w)"
  unfolding parent_mask parent_def by (rule unat_and_not_mask)

lemma drop_bit_parent:
  "drop_bit 1 (drop_bit (1 + k) (w :: u32)) = drop_bit (1 + (k + 1)) (w AND push_bit 1 (- (2 ^ k)))"
  unfolding parent_mask by (rule bit_word_eqI) (auto simp: bit_simps dest: bit_imp_le_length)

section \<open>Free areas\<close>

definition limit :: "mm \<Rightarrow> nat" where
  "limit m = unat (MAP_NR (high_memory m))"

definition links :: "mm \<Rightarrow> (nat \<Rightarrow> nat list) \<Rightarrow> bool" where
  "links m L = (\<forall>k<6. queue m k (L k) \<and> distinct (L k))"

definition blocks_ok :: "nat \<Rightarrow> (nat \<Rightarrow> nat list) \<Rightarrow> bool" where
  "blocks_ok n L =
     ((\<forall>k<6. \<forall>b\<in>set (L k). 2 ^ k dvd b \<and> 0 < b \<and> b + 2 ^ k \<le> n) \<and>
      (\<forall>k<6. \<forall>j<6. \<forall>b\<in>set (L k). \<forall>c\<in>set (L j). block k b \<inter> block j c \<noteq> {} \<longrightarrow> k = j \<and> b = c) \<and>
      (\<forall>k<5. \<forall>b\<in>set (L k). buddy k b \<notin> set (L k)))"

definition bits_ok :: "nat \<Rightarrow> (nat \<Rightarrow> nat \<Rightarrow> bool) \<Rightarrow> (nat \<Rightarrow> nat list) \<Rightarrow> bool" where
  "bits_ok n bm L =
     (\<forall>k<5. \<forall>b<n. 2 ^ k dvd b \<longrightarrow>
        bm k (b div 2 ^ (k + 1)) = ((b \<in> set (L k)) \<noteq> (buddy k b \<in> set (L k))))"

definition areas :: "mm \<Rightarrow> (nat \<Rightarrow> nat list) \<Rightarrow> bool" where
  "areas m L =
     (links m L \<and> blocks_ok (limit m) L \<and> bits_ok (limit m) (bitmap m) L \<and>
      (\<forall>p<limit m. page_nr m p = of_nat p))"

definition free_set :: "(nat \<Rightarrow> nat list) \<Rightarrow> nat set" where
  "free_set L = (\<Union>k<6. \<Union>b\<in>set (L k). block k b)"

lemma finite_free_set [simp]: "finite (free_set L)"
  by (simp add: free_set_def)

lemma block_in_free: "k < 6 \<Longrightarrow> b \<in> set (L k) \<Longrightarrow> block k b \<subseteq> free_set L"
  by (auto simp: free_set_def)

lemma free_setE:
  assumes "p \<in> free_set L"
  obtains k b where "k < 6" "b \<in> set (L k)" "p \<in> block k b"
  using assms by (auto simp: free_set_def)

lemma blocks_okD:
  assumes "blocks_ok n L" "k < 6" "b \<in> set (L k)"
  shows "2 ^ k dvd b" "0 < b" "b + 2 ^ k \<le> n" "k < 5 \<Longrightarrow> buddy k b \<notin> set (L k)"
  using assms by (auto simp: blocks_ok_def)

lemma blocks_ok_overlap:
  assumes "blocks_ok n L" "k < 6" "j < 6" "b \<in> set (L k)" "c \<in> set (L j)" "block k b \<inter> block j c \<noteq> {}"
  shows "k = j \<and> b = c"
  using assms by (auto simp: blocks_ok_def)

lemma blocks_okI:
  assumes "\<And>k b. k < 6 \<Longrightarrow> b \<in> set (L k) \<Longrightarrow> 2 ^ k dvd b \<and> 0 < b \<and> b + 2 ^ k \<le> n"
    and "\<And>k j b c x. k < 6 \<Longrightarrow> j < 6 \<Longrightarrow> b \<in> set (L k) \<Longrightarrow> c \<in> set (L j) \<Longrightarrow>
           x \<in> block k b \<Longrightarrow> x \<in> block j c \<Longrightarrow> k = j \<and> b = c"
    and "\<And>k b. k < 5 \<Longrightarrow> b \<in> set (L k) \<Longrightarrow> buddy k b \<notin> set (L k)"
  shows "blocks_ok n L"
  unfolding blocks_ok_def using assms by blast

lemma blocks_ok_other_queue:
  assumes "blocks_ok n L" "k < 6" "j < 6" "b \<in> set (L k)" "b \<in> set (L j)"
  shows "k = j"
  using blocks_ok_overlap [OF assms] block_ne(2) by blast

lemma blocks_ok_add:
  assumes "blocks_ok n L" "k < 6" "2 ^ k dvd b" "0 < b" "b + 2 ^ k \<le> n"
    and "block k b \<inter> free_set L = {}" "k < 5 \<Longrightarrow> buddy k b \<notin> set (L k)"
  shows "blocks_ok n (L(k := b # L k))"
proof -
  have dis: "block k b \<inter> block j c = {}" if "j < 6" "c \<in> set (L j)" for j c
    using assms(6) block_in_free [of j c L, OF that] by blast
  have nb: "c \<noteq> buddy k b" "buddy k c \<noteq> b" if "k < 5" "c \<in> set (L k)" for c
    using assms(7) that blocks_okD(1) [OF assms(1,2) that(2)] by auto
  show ?thesis
  proof (rule blocks_okI)
    show "2 ^ j dvd c \<and> 0 < c \<and> c + 2 ^ j \<le> n" if "j < 6" "c \<in> set ((L(k := b # L k)) j)" for j c
      using that assms(3-5) blocks_okD [OF assms(1), of j c] by (auto split: if_splits)
    show "i = j \<and> c = d"
      if "i < 6" "j < 6" "c \<in> set ((L(k := b # L k)) i)" "d \<in> set ((L(k := b # L k)) j)"
        and x: "x \<in> block i c" "x \<in> block j d" for i j c d x
    proof -
      have "i = k \<and> c = b \<or> c \<in> set (L i)" "j = k \<and> d = b \<or> d \<in> set (L j)"
        using that(3,4) by (auto split: if_splits)
      then show ?thesis
        using dis [OF that(1)] dis [OF that(2)] x blocks_ok_overlap [OF assms(1) that(1,2)] by blast
    qed
    show "buddy j c \<notin> set ((L(k := b # L k)) j)" if "j < 5" "c \<in> set ((L(k := b # L k)) j)" for j c
      using that nb assms(3,7) blocks_okD(4) [OF assms(1), of j c] buddy_simps(3) [OF assms(3)]
      by (auto split: if_splits)
  qed
qed

lemma blocks_ok_remove:
  assumes "blocks_ok n L"
  shows "blocks_ok n (L(k := remove1 b (L k)))"
proof -
  have sub: "c \<in> set ((L(k := remove1 b (L k))) j) \<Longrightarrow> c \<in> set (L j)" for j c
    using set_remove1_subset [of b "L k"] by (auto split: if_splits)
  show ?thesis
  proof (rule blocks_okI)
    show "2 ^ j dvd c \<and> 0 < c \<and> c + 2 ^ j \<le> n" if "j < 6" "c \<in> set ((L(k := remove1 b (L k))) j)" for j c
      using blocks_okD [OF assms that(1) sub [OF that(2)]] by simp
    show "i = j \<and> c = d"
      if "i < 6" "j < 6" "c \<in> set ((L(k := remove1 b (L k))) i)" "d \<in> set ((L(k := remove1 b (L k))) j)"
        and x: "x \<in> block i c" "x \<in> block j d" for i j c d x
      using blocks_ok_overlap [OF assms that(1,2) sub [OF that(3)] sub [OF that(4)]] x by blast
    show "buddy j c \<notin> set ((L(k := remove1 b (L k))) j)"
      if "j < 5" "c \<in> set ((L(k := remove1 b (L k))) j)" for j c
      using blocks_okD(4) [OF assms _ sub [OF that(2)]] that(1) sub [of "buddy j c" j] by auto
  qed
qed

lemma free_set_add:
  assumes "k < 6"
  shows "free_set (L(k := b # L k)) = free_set L \<union> block k b"
proof (intro subset_antisym subsetI)
  fix p assume "p \<in> free_set (L(k := b # L k))"
  then show "p \<in> free_set L \<union> block k b"
    by (rule free_setE) (use block_in_free [of _ _ L] in \<open>auto split: if_splits\<close>)
next
  fix p assume "p \<in> free_set L \<union> block k b"
  then consider "p \<in> block k b" | j c where "j < 6" "c \<in> set (L j)" "p \<in> block j c"
    by (auto elim: free_setE)
  then show "p \<in> free_set (L(k := b # L k))"
  proof cases
    case 1
    then show ?thesis using block_in_free [of k b "L(k := b # L k)"] assms by auto
  next
    case 2
    then show ?thesis using block_in_free [of j c "L(k := b # L k)"] by (cases "j = k") auto
  qed
qed

lemma free_set_remove:
  assumes "blocks_ok n L" "k < 6" "b \<in> set (L k)" "distinct (L k)"
  shows "free_set (L(k := remove1 b (L k))) = free_set L - block k b"
proof (intro subset_antisym subsetI)
  fix p assume "p \<in> free_set (L(k := remove1 b (L k)))"
  then obtain j c where jc: "j < 6" "c \<in> set ((L(k := remove1 b (L k))) j)" "p \<in> block j c"
    by (rule free_setE)
  then have c: "c \<in> set (L j)" "(j, c) \<noteq> (k, b)" using assms(4) by (auto split: if_splits)
  then have "block j c \<inter> block k b = {}" using blocks_ok_overlap [OF assms(1) jc(1) assms(2) c(1) assms(3)] by auto
  then show "p \<in> free_set L - block k b" using jc(3) block_in_free [of j c L, OF jc(1) c(1)] by auto
next
  fix p assume p: "p \<in> free_set L - block k b"
  then obtain j c where jc: "j < 6" "c \<in> set (L j)" "p \<in> block j c" by (auto elim: free_setE)
  then have "(j, c) \<noteq> (k, b)" using p by auto
  then have "c \<in> set ((L(k := remove1 b (L k))) j)" using jc(2) by auto
  then show "p \<in> free_set (L(k := remove1 b (L k)))" using block_in_free [of j c, OF jc(1)] jc(3) by blast
qed

lemma links_add:
  assumes "links m L" "blocks_ok n L" "k < 6" "block k b \<inter> free_set L = {}"
  shows "links (add_mem_queue k (Page b) m) (L(k := b # L k))"
proof -
  have nb: "b \<notin> set (L j)" if "j < 6" for j
    using assms(4) block_in_free [of j b L] that block_ne(2) by blast
  have dj: "set (L k) \<inter> set (L j) = {}" if "j < 6" "j \<noteq> k" for j
    using blocks_ok_other_queue [OF assms(2,3) that(1)] that(2) by blast
  show ?thesis
    unfolding links_def
  proof (intro allI impI)
    fix j :: nat assume j: "j < 6"
    show "queue (add_mem_queue k (Page b) m) j ((L(k := b # L k)) j) \<and> distinct ((L(k := b # L k)) j)"
    proof (cases "j = k")
      case True
      then show ?thesis using assms(1) j nb queue_add [of m k "L k" b] by (auto simp: links_def)
    next
      case False
      then show ?thesis
        using assms(1,3) j nb [OF j] dj [OF j False] queue_add_other [of m k "L k" j "L j" b]
        by (auto simp: links_def)
    qed
  qed
qed

lemma links_remove:
  assumes "links m L" "blocks_ok n L" "k < 6" "b \<in> set (L k)"
  shows "links (remove_mem_queue (Page b) m) (L(k := remove1 b (L k)))"
proof -
  obtain xs ys where s: "L k = xs @ b # ys" "b \<notin> set xs" using assms(4) by (meson split_list_first)
  have q: "queue m k (xs @ b # ys)" "distinct (xs @ b # ys)" using assms(1,3) s(1) [symmetric] by (simp_all add: links_def)
  have dj: "set (xs @ b # ys) \<inter> set (L j) = {}" if "j < 6" "j \<noteq> k" for j
    using blocks_ok_other_queue [OF assms(2,3) that(1)] that(2) s(1) by fastforce
  show ?thesis
    unfolding links_def
  proof (intro allI impI)
    fix j :: nat assume j: "j < 6"
    show "queue (remove_mem_queue (Page b) m) j ((L(k := remove1 b (L k))) j)
        \<and> distinct ((L(k := remove1 b (L k))) j)"
    proof (cases "j = k")
      case True
      then show ?thesis using queue_remove [OF q] q(2) s by (simp add: remove1_append)
    next
      case False
      then show ?thesis
        using assms(1) j queue_remove_other [OF q(1) _ False dj [OF j False]] by (auto simp: links_def)
    qed
  qed
qed

text \<open>A block that enters or leaves its queue while the bit of its pair is complemented.\<close>

lemma bits_ok_toggle:
  assumes "bits_ok n bm L" "k < 6" "2 ^ k dvd b"
    and "set xs = (if b \<in> set (L k) then set (L k) - {b} else insert b (set (L k)))"
  shows "bits_ok n (bm(k := (bm k)(b div 2 ^ (k + 1) := \<not> bm k (b div 2 ^ (k + 1))))) (L(k := xs))"
  unfolding bits_ok_def
proof (intro allI impI)
  fix j c :: nat assume j: "j < 5" and c: "c < n" "2 ^ j dvd c"
  have old: "bm j (c div 2 ^ (j + 1)) = ((c \<in> set (L j)) \<noteq> (buddy j c \<in> set (L j)))"
    using assms(1) j c by (simp add: bits_ok_def)
  show "(bm(k := (bm k)(b div 2 ^ (k + 1) := \<not> bm k (b div 2 ^ (k + 1))))) j (c div 2 ^ (j + 1))
      = ((c \<in> set ((L(k := xs)) j)) \<noteq> (buddy j c \<in> set ((L(k := xs)) j)))"
  proof (cases "j = k \<and> c div 2 ^ (k + 1) = b div 2 ^ (k + 1)")
    case True
    then have "c = b \<or> c = buddy k b" using aligned_same_pair [OF assms(3)] c(2) by simp
    moreover have "buddy k b \<noteq> b" "buddy k (buddy k b) = b" using assms(3) by simp_all
    ultimately show ?thesis using True old assms(4) by auto
  next
    case False
    then have "j \<noteq> k \<or> (c \<noteq> b \<and> buddy j c \<noteq> b)" using c(2) buddy_simps(4) by metis
    then show ?thesis using False old assms(4) by auto
  qed
qed

definition toggle :: "nat \<Rightarrow> nat \<Rightarrow> mm \<Rightarrow> mm" where
  "toggle k b m = m\<lparr>bitmap := (bitmap m)(k := (bitmap m k)(b div 2 ^ (k + 1) := \<not> bitmap m k (b div 2 ^ (k + 1))))\<rparr>"

lemma change_bit_toggle:
  assumes "unat w = b"
  shows "change_bit (drop_bit (1 + k) w) k m = (bitmap m k (b div 2 ^ (k + 1)), toggle k b m)"
  using assms by (simp add: change_bit_def toggle_def unat_drop_div)

lemma MARK_USED_toggle: "unat w = b \<Longrightarrow> MARK_USED w k k m = toggle k b m"
  by (simp only: MARK_USED_def change_bit_toggle snd_conv)

lemma links_cong: "nxt m' = nxt m \<Longrightarrow> prv m' = prv m \<Longrightarrow> links m' L = links m L"
proof -
  assume "nxt m' = nxt m" "prv m' = prv m"
  then have "lseg m' a xs b = lseg m a xs b" for a xs b by (intro lseg_cong) auto
  then show ?thesis by (simp add: links_def queue_def)
qed

lemma add_mem_queue_frame [simp]:
  "bitmap (add_mem_queue k e m) = bitmap m" "high_memory (add_mem_queue k e m) = high_memory m"
  "page_nr (add_mem_queue k e m) = page_nr m"
  by (simp_all add: add_mem_queue_def Let_def)

lemma remove_mem_queue_frame [simp]:
  "bitmap (remove_mem_queue e m) = bitmap m" "high_memory (remove_mem_queue e m) = high_memory m"
  "page_nr (remove_mem_queue e m) = page_nr m"
  by (simp_all add: remove_mem_queue_def Let_def)

lemma toggle_frame [simp]:
  "nxt (toggle k b m) = nxt m" "prv (toggle k b m) = prv m"
  "high_memory (toggle k b m) = high_memory m" "page_nr (toggle k b m) = page_nr m"
  "page_flags (toggle k b m) = page_flags m"
  by (simp_all add: toggle_def)

lemma toggle_add: "add_mem_queue j e (toggle k b m) = toggle k b (add_mem_queue j e m)"
  by (simp add: add_mem_queue_def toggle_def Let_def)

lemma toggle_remove: "remove_mem_queue e (toggle k b m) = toggle k b (remove_mem_queue e m)"
  by (simp add: remove_mem_queue_def toggle_def Let_def)

lemma areas_cong:
  assumes "nxt m' = nxt m" "prv m' = prv m" "bitmap m' = bitmap m" "page_nr m' = page_nr m"
    "high_memory m' = high_memory m"
  shows "areas m' L = areas m L"
  using links_cong [OF assms(1,2)] assms(3-) by (simp add: areas_def limit_def)

lemma areas_toggle_top: "areas (toggle 5 b m) L = areas m L"
proof -
  have "bits_ok n (bitmap (toggle 5 b m)) L = bits_ok n (bitmap m) L" for n
    by (simp add: bits_ok_def toggle_def)
  then show ?thesis by (simp add: areas_def limit_def links_cong [of "toggle 5 b m" m])
qed

lemma areas_add:
  assumes "areas m L" "k < 6" "2 ^ k dvd b" "0 < b" "b + 2 ^ k \<le> limit m"
    and "block k b \<inter> free_set L = {}" "k < 5 \<Longrightarrow> buddy k b \<notin> set (L k)"
  shows "areas (toggle k b (add_mem_queue k (Page b) m)) (L(k := b # L k))"
proof -
  have ok: "blocks_ok (limit m) L" "links m L" using assms(1) by (simp_all add: areas_def)
  have nb: "b \<notin> set (L k)" using assms(6) block_in_free [of k b L, OF assms(2)] block_ne(2) by blast
  have "bits_ok (limit m) (bitmap (toggle k b (add_mem_queue k (Page b) m))) (L(k := b # L k))"
    using bits_ok_toggle [of "limit m" "bitmap m" L k b "b # L k"] assms(1-3) nb
    by (simp add: areas_def toggle_def)
  moreover have "links (toggle k b (add_mem_queue k (Page b) m)) (L(k := b # L k))"
    using links_add [OF ok(2,1) assms(2,6)] by (simp add: links_cong [of "toggle k b _"])
  moreover have "blocks_ok (limit m) (L(k := b # L k))"
    using blocks_ok_add [OF ok(1) assms(2-7)] by simp
  ultimately show ?thesis using assms(1) by (simp add: areas_def limit_def)
qed

lemma areas_remove:
  assumes "areas m L" "k < 6" "b \<in> set (L k)"
  shows "areas (toggle k b (remove_mem_queue (Page b) m)) (L(k := remove1 b (L k)))"
    and "free_set (L(k := remove1 b (L k))) = free_set L - block k b"
proof -
  have ok: "blocks_ok (limit m) L" "links m L" using assms(1) by (simp_all add: areas_def)
  have d: "distinct (L k)" using ok(2) assms(2) by (simp add: links_def)
  show "free_set (L(k := remove1 b (L k))) = free_set L - block k b"
    using free_set_remove [OF ok(1) assms(2,3) d] .
  have "bits_ok (limit m) (bitmap (toggle k b (remove_mem_queue (Page b) m))) (L(k := remove1 b (L k)))"
    using bits_ok_toggle [of "limit m" "bitmap m" L k b "remove1 b (L k)"] assms blocks_okD(1) [OF ok(1) assms(2,3)] d
    by (simp add: areas_def toggle_def)
  moreover have "links (toggle k b (remove_mem_queue (Page b) m)) (L(k := remove1 b (L k)))"
    using links_remove [OF ok(2,1) assms(2,3)] by (simp add: links_cong [of "toggle k b _"])
  ultimately show "areas (toggle k b (remove_mem_queue (Page b) m)) (L(k := remove1 b (L k)))"
    using assms(1) blocks_ok_remove [OF ok(1)] by (simp add: areas_def limit_def)
qed

section \<open>Merging\<close>

text \<open>The steps of a merge change nothing but queues and bits.\<close>

definition queues_only :: "mm \<Rightarrow> mm \<Rightarrow> bool" where
  "queues_only m m' = (m' = m\<lparr>nxt := nxt m', prv := prv m', bitmap := bitmap m'\<rparr>)"

lemma queues_only_refl [simp]: "queues_only m m"
  by (simp add: queues_only_def)

lemma queues_only_trans: "queues_only m m1 \<Longrightarrow> queues_only m1 m2 \<Longrightarrow> queues_only m m2"
  unfolding queues_only_def by (cases m; cases m1; cases m2) simp

lemma queues_only_steps [simp]:
  "queues_only m (toggle k b m)" "queues_only m (add_mem_queue k e m)" "queues_only m (remove_mem_queue e m)"
  by (simp_all add: queues_only_def toggle_def add_mem_queue_def remove_mem_queue_def Let_def)

lemma queues_onlyD:
  assumes "queues_only m m'"
  shows "high_memory m' = high_memory m" "page_nr m' = page_nr m" "page_flags m' = page_flags m"
    "page_count m' = page_count m" "nr_free_pages m' = nr_free_pages m" "limit m' = limit m"
    "page_user m' = page_user m"
  using assms unfolding queues_only_def limit_def by (cases m; cases m'; simp)+

lemma free_merge_areas:
  assumes "areas m L" "k \<le> 5" "2 ^ k dvd unat w" "0 < unat w" "unat w + 2 ^ k \<le> limit m"
    and "block k (unat w) \<inter> free_set L = {}"
  shows "\<exists>j c m1 L'. free_merge k (- (2 ^ k)) (drop_bit (1 + k) w) w m = Some (j, c, m1) \<and>
     areas (add_mem_queue j (Page (unat c)) m1) L' \<and> free_set L' = free_set L \<union> block k (unat w) \<and>
     queues_only m m1"
  using assms
proof (induction "5 - k" arbitrary: k w m L)
  case 0
  then have k: "k = 5" by simp
  have "areas (toggle 5 (unat w) (add_mem_queue 5 (Page (unat w)) m)) (L(5 := unat w # L 5))"
    using 0(2-) k by (intro areas_add) auto
  then have "areas (add_mem_queue 5 (Page (unat w)) m) (L(5 := unat w # L 5))"
    by (simp only: areas_toggle_top)
  moreover have "free_merge k (- (2 ^ k)) (drop_bit (1 + k) w) w m = Some (5, w, m)"
    using free_merge_stop [of k] k by (subst free_merge.simps) simp
  ultimately show ?case using free_set_add [of 5 L "unat w"] k by fastforce
next
  case (Suc n)
  let ?b = "unat w"
  have k: "k < 5" "k < 6" "k < 32" using Suc(2) by linarith+
  have stop: "\<not> (- (2 ^ k) + push_bit (NR_MEM_LISTS - 1) (1 :: u32) = 0)"
    using free_merge_stop [of k] k by simp
  have area: "\<not> NR_MEM_LISTS \<le> k" using k by (simp add: NR_MEM_LISTS_def)
  have ok: "blocks_ok (limit m) L" "bits_ok (limit m) (bitmap m) L"
    using Suc.prems(1) by (simp_all add: areas_def)
  have nb: "?b \<notin> set (L k)"
    using Suc.prems(6) block_in_free [of k ?b L, OF k(2)] block_ne(2) by blast
  have "?b < limit m" using Suc.prems(5) by (simp add: less_le_trans [OF _ Suc.prems(5)])
  then have old: "bitmap m k (?b div 2 ^ (k + 1)) = (buddy k ?b \<in> set (L k))"
    using ok(2) k nb Suc.prems(3) by (simp add: bits_ok_def)
  note step = free_merge.simps [of k "- (2 ^ k)" "drop_bit (1 + k) w" w m]
  show ?case
  proof (cases "buddy k ?b \<in> set (L k)")
    case False
    have "free_merge k (- (2 ^ k)) (drop_bit (1 + k) w) w m = Some (k, w, toggle k ?b m)"
      using step stop area old False change_bit_toggle [OF refl, of k w m] by simp
    moreover have "areas (add_mem_queue k (Page ?b) (toggle k ?b m)) (L(k := ?b # L k))"
      unfolding toggle_add using Suc.prems k False by (intro areas_add) auto
    ultimately show ?thesis using free_set_add [OF k(2)] queues_only_steps(1) by metis
  next
    case True
    let ?c = "buddy k ?b" and ?w = "w AND push_bit 1 (- (2 ^ k))"
    let ?m = "remove_mem_queue (Page ?c) (toggle k ?b m)" and ?L = "L(k := remove1 ?c (L k))"
    have run: "free_merge k (- (2 ^ k)) (drop_bit (1 + k) w) w m
        = free_merge (k + 1) (- (2 ^ (k + 1))) (drop_bit (1 + (k + 1)) ?w) ?w ?m"
      using step stop area old True change_bit_toggle [OF refl, of k w m]
        unat_xor_buddy [OF Suc.prems(3) k(3)] drop_bit_parent [of k w]
      by (simp add: push_bit_eq_mult mult.commute Let_def)
    have w: "unat ?w = parent k ?b" by (rule unat_and_parent)
    have "toggle k ?b m = toggle k ?c m"
      using Suc.prems(3) by (simp only: toggle_def buddy_simps(4))
    then have ar: "areas ?m ?L" "free_set ?L = free_set L - block k ?c"
      using areas_remove [OF Suc.prems(1) k(2) True] by (simp_all add: toggle_remove)
    have par: "block (k + 1) (parent k ?b) = block k ?b \<union> block k ?c" "2 ^ (k + 1) dvd parent k ?b"
      using buddy_simps(5,6) [OF Suc.prems(3)] by simp_all
    have lim: "limit ?m = limit m" by (simp add: limit_def)
    note c = blocks_okD [OF ok(1) k(2) True]
    have pos: "0 < parent k ?b \<and> parent k ?b + 2 ^ (k + 1) \<le> limit m"
      by (rule aligned_cases [OF Suc.prems(3)]) (use Suc.prems(4,5) c in \<open>simp_all add: algebra_simps\<close>)
    have "\<exists>j c m1 L'. free_merge (k + 1) (- (2 ^ (k + 1))) (drop_bit (1 + (k + 1)) ?w) ?w ?m = Some (j, c, m1) \<and>
       areas (add_mem_queue j (Page (unat c)) m1) L' \<and> free_set L' = free_set ?L \<union> block (k + 1) (unat ?w) \<and>
       queues_only ?m m1"
      by (rule Suc.hyps(1)) (use Suc(2) ar par pos w lim Suc.prems(6) in auto)
    moreover have "free_set ?L \<union> block (k + 1) (unat ?w) = free_set L \<union> block k ?b"
      using w par ar(2) block_in_free [of k ?c L, OF k(2) True] by auto
    moreover have "queues_only m ?m"
      using queues_only_trans queues_only_steps by blast
    ultimately show ?thesis unfolding run using queues_only_trans by metis
  qed
qed

section \<open>The pool of free pages\<close>

text \<open>
  \<^verbatim>\<open>pool m F\<close>: the free areas hold exactly the pages of \<^verbatim>\<open>F\<close>, and the counter agrees. Pages fit for
  DMA are those below 16 MB, as \<^verbatim>\<open>mem_init\<close> leaves them.
\<close>

definition pool :: "mm \<Rightarrow> nat set \<Rightarrow> bool" where
  "pool m F =
     ((\<exists>L. areas m L \<and> free_set L = F) \<and> nr_free_pages m = of_nat (card F) \<and> limit m \<le> 2 ^ 20 \<and>
      (\<forall>p\<in>F. PageDMA p m = (p < 4096)))"

lemma areas_free_bounds: "areas m L \<Longrightarrow> free_set L \<subseteq> {0<..<limit m}"
proof
  fix p assume "areas m L" "p \<in> free_set L"
  then obtain k b where "k < 6" "b \<in> set (L k)" "p \<in> block k b" "blocks_ok (limit m) L"
    by (auto simp: areas_def elim: free_setE)
  then show "p \<in> {0<..<limit m}" using blocks_okD [of "limit m" L k b] by (auto simp: block_def)
qed

lemma pool_bounds: "pool m F \<Longrightarrow> F \<subseteq> {0<..<limit m}" "pool m F \<Longrightarrow> finite F"
  using areas_free_bounds finite_subset by (auto simp: pool_def)

lemma pool_cong:
  assumes "nxt m' = nxt m" "prv m' = prv m" "bitmap m' = bitmap m" "page_nr m' = page_nr m"
    "high_memory m' = high_memory m" "nr_free_pages m' = nr_free_pages m" "page_flags m' = page_flags m"
  shows "pool m' F = pool m F"
  using areas_cong [OF assms(1-5)] assms(5-) by (simp add: pool_def limit_def PageDMA_def)

lemma push_bit_mask: "push_bit order (NOT 0 :: u32) = - (2 ^ order)"
  by (simp add: push_bit_eq_mult)

lemma card_Un_block: "finite F \<Longrightarrow> block k b \<inter> F = {} \<Longrightarrow> card (F \<union> block k b) = card F + 2 ^ k"
  by (subst card_Un_disjoint) auto

text \<open>
  What is not part of the queues: everything an owner of pages may look at.
\<close>

definition keeps :: "mm \<Rightarrow> mm \<Rightarrow> bool" where
  "keeps m m' = (high_memory m' = high_memory m \<and> page_nr m' = page_nr m \<and> page_flags m' = page_flags m \<and>
     page_user m' = page_user m)"

lemma free_pages_ok_pool:
  assumes "pool m F" "k \<le> 5" "2 ^ k dvd unat w" "0 < unat w" "unat w + 2 ^ k \<le> limit m"
    and "block k (unat w) \<inter> F = {}" "\<forall>p\<in>block k (unat w). PageDMA p m = (p < 4096)"
  shows "\<exists>m'. free_pages_ok w k m = Some m' \<and> pool m' (F \<union> block k (unat w)) \<and> keeps m m' \<and>
    page_count m' = page_count m"
proof -
  let ?m = "m\<lparr>nr_free_pages := nr_free_pages m - - (2 ^ k)\<rparr>"
  obtain L where L: "areas m L" "free_set L = F" using assms(1) by (auto simp: pool_def)
  have "areas ?m L" using L(1) areas_cong [of ?m m L] by simp
  moreover have lim: "limit ?m = limit m" by (simp add: limit_def)
  ultimately obtain j c m1 L' where r: "free_merge k (- (2 ^ k)) (drop_bit (1 + k) w) w ?m = Some (j, c, m1)"
    "areas (add_mem_queue j (Page (unat c)) m1) L'" "free_set L' = F \<union> block k (unat w)" "queues_only ?m m1"
    using free_merge_areas [of ?m L k w] assms L(2) by auto
  let ?m2 = "add_mem_queue j (Page (unat c)) m1"
  let ?m3 = "if buffer_waiters ?m2 then ?m2\<lparr>woken := woken ?m2 + 1\<rparr> else ?m2"
  have w: "w AND - (2 ^ k) = w"
  proof -
    have "w AND NOT (mask k) = w"
    proof (rule bit_word_eqI)
      fix n assume "n < LENGTH(32)"
      have "\<not> bit (unat w) n" if "n < k"
        using assms(3) that by (simp add: dvd_def) (metis bit_push_bit_iff_nat leD mult.commute push_bit_eq_mult)
      then show "bit (w AND NOT (mask k)) n = bit w n"
        by (auto simp: bit_simps dest: bit_imp_le_length)
    qed
    then show ?thesis by (simp add: minus_exp_eq_not_mask)
  qed
  have run: "free_pages_ok w k m = Some ?m3"
    unfolding free_pages_ok_def Let_def push_bit_mask w using r(1) by simp
  have q: "queues_only ?m ?m2" using r(4) queues_only_trans queues_only_steps(2) by blast
  note f = queues_onlyD [OF q]
  have ar: "areas ?m3 L'" using r(2) by (simp add: areas_cong [of "?m2\<lparr>woken := _\<rparr>" ?m2])
  have "nr_free_pages ?m3 = of_nat (card F) + 2 ^ k"
    using f(5) assms(1) by (simp add: pool_def)
  also have "\<dots> = of_nat (card (F \<union> block k (unat w)))"
    using card_Un_block [OF pool_bounds(2) [OF assms(1)] assms(6)] by simp
  finally have n: "nr_free_pages ?m3 = of_nat (card (F \<union> block k (unat w)))" .
  have "high_memory ?m3 = high_memory m" "page_flags ?m3 = page_flags m" "page_nr ?m3 = page_nr m"
    "page_count ?m3 = page_count m" "page_user ?m3 = page_user m"
    using f by simp_all
  moreover from this(1,2) have "limit ?m3 = limit m" "\<And>p. PageDMA p ?m3 = PageDMA p m"
    unfolding limit_def PageDMA_def by simp_all
  ultimately have "pool ?m3 (F \<union> block k (unat w)) \<and> keeps m ?m3 \<and> page_count ?m3 = page_count m"
    using ar r(3) n assms(1,7) unfolding pool_def keeps_def by (auto simp only: Un_iff)
  then show ?thesis using run by blast
qed

section \<open>Allocation\<close>

definition serves :: "bool \<Rightarrow> mm \<Rightarrow> nat \<Rightarrow> bool" where
  "serves dma m p = (\<not> dma \<or> PageDMA p m)"

lemma scan_queue_cases:
  assumes "lseg m a (map Page xs) (Area k)"
  shows "(\<exists>ys x zs. xs = ys @ x # zs \<and> serves dma m x \<and>
            scan_queue dma k a m = Some (Some (last (a # map Page ys), x))) \<or>
         (\<forall>x\<in>set xs. \<not> serves dma m x) \<and> scan_queue dma k a m = Some None"
  using assms
proof (induction xs arbitrary: a)
  case Nil
  then show ?case by (subst scan_queue.simps) simp
next
  case (Cons x xs)
  note step = scan_queue.simps [of dma k a m]
  show ?case
  proof (cases "serves dma m x")
    case True
    then have "scan_queue dma k a m = Some (Some (last (a # map Page []), x))"
      using Cons.prems step by (simp add: serves_def)
    then show ?thesis using True by (metis append_Nil)
  next
    case False
    then have r: "scan_queue dma k a m = scan_queue dma k (Page x) m"
      using Cons.prems step by (simp add: serves_def)
    consider ys z zs where "xs = ys @ z # zs" "serves dma m z"
        "scan_queue dma k (Page x) m = Some (Some (last (Page x # map Page ys), z))"
      | "\<forall>z\<in>set xs. \<not> serves dma m z" "scan_queue dma k (Page x) m = Some None"
      using Cons.IH [of "Page x"] Cons.prems by auto
    then show ?thesis
    proof cases
      case 1
      then have "x # xs = (x # ys) @ z # zs" "scan_queue dma k a m = Some (Some (last (a # map Page (x # ys)), z))"
        using r by simp_all
      then show ?thesis using 1(2) by blast
    next
      case 2
      then show ?thesis using False r by simp
    qed
  qed
qed

lemma EXPAND_areas:
  assumes "areas m L" "low \<le> high" "high \<le> 5" "2 ^ high dvd unat w" "0 < unat w"
    and "unat w + 2 ^ high \<le> limit m" "limit m \<le> 2 ^ 20" "block high (unat w) \<inter> free_set L = {}"
  shows "\<exists>w' m1 L'. EXPAND (unat w) w low high (2 ^ high) m = (unat w', w',
      m1\<lparr>page_count := (page_count m)(unat w' := 1), page_age := (page_age m1)(unat w' := page_initial_age m1)\<rparr>) \<and>
    queues_only m m1 \<and> areas m1 L' \<and> 2 ^ low dvd unat w' \<and> block low (unat w') \<subseteq> block high (unat w) \<and>
    free_set L' = free_set L \<union> (block high (unat w) - block low (unat w'))"
  using assms
proof (induction "high - low" arbitrary: high w m L)
  case 0
  then have "high = low" by simp
  then have "EXPAND (unat w) w low high (2 ^ high) m = (unat w, w,
      m\<lparr>page_count := (page_count m)(unat w := 1), page_age := (page_age m)(unat w := page_initial_age m)\<rparr>)"
    by (subst EXPAND.simps) simp
  moreover have "block high (unat w) - block low (unat w) = {}" using \<open>high = low\<close> by simp
  ultimately show ?case using 0(2-) \<open>high = low\<close> by (metis Un_empty_right order_refl queues_only_refl)
next
  case (Suc n)
  obtain h where h: "high = Suc h" using Suc(2) by (cases high) auto
  let ?b = "unat w" and ?w = "w + 2 ^ h"
  let ?m = "toggle h (unat w) (add_mem_queue h (Page (unat w)) m)" and ?L = "L(h := unat w # L h)"
  have bound: "?b + 2 ^ h + 2 ^ h \<le> limit m" using Suc.prems(6) h by simp
  have wu: "unat ?w = ?b + 2 ^ h"
  proof -
    have u: "unat (2 ^ h :: u32) = 2 ^ h" using Suc.prems(3) h by (intro unat_exp) simp
    have "?b + 2 ^ h < 2 ^ 32" using bound Suc.prems(7) by (simp add: order_le_less_trans)
    then show ?thesis using unat_add_lem [of w "2 ^ h"] u by simp
  qed
  have al: "2 ^ h dvd ?b" "2 ^ h dvd unat ?w"
    using Suc.prems(4) h wu by (auto simp: dvd_mult_right)
  have bl: "block high ?b = block h ?b \<union> block h (unat ?w)" "block h ?b \<inter> block h (unat ?w) = {}"
    unfolding wu h block_def by auto
  have bud: "buddy h ?b = unat ?w"
    using Suc.prems(4) h unfolding wu buddy_def by (auto simp: dvd_def div_mult2_eq mult.assoc)
  have "buddy h ?b \<notin> set (L h)"
    using Suc.prems(3,8) h bl(1) block_in_free [of h "unat ?w" L] block_ne(2) [of "unat ?w" h] unfolding bud by fastforce
  then have ar: "areas ?m ?L"
    using Suc.prems h al bl bound by (intro areas_add) auto
  have fs: "free_set ?L = free_set L \<union> block h ?b" using Suc.prems(3) h by (intro free_set_add) simp
  have lim: "limit ?m = limit m" by (simp add: limit_def)
  have dis: "block h (unat ?w) \<inter> free_set ?L = {}" using Suc.prems(8) bl fs by auto
  have run: "EXPAND ?b w low high (2 ^ high) m = EXPAND (unat ?w) ?w low h (2 ^ h) ?m"
  proof -
    have "drop_bit 1 (2 ^ high :: u32) = 2 ^ h"
      unfolding h by (rule bit_word_eqI) (use Suc.prems(3) h in \<open>auto simp: bit_simps simp del: power_Suc\<close>)
    moreover have "unat (2 ^ h :: u32) = 2 ^ h" using Suc.prems(3) h by (intro unat_exp) simp
    moreover have "low < high" using Suc(2) by simp
    ultimately show ?thesis
      by (subst EXPAND.simps) (simp add: h Let_def MARK_USED_toggle wu)
  qed
  obtain w' m1 L' where r: "EXPAND (unat ?w) ?w low h (2 ^ h) ?m = (unat w', w',
      m1\<lparr>page_count := (page_count ?m)(unat w' := 1), page_age := (page_age m1)(unat w' := page_initial_age m1)\<rparr>)"
    "queues_only ?m m1" "areas m1 L'" "2 ^ low dvd unat w'" "block low (unat w') \<subseteq> block h (unat ?w)"
    "free_set L' = free_set ?L \<union> (block h (unat ?w) - block low (unat w'))"
  proof -
    have "n = h - low" "low \<le> h" "h \<le> 5" "0 < unat ?w" "unat ?w + 2 ^ h \<le> limit ?m" "limit ?m \<le> 2 ^ 20"
      using Suc(2) Suc.prems(3,7) h wu lim bound by simp_all
    from Suc.hyps(1) [OF this(1) ar this(2,3) al(2) this(4,5,6) dis] show thesis using that by blast
  qed
  have "queues_only m m1"
    using r(2) queues_only_trans queues_only_steps by blast
  moreover have "page_count ?m = page_count m" by (simp add: toggle_def add_mem_queue_def Let_def)
  moreover have "free_set L' = free_set L \<union> (block high ?b - block low (unat w'))"
    using r(5,6) fs bl by auto
  ultimately show ?case using r run bl(1) by (metis le_supI2)
qed

lemma aligned_step:
  assumes "(2 :: nat) ^ k dvd b" "2 ^ k dvd c" "b < c"
  shows "b + 2 ^ k \<le> c"
proof -
  obtain p q where pq: "b = 2 ^ k * p" "c = 2 ^ k * q" using assms(1,2) by (auto simp: dvd_def)
  then have "Suc p \<le> q" using assms(3) by auto
  then have "2 ^ k * Suc p \<le> 2 ^ k * q" by (rule mult_le_mono2)
  then show ?thesis using pq by simp
qed

lemma block_below_dma:
  assumes "2 ^ k dvd b" "k \<le> 5" "b < 4096"
  shows "block k b \<subseteq> {..<4096}"
proof -
  have "(2 :: nat) ^ k dvd 2 ^ 12" using assms(2) by (intro le_imp_power_dvd) simp
  then have "b + 2 ^ k \<le> 2 ^ 12" using assms by (intro aligned_step) simp_all
  then show ?thesis by (auto simp: block_def)
qed

text \<open>One block leaves its queue and is split down to the order that was asked for.\<close>

definition take_block :: "nat \<Rightarrow> nat \<Rightarrow> node \<Rightarrow> nat \<Rightarrow> mm \<Rightarrow> u32 option \<times> mm" where
  "take_block order new_order prev ret m =
     (let map_nr = page_nr m ret;
          next = nxt m (Page ret);
          m1 = m\<lparr>nxt := (nxt m)(prev := next)\<rparr>;
          m2 = m1\<lparr>prv := (prv m1)(next := prev)\<rparr>;
          m3 = MARK_USED map_nr new_order new_order m2;
          m4 = m3\<lparr>nr_free_pages := nr_free_pages m3 - push_bit order 1\<rparr>;
          (_, map_nr, m5) = EXPAND ret map_nr order new_order (push_bit new_order 1) m4
      in (Some (ADDRESS map_nr), m5))"

lemma RMQUEUE_take:
  "RMQUEUE order dma new_order m =
     (case scan_queue dma new_order (Area new_order) m of
        None \<Rightarrow> None
      | Some (Some (prev, ret)) \<Rightarrow> Some (take_block order new_order prev ret m)
      | Some None \<Rightarrow> if new_order + 1 < NR_MEM_LISTS then RMQUEUE order dma (new_order + 1) m else Some (None, m))"
  by (subst RMQUEUE.simps) (auto simp: take_block_def Let_def split_def split: option.split)

text \<open>What an allocation of \<^verbatim>\<open>order\<close> that yields the page \<^verbatim>\<open>w\<close> does to the pool.\<close>

definition granted :: "mm \<Rightarrow> nat set \<Rightarrow> nat \<Rightarrow> u32 \<Rightarrow> mm \<Rightarrow> bool" where
  "granted m F order w m' =
     (2 ^ order dvd unat w \<and> block order (unat w) \<subseteq> F \<and> pool m' (F - block order (unat w)) \<and>
      keeps m m' \<and> page_count m' = (page_count m)(unat w := 1))"

lemma take_block_granted:
  assumes "pool m F" "areas m L" "free_set L = F" "order \<le> k" "k \<le> 5"
    and L: "L k = xs @ b # ys"
  shows "\<exists>w m'. take_block order k (last (Area k # map Page xs)) b m = (Some (ADDRESS w), m') \<and>
    granted m F order w m' \<and> block order (unat w) \<subseteq> block k b"
proof -
  have k: "k < 6" "b \<in> set (L k)" using assms(5) L by simp_all
  have ok: "blocks_ok (limit m) L" "links m L" "\<forall>p<limit m. page_nr m p = of_nat p"
    using assms(2) by (simp_all add: areas_def)
  have lim: "limit m \<le> 2 ^ 20" using assms(1) by (simp add: pool_def)
  note b = blocks_okD [OF ok(1) k]
  have b_small: "b < limit m" using b(3) by (rule less_le_trans [rotated]) simp
  have nr: "page_nr m b = of_nat b" using ok(3) b_small by simp
  have ub: "unat (of_nat b :: u32) = b"
    using b_small lim by (intro unat_of_nat_small) simp
  have "queue m k (xs @ b # ys)" using ok(2) k(1) L [symmetric] by (simp add: links_def)
  note ln = queue_links [OF this]
  let ?m3 = "toggle k b (remove_mem_queue (Page b) m)" and ?L = "L(k := remove1 b (L k))"
  let ?m4 = "?m3\<lparr>nr_free_pages := nr_free_pages m - 2 ^ order\<rparr>"
  have ar: "areas ?m4 ?L" "free_set ?L = F - block k b"
    using areas_remove [OF assms(2) k] assms(3) by (simp_all add: areas_cong [of ?m4 ?m3])
  have lim4: "limit ?m4 = limit m" by (simp add: limit_def)
  obtain w m1 L' where r: "EXPAND b (of_nat b) order k (2 ^ k) ?m4 = (unat w, w,
      m1\<lparr>page_count := (page_count ?m4)(unat w := 1), page_age := (page_age m1)(unat w := page_initial_age m1)\<rparr>)"
    "queues_only ?m4 m1" "areas m1 L'" "2 ^ order dvd unat w" "block order (unat w) \<subseteq> block k b"
    "free_set L' = free_set ?L \<union> (block k b - block order (unat w))"
    using EXPAND_areas [OF ar(1) assms(4,5), of "of_nat b"] b lim lim4 ar(2) unfolding ub by auto
  let ?m5 = "m1\<lparr>page_count := (page_count ?m4)(unat w := 1), page_age := (page_age m1)(unat w := page_initial_age m1)\<rparr>"
  have run: "take_block order k (last (Area k # map Page xs)) b m = (Some (ADDRESS w), ?m5)"
  proof -
    have "m\<lparr>nxt := (nxt m)(prv m (Page b) := nxt m (Page b)), prv := (prv m)(nxt m (Page b) := prv m (Page b))\<rparr>
        = remove_mem_queue (Page b) m"
      by (simp add: remove_mem_queue_def Let_def)
    moreover have "nr_free_pages ?m3 = nr_free_pages m"
      by (simp add: toggle_def remove_mem_queue_def Let_def)
    ultimately show ?thesis
      unfolding take_block_def ln(1) [symmetric] using r(1) nr MARK_USED_toggle [OF ub]
      by (simp add: Let_def)
  qed
  have sub: "block k b \<subseteq> F" using block_in_free [of k b L, OF k] assms(3) by simp
  have fin: "finite F" using pool_bounds(2) [OF assms(1)] .
  have fs: "free_set L' = F - block order (unat w)" using r(5,6) ar(2) sub by auto
  have "card F = card (F - block order (unat w)) + 2 ^ order"
    using card_Diff_subset [of "block order (unat w)" F] card_mono [OF fin, of "block order (unat w)"] r(5) sub by auto
  then have n: "nr_free_pages m - 2 ^ order = of_nat (card (F - block order (unat w)))"
    using assms(1) by (simp add: pool_def)
  note f = queues_onlyD [OF r(2)]
  have c: "page_count ?m4 = page_count m" by (simp add: toggle_def remove_mem_queue_def Let_def)
  have ke: "high_memory ?m5 = high_memory m" "page_flags ?m5 = page_flags m" "page_nr ?m5 = page_nr m"
    "page_user ?m5 = page_user m"
    using f by (simp_all add: toggle_def remove_mem_queue_def Let_def)
  then have "limit ?m5 = limit m" "\<And>p. PageDMA p ?m5 = PageDMA p m" unfolding limit_def PageDMA_def by simp_all
  moreover have "areas ?m5 L'" using r(3) areas_cong [of ?m5 m1 L'] by simp
  moreover have "nr_free_pages ?m5 = of_nat (card (F - block order (unat w)))" using f(5) n by simp
  ultimately have "pool ?m5 (F - block order (unat w))"
    using assms(1) fs unfolding pool_def by (auto simp only: Diff_iff)
  then have "granted m F order w ?m5"
    using r(4,5) sub ke c unfolding granted_def keeps_def by auto
  then show ?thesis using run r(5) by blast
qed

lemma RMQUEUE_step:
  assumes "pool m F" "areas m L" "free_set L = F" "order \<le> k" "k \<le> 5"
  shows "(\<exists>b w m'. b \<in> set (L k) \<and> serves dma m b \<and> RMQUEUE order dma k m = Some (Some (ADDRESS w), m') \<and>
            granted m F order w m' \<and> block order (unat w) \<subseteq> block k b) \<or>
         (\<forall>b\<in>set (L k). \<not> serves dma m b) \<and>
            RMQUEUE order dma k m = (if k < 5 then RMQUEUE order dma (k + 1) m else Some (None, m))"
proof -
  have "lseg m (Area k) (map Page (L k)) (Area k)"
    using assms(2,5) by (simp add: areas_def links_def queue_def)
  from scan_queue_cases [OF this, of dma] show ?thesis
  proof (elim disjE exE conjE)
    fix ys x zs assume x: "L k = ys @ x # zs" "serves dma m x"
      "scan_queue dma k (Area k) m = Some (Some (last (Area k # map Page ys), x))"
    obtain w m' where "take_block order k (last (Area k # map Page ys)) x m = (Some (ADDRESS w), m')"
      "granted m F order w m'" "block order (unat w) \<subseteq> block k x"
      using take_block_granted [OF assms x(1)] by blast
    moreover from this(1) have "RMQUEUE order dma k m = Some (Some (ADDRESS w), m')"
      using x(3) by (subst RMQUEUE_take) simp
    moreover have "x \<in> set (L k)" using x(1) by simp
    ultimately show ?thesis using x(2) by blast
  next
    assume n: "\<forall>x\<in>set (L k). \<not> serves dma m x" "scan_queue dma k (Area k) m = Some None"
    then have "RMQUEUE order dma k m = (if k < 5 then RMQUEUE order dma (k + 1) m else Some (None, m))"
      by (subst RMQUEUE_take) (simp add: NR_MEM_LISTS_def)
    then show ?thesis using n(1) by blast
  qed
qed

lemma RMQUEUE_pool:
  assumes "pool m F" "areas m L" "free_set L = F" "order \<le> k" "k \<le> 5"
  shows "(\<exists>j b w m'. k \<le> j \<and> j < 6 \<and> b \<in> set (L j) \<and> serves dma m b \<and>
            RMQUEUE order dma k m = Some (Some (ADDRESS w), m') \<and> granted m F order w m' \<and>
            block order (unat w) \<subseteq> block j b) \<or>
         (\<forall>j b. k \<le> j \<longrightarrow> j < 6 \<longrightarrow> b \<in> set (L j) \<longrightarrow> \<not> serves dma m b) \<and> RMQUEUE order dma k m = Some (None, m)"
  using assms(4,5)
proof (induction "5 - k" arbitrary: k)
  case 0
  then have k: "k = 5" by simp
  from RMQUEUE_step [OF assms(1-3) 0(2,3), of dma] show ?case
  proof (elim disjE conjE)
    assume n: "\<forall>b\<in>set (L k). \<not> serves dma m b"
      "RMQUEUE order dma k m = (if k < 5 then RMQUEUE order dma (k + 1) m else Some (None, m))"
    have "j = k" if "k \<le> j" "j < 6" for j using that k by simp
    moreover have "RMQUEUE order dma k m = Some (None, m)" using n(2) k by simp
    ultimately show ?thesis using n(1) by blast
  qed (use k in auto)
next
  case (Suc n)
  have k: "order \<le> k + 1" "k + 1 \<le> 5" "n = 5 - (k + 1)" "k < 6" using Suc(2-4) by linarith+
  from RMQUEUE_step [OF assms(1-3) Suc(3,4), of dma] show ?case
  proof (elim disjE conjE)
    assume n: "\<forall>b\<in>set (L k). \<not> serves dma m b"
      "RMQUEUE order dma k m = (if k < 5 then RMQUEUE order dma (k + 1) m else Some (None, m))"
    then have r: "RMQUEUE order dma k m = RMQUEUE order dma (k + 1) m" using k(2) by simp
    have s: "k \<le> j \<Longrightarrow> j = k \<or> k + 1 \<le> j" for j by linarith
    from Suc(1) [OF k(3,1,2)] show ?thesis
    proof (elim disjE conjE)
      assume "\<forall>j b. k + 1 \<le> j \<longrightarrow> j < 6 \<longrightarrow> b \<in> set (L j) \<longrightarrow> \<not> serves dma m b"
        "RMQUEUE order dma (k + 1) m = Some (None, m)"
      then show ?thesis using r n(1) s by metis
    next
      assume "\<exists>j b w m'. k + 1 \<le> j \<and> j < 6 \<and> b \<in> set (L j) \<and> serves dma m b \<and>
            RMQUEUE order dma (k + 1) m = Some (Some (ADDRESS w), m') \<and> granted m F order w m' \<and>
            block order (unat w) \<subseteq> block j b"
      then show ?thesis unfolding r using add_leD1 by blast
    qed
  qed (use k(4) in blast)
qed

section \<open>The queues are determined by the free pages\<close>

text \<open>Blocks are merged as far as they can be: a free aligned block lies inside one block of a queue.\<close>

lemma free_block_covered:
  assumes "blocks_ok n L" "k \<le> 5" "2 ^ k dvd b" "block k b \<subseteq> free_set L"
  shows "\<exists>j c. k \<le> j \<and> j < 6 \<and> c \<in> set (L j) \<and> block k b \<subseteq> block j c"
  using assms(2-4)
proof (induction k arbitrary: b)
  case 0
  then obtain j c where "j < 6" "c \<in> set (L j)" "b \<in> block j c" using block_ne(2) [of b 0] by (blast elim: free_setE)
  then show ?case by (auto simp: block_def)
next
  case (Suc k)
  let ?c = "b + 2 ^ k"
  have al: "2 ^ k dvd b" "2 ^ k dvd ?c" using Suc.prems(2) by (auto simp: dvd_mult_right)
  have bl: "block (Suc k) b = block k b \<union> block k ?c" by (auto simp: block_def)
  have bud: "buddy k b = ?c"
    using Suc.prems(2) unfolding buddy_def by (auto simp: dvd_def div_mult2_eq mult.assoc)
  have up: "block (Suc k) b \<subseteq> block j x"
    if "Suc k \<le> j" "j < 6" "x \<in> set (L j)" "block k y \<subseteq> block j x" "block k y \<subseteq> block (Suc k) b" for j x y
    using that Suc.prems(2) blocks_okD(1) [OF assms(1) that(2,3)] block_ne(2) [of y k]
    by (intro aligned_nested) blast+
  obtain j x where x: "k \<le> j" "j < 6" "x \<in> set (L j)" "block k b \<subseteq> block j x"
    using Suc.IH [OF _ al(1)] Suc.prems bl by auto
  obtain i y where y: "k \<le> i" "i < 6" "y \<in> set (L i)" "block k ?c \<subseteq> block i y"
    using Suc.IH [OF _ al(2)] Suc.prems bl by auto
  consider "Suc k \<le> j" | "Suc k \<le> i" | "j = k" "i = k" using x(1) y(1) by linarith
  then show ?case
  proof cases
    case 1
    then show ?thesis using up [OF 1 x(2-4)] bl x by blast
  next
    case 2
    then show ?thesis using up [OF 2 y(2-4)] bl y by blast
  next
    case 3
    have "x = b" using aligned_overlap_eq [OF al(1), of x] blocks_okD(1) [OF assms(1) x(2,3)] x(4) 3 block_ne(2) [of b k] by blast
    moreover have "y = ?c"
      using aligned_overlap_eq [OF al(2), of y] blocks_okD(1) [OF assms(1) y(2,3)] y(4) 3 block_ne(2) [of ?c k] by blast
    ultimately show ?thesis using blocks_okD(4) [OF assms(1) x(2,3)] x y 3 bud Suc.prems(1) by auto
  qed
qed

lemma areas_canonical:
  assumes "areas m L" "k < 6"
  shows "set (L k) = {b. 2 ^ k dvd b \<and> block k b \<subseteq> free_set L \<and>
    (k < 5 \<longrightarrow> \<not> block (k + 1) (parent k b) \<subseteq> free_set L)}"
proof (intro subset_antisym subsetI)
  have ok: "blocks_ok (limit m) L" using assms(1) by (simp add: areas_def)
  fix b assume b: "b \<in> set (L k)"
  have al: "2 ^ k dvd b" using blocks_okD(1) [OF ok assms(2) b] .
  have "\<not> block (k + 1) (parent k b) \<subseteq> free_set L" if k: "k < 5"
  proof
    assume "block (k + 1) (parent k b) \<subseteq> free_set L"
    then obtain j c where c: "k + 1 \<le> j" "j < 6" "c \<in> set (L j)" "block (k + 1) (parent k b) \<subseteq> block j c"
      using free_block_covered [OF ok _ buddy_simps(5) [OF al]] k by auto
    then have "block k b \<inter> block j c \<noteq> {}" using buddy_simps(6) [OF al] block_ne(2) [of b k] by blast
    then show False using blocks_ok_overlap [OF ok assms(2) c(2) b c(3)] c(1) by simp
  qed
  then show "b \<in> {b. 2 ^ k dvd b \<and> block k b \<subseteq> free_set L \<and>
    (k < 5 \<longrightarrow> \<not> block (k + 1) (parent k b) \<subseteq> free_set L)}"
    using al block_in_free [of k b L, OF assms(2) b] by blast
next
  have ok: "blocks_ok (limit m) L" using assms(1) by (simp add: areas_def)
  fix b assume "b \<in> {b. 2 ^ k dvd b \<and> block k b \<subseteq> free_set L \<and>
    (k < 5 \<longrightarrow> \<not> block (k + 1) (parent k b) \<subseteq> free_set L)}"
  then have b: "2 ^ k dvd b" "block k b \<subseteq> free_set L"
    "k < 5 \<Longrightarrow> \<not> block (k + 1) (parent k b) \<subseteq> free_set L" by auto
  obtain j c where c: "k \<le> j" "j < 6" "c \<in> set (L j)" "block k b \<subseteq> block j c"
    using free_block_covered [OF ok _ b(1,2)] assms(2) by auto
  note cal = blocks_okD(1) [OF ok c(2,3)]
  have "j = k"
  proof (rule ccontr)
    assume "j \<noteq> k"
    then have j: "k + 1 \<le> j" "k < 5" using c(1,2) by linarith+
    have "block (k + 1) (parent k b) \<inter> block j c \<noteq> {}"
      using c(4) buddy_simps(6) [OF b(1)] block_ne(2) [of b k] by blast
    then have "block (k + 1) (parent k b) \<subseteq> block j c"
      using aligned_nested [OF buddy_simps(5) [OF b(1)] cal j(1)] by blast
    then show False using b(3) [OF j(2)] block_in_free [of j c L, OF c(2,3)] by blast
  qed
  then have "b = c" using aligned_overlap_eq [OF b(1), of c] cal c(4) block_ne(2) [of b k] by blast
  then show "b \<in> set (L k)" using c(3) \<open>j = k\<close> by simp
qed

end
