(* ===== verification/Page_Pool.thy ===== *)
theory Page_Pool
  imports Buddy
begin

text \<open>
  What the page allocator promises its callers: an atomic request succeeds exactly when a
  suitable block is free, blocks in use never overlap, a freed block leaves the queues as they
  were before it was taken.
\<close>

section \<open>Page addresses\<close>

lemma MAP_NR_ADDRESS:
  assumes "unat w < 2 ^ 20"
  shows "MAP_NR (ADDRESS w) = w"
proof -
  have "unat (take_bit 20 w) = unat w" using assms by (simp add: unat_take_mod)
  then have t: "take_bit 20 w = w" by (simp only: word_unat_eq_iff)
  have "drop_bit 12 (push_bit 12 (take_bit 20 w)) = take_bit 20 w"
    by (rule bit_word_eqI) (auto simp: bit_simps)
  then show ?thesis by (simp add: MAP_NR_def ADDRESS_def t)
qed

lemma ADDRESS_nonzero: "0 < unat w \<Longrightarrow> unat w < 2 ^ 20 \<Longrightarrow> ADDRESS w \<noteq> 0"
  using MAP_NR_ADDRESS [of w] by (auto simp: MAP_NR_def)

section \<open>Atomic requests\<close>

text \<open>There is a free block of the order, below 16 MB if it is to serve DMA.\<close>

definition available :: "nat set \<Rightarrow> nat \<Rightarrow> bool \<Rightarrow> bool" where
  "available F order dma = (\<exists>b. 2 ^ order dvd b \<and> block order b \<subseteq> F \<and> (dma \<longrightarrow> b < 4096))"

lemma RMQUEUE_available:
  assumes "pool m F" "order \<le> 5"
  shows "if available F order dma
    then \<exists>w m'. RMQUEUE order dma order m = Some (Some (ADDRESS w), m') \<and> granted m F order w m' \<and>
           (dma \<longrightarrow> block order (unat w) \<subseteq> {..<4096})
    else RMQUEUE order dma order m = Some (None, m)"
proof -
  obtain L where L: "areas m L" "free_set L = F" using assms(1) by (auto simp: pool_def)
  have ok: "blocks_ok (limit m) L" using L(1) by (simp add: areas_def)
  have dma: "PageDMA p m = (p < 4096)" if "p \<in> F" for p
    using assms(1) that by (simp add: pool_def)
  have inF: "b \<in> F" if "j < 6" "b \<in> set (L j)" for j b
    using block_in_free [of j b L, OF that] L(2) block_ne(2) by blast
  from RMQUEUE_pool [OF assms(1) L order_refl assms(2), of dma] show ?thesis
  proof (elim disjE exE conjE)
    fix j b w m'
    assume j: "order \<le> j" "j < 6" "b \<in> set (L j)" "serves dma m b"
      and r: "RMQUEUE order dma order m = Some (Some (ADDRESS w), m')" "granted m F order w m'"
        "block order (unat w) \<subseteq> block j b"
    have low: "block order (unat w) \<subseteq> {..<4096}" if dma
    proof -
      have "b < 4096" using that j(4) dma [OF inF [OF j(2,3)]] by (simp add: serves_def)
      then show ?thesis using block_below_dma [OF blocks_okD(1) [OF ok j(2,3)]] j(2) r(3) by auto
    qed
    moreover have "available F order dma"
    proof -
      have "unat w < 4096" if dma using low [OF that] block_ne(2) [of "unat w" order] by blast
      then show ?thesis unfolding available_def using r(2) by (intro exI [of _ "unat w"]) (auto simp: granted_def)
    qed
    ultimately show ?thesis using r by auto
  next
    assume n: "\<forall>j b. order \<le> j \<longrightarrow> j < 6 \<longrightarrow> b \<in> set (L j) \<longrightarrow> \<not> serves dma m b"
      "RMQUEUE order dma order m = Some (None, m)"
    have "\<not> available F order dma"
    proof
      assume "available F order dma"
      then obtain b where b: "2 ^ order dvd b" "block order b \<subseteq> F" "dma \<longrightarrow> b < 4096"
        by (auto simp: available_def)
      then obtain j c where c: "order \<le> j" "j < 6" "c \<in> set (L j)" "block order b \<subseteq> block j c"
        using free_block_covered [OF ok assms(2) b(1)] L(2) by auto
      have "c \<le> b" using c(4) block_ne(2) [of b order] by (auto simp: block_def)
      then have "serves dma m c" using b(3) dma [OF inF [OF c(2,3)]] by (auto simp: serves_def)
      then show False using n(1) c by blast
    qed
    then show ?thesis using n(2) by simp
  qed
qed

lemma granted_page:
  assumes "pool m F" "granted m F order w m'"
  shows "0 < unat w" "unat w < limit m" "unat w < 2 ^ 20" "MAP_NR (ADDRESS w) = w" "ADDRESS w \<noteq> 0"
proof -
  have "unat w \<in> F" using assms(2) block_ne(2) [of "unat w" order] by (auto simp: granted_def)
  then show w: "0 < unat w" "unat w < limit m" using pool_bounds(1) [OF assms(1)] by auto
  then show s: "unat w < 2 ^ 20" using assms(1) by (auto simp: pool_def)
  show "MAP_NR (ADDRESS w) = w" "ADDRESS w \<noteq> 0" using MAP_NR_ADDRESS [OF s] ADDRESS_nonzero [OF w(1) s] .
qed

lemma gfp_atomic:
  "get_free_pages r intr ra GFP_ATOMIC order dma m =
     (if 5 < order then Some (0, m)
      else map_option (\<lambda>(a, m1). (case a of None \<Rightarrow> 0 | Some addr \<Rightarrow> addr, m1)) (RMQUEUE order dma order m))"
  by (simp add: get_free_pages_def NR_MEM_LISTS_def gfp_priority_def gfp_repeat.simps split: option.splits)

section \<open>Blocks in use\<close>

text \<open>\<^verbatim>\<open>owned m F H\<close>: the pages \<^verbatim>\<open>F\<close> are free, and the blocks \<^verbatim>\<open>H\<close> (order and first page) are in use by callers.\<close>

fun apart :: "(nat \<times> nat) list \<Rightarrow> bool" where
  "apart [] = True"
| "apart ((k, b) # H) = ((\<forall>(j, c)\<in>set H. block k b \<inter> block j c = {}) \<and> apart H)"

definition in_use :: "mm \<Rightarrow> nat set \<Rightarrow> nat \<times> nat \<Rightarrow> bool" where
  "in_use m F = (\<lambda>(k, b). k \<le> 5 \<and> 2 ^ k dvd b \<and> 0 < b \<and> b + 2 ^ k \<le> limit m \<and>
     block k b \<inter> F = {} \<and> page_count m b = 1 \<and>
     (\<forall>p\<in>block k b. \<not> PageReserved p m \<and> PageDMA p m = (p < 4096)))"

definition owned :: "mm \<Rightarrow> nat set \<Rightarrow> (nat \<times> nat) list \<Rightarrow> bool" where
  "owned m F H = (pool m F \<and> (\<forall>p\<in>F. \<not> PageReserved p m) \<and> (\<forall>h\<in>set H. in_use m F h) \<and> apart H)"

definition covered :: "(nat \<times> nat) list \<Rightarrow> nat set" where
  "covered H = (\<Union>(k, b)\<in>set H. block k b)"

lemma covered_simps [simp]: "covered [] = {}" "covered ((k, b) # H) = block k b \<union> covered H"
  by (simp_all add: covered_def)

lemma apart_remove1: "apart H \<Longrightarrow> apart (remove1 h H)"
  by (induction H rule: apart.induct) (use notin_set_remove1 in fastforce)+

lemma apart_distinct: "apart H \<Longrightarrow> distinct H"
  by (induction H rule: apart.induct) (use block_ne(1) in fastforce)+

lemma apart_disjoint:
  "apart H \<Longrightarrow> (k, b) \<in> set H \<Longrightarrow> (j, c) \<in> set H \<Longrightarrow> (k, b) \<noteq> (j, c) \<Longrightarrow> block k b \<inter> block j c = {}"
  by (induction H rule: apart.induct) auto

lemma owned_disjoint: "owned m F H \<Longrightarrow> covered H \<inter> F = {}"
  by (auto simp: owned_def in_use_def covered_def)

lemma keeps_frame:
  assumes "keeps m m'"
  shows "limit m' = limit m" "PageReserved p m' = PageReserved p m" "PageDMA p m' = PageDMA p m"
  using assms by (simp_all add: keeps_def limit_def PageReserved_def PageDMA_def)

lemma granted_owned:
  assumes "owned m F H" "granted m F order w m'" "order \<le> 5"
  shows "owned m' (F - block order (unat w)) ((order, unat w) # H)"
proof -
  have p: "pool m F" using assms(1) by (simp add: owned_def)
  note w = granted_page [OF p assms(2)]
  have g: "2 ^ order dvd unat w" "block order (unat w) \<subseteq> F" "pool m' (F - block order (unat w))"
    "keeps m m'" "page_count m' = (page_count m)(unat w := 1)"
    using assms(2) by (simp_all add: granted_def)
  have wF: "unat w \<in> F" using g(2) block_ne(2) by blast
  have apart': "block order (unat w) \<inter> block j c = {}" "c \<noteq> unat w" if "(j, c) \<in> set H" for j c
  proof -
    have "block j c \<inter> F = {}" using assms(1) that by (auto simp: owned_def in_use_def)
    then show "block order (unat w) \<inter> block j c = {}" "c \<noteq> unat w"
      using g(2) wF block_ne(2) [of c j] by blast+
  qed
  have "unat w + 2 ^ order \<le> limit m"
  proof -
    have "0 < (2 :: nat) ^ order" by simp
    then have "unat w + 2 ^ order - 1 \<in> block order (unat w)" unfolding block_def atLeastLessThan_iff by linarith
    then have "unat w + 2 ^ order - 1 < limit m" using g(2) pool_bounds(1) [OF p] by auto
    then show ?thesis by simp
  qed
  then have "in_use m' (F - block order (unat w)) (order, unat w)"
    using g w(1) assms(1,3) wF keeps_frame [OF g(4)] by (auto simp: in_use_def owned_def pool_def)
  moreover have "in_use m' (F - block order (unat w)) h" if "h \<in> set H" for h
  proof -
    obtain j c where h: "h = (j, c)" by (cases h)
    have "in_use m F h" using assms(1) that by (simp add: owned_def)
    then show ?thesis
      using apart' [of j c] that g(5) keeps_frame [OF g(4)] by (auto simp: in_use_def h)
  qed
  moreover have "apart ((order, unat w) # H)"
  proof -
    have "\<forall>(j, c)\<in>set H. block order (unat w) \<inter> block j c = {}" using apart'(1) by blast
    then show ?thesis using assms(1) by (simp add: owned_def)
  qed
  moreover have "\<forall>p\<in>F - block order (unat w). \<not> PageReserved p m'"
    using assms(1) keeps_frame(2) [OF g(4)] by (simp add: owned_def)
  ultimately show ?thesis using g(3) unfolding owned_def by simp
qed

lemma free_pages_owned:
  assumes "owned m F H" "(k, unat (MAP_NR a)) \<in> set H"
  shows "\<exists>m'. free_pages a k m = Some m' \<and>
    owned m' (F \<union> block k (unat (MAP_NR a))) (remove1 (k, unat (MAP_NR a)) H) \<and> keeps m m'"
proof -
  let ?w = "MAP_NR a"
  let ?b = "unat ?w"
  let ?m1 = "m\<lparr>page_count := (page_count m)(?b := 0)\<rparr>"
  let ?m2 = "delete_from_swap_cache ?w ?m1"
  have u: "in_use m F (k, ?b)" "pool m F" using assms by (auto simp: owned_def)
  have lt: "?b < limit m" using u(1) by (auto simp: in_use_def elim: less_le_trans [rotated])
  have run: "free_pages a k m = free_pages_ok ?w k ?m2"
    using u(1) lt by (simp add: free_pages_def Let_def in_use_def atomic_dec_and_test_def limit_def word_less_nat_alt)
  have fr: "keeps m ?m2" "page_count ?m2 = (page_count m)(?b := 0)" "limit ?m2 = limit m"
    by (simp_all add: delete_from_swap_cache_def Let_def keeps_def limit_def)
  have "pool ?m2 F"
    using u(2) by (subst pool_cong [of _ m]) (simp_all add: delete_from_swap_cache_def Let_def)
  then obtain m' where m': "free_pages_ok ?w k ?m2 = Some m'" "pool m' (F \<union> block k ?b)" "keeps ?m2 m'"
      "page_count m' = page_count ?m2"
    using free_pages_ok_pool [of ?m2 F k ?w] u(1) fr(3) keeps_frame(3) [OF fr(1)] by (auto simp: in_use_def)
  have ke: "keeps m m'" using fr(1) m'(3) by (simp add: keeps_def)
  note kf = keeps_frame [OF ke]
  have res: "\<not> PageReserved p m'" if "p \<in> F \<union> block k ?b" for p
    using that kf(2) u(1) assms(1) by (auto simp: owned_def in_use_def)
  have "in_use m' (F \<union> block k ?b) h" if "h \<in> set (remove1 (k, ?b) H)" for h
  proof -
    obtain j c where h: "h = (j, c)" by (cases h)
    have hH: "h \<in> set H" "h \<noteq> (k, ?b)"
      using that assms(1) apart_distinct by (auto simp: owned_def dest: notin_set_remove1)
    then have d: "block j c \<inter> block k ?b = {}"
      using apart_disjoint [of H j c k ?b] assms by (simp add: owned_def h)
    then have "c \<noteq> ?b" using block_ne(2) by blast
    then show ?thesis
      using hH(1) d assms(1) kf fr(2) m'(4) by (auto simp: owned_def in_use_def h)
  qed
  then show ?thesis
    using run m'(1,2) ke res assms(1) apart_remove1 by (auto simp: owned_def)
qed

section \<open>Requests that may reclaim memory\<close>

text \<open>
  Pages of the page cache, of buffers and of processes are neither free nor held by the callers considered here: the reclaimer may free them. They
  are real pages outside the blocks in use, and \<^verbatim>\<open>mem_init\<close> has set their DMA mark.
\<close>

definition reclaimable :: "mm \<Rightarrow> nat set \<Rightarrow> bool" where
  "reclaimable m S = (\<forall>p. page_user m p \<noteq> 0 \<longrightarrow> 0 < p \<and> p < limit m \<and> p \<notin> S \<and> PageDMA p m = (p < 4096))"

definition leased :: "mm \<Rightarrow> nat set \<Rightarrow> (nat \<times> nat) list \<Rightarrow> bool" where
  "leased m F H = (owned m F H \<and> reclaimable m (F \<union> covered H))"

text \<open>
  What \<^verbatim>\<open>__get_free_pages\<close> relies on. First, \<^verbatim>\<open>try_to_free_page\<close> leaves the blocks in use and the queues intact. It may free pages with
  a user, and it may also use up free pages, as for a transfer to the swap device. Second, called
  again and again it reports at some point that there is nothing more to do. It need not have freed a page when it reports
  success: \<^verbatim>\<open>swap_out\<close> also does when it has only written a page.
\<close>

definition reclaim_ok :: "reclaimer \<Rightarrow> bool" where
  "reclaim_ok r =
     ((\<forall>p d m F H. leased m F H \<longrightarrow> (\<exists>F'. leased (snd (r p d m)) F' H)) \<and>
      (\<forall>p d m. \<exists>n. \<not> fst (r p d (((\<lambda>m. snd (r p d m)) ^^ n) m))))"

lemma reclaim_okD:
  assumes "reclaim_ok r" "leased m F H" "r p d m = (f, m1)"
  shows "\<exists>F'. leased m1 F' H"
  using assms(1) [unfolded reclaim_ok_def, THEN conjunct1, rule_format, OF assms(2), of p d] unfolding assms(3) by simp

definition answered :: "nat set \<Rightarrow> (nat \<times> nat) list \<Rightarrow> nat \<Rightarrow> u32 \<Rightarrow> mm \<Rightarrow> bool" where
  "answered F H k a m' =
     (if a = 0 then leased m' F H
      else ADDRESS (MAP_NR a) = a \<and> block k (unat (MAP_NR a)) \<subseteq> F \<and>
        leased m' (F - block k (unat (MAP_NR a))) ((k, unat (MAP_NR a)) # H))"

lemma reclaimable_cong:
  assumes "keeps m m'" "S \<subseteq> S'" "reclaimable m S'"
  shows "reclaimable m' S"
  using assms(2,3) keeps_frame [OF assms(1)] assms(1) by (auto simp: reclaimable_def keeps_def)

lemma RMQUEUE_answered:
  assumes "leased m F H" "k \<le> 5"
  shows "\<exists>a m'. RMQUEUE k dma k m = Some (a, m') \<and> answered F H k (case a of None \<Rightarrow> 0 | Some x \<Rightarrow> x) m'"
proof (cases "available F k dma")
  have o: "owned m F H" "reclaimable m (F \<union> covered H)" using assms(1) by (simp_all add: leased_def)
  then have p: "pool m F" by (simp add: owned_def)
  case True
  then obtain w m' where r: "RMQUEUE k dma k m = Some (Some (ADDRESS w), m')" "granted m F k w m'"
    using RMQUEUE_available [OF p assms(2), of dma] by auto
  note w = granted_page [OF p r(2)]
  have g: "block k (unat w) \<subseteq> F" "keeps m m'" using r(2) by (simp_all add: granted_def)
  have "reclaimable m' (F - block k (unat w) \<union> covered ((k, unat w) # H))"
    using g(1) by (intro reclaimable_cong [OF g(2) _ o(2)]) auto
  then have "leased m' (F - block k (unat w)) ((k, unat w) # H)"
    using granted_owned [OF o(1) r(2) assms(2)] by (simp add: leased_def)
  then have "answered F H k (ADDRESS w) m'" using g(1) w unfolding answered_def by auto
  then show ?thesis using r(1) by auto
next
  have p: "pool m F" using assms(1) by (simp add: leased_def owned_def)
  case False
  then have "RMQUEUE k dma k m = Some (None, m)" using RMQUEUE_available [OF p assms(2), of dma] by simp
  moreover have "answered F H k 0 m" using assms(1) by (auto simp: answered_def)
  ultimately show ?thesis by simp
qed

lemma gfp_repeat_answered:
  assumes "leased m F H" "k \<le> 5" "reclaim_ok r"
  shows "\<exists>a m' F'. gfp_repeat r p k dma res m = Some (a, m') \<and> answered F' H k a m'"
proof -
  obtain n where n: "\<not> fst (r p dma (((\<lambda>m. snd (r p dma m)) ^^ n) m))" using assms(3) unfolding reclaim_ok_def by blast
  show ?thesis using assms(1) n
  proof (induction n arbitrary: m F)
    case (0 m F)
    obtain f m1 where r: "r p dma m = (f, m1)" by (cases "r p dma m")
    then have "\<not> f" "\<exists>F'. answered F' H k 0 m1" using 0 reclaim_okD [OF assms(3) 0(1) r] by (auto simp: answered_def)
    moreover have "answered F H k 0 m" using 0(1) by (simp add: answered_def)
    moreover have "\<exists>a m'. RMQUEUE k dma k m = Some (a, m') \<and> answered F H k (case a of None \<Rightarrow> 0 | Some x \<Rightarrow> x) m'"
      using RMQUEUE_answered [OF 0(1) assms(2)] .
    ultimately show ?case using gfp_repeat.simps [of r p k dma res m] r by (auto split: option.splits)
  next
    case (Suc n m F)
    obtain f m1 where r: "r p dma m = (f, m1)" by (cases "r p dma m")
    obtain F1 where F1: "leased m1 F1 H" using reclaim_okD [OF assms(3) Suc.prems(1) r] by blast
    have "\<not> fst (r p dma (((\<lambda>m. snd (r p dma m)) ^^ n) m1))" using Suc.prems(2) r by (simp add: funpow_Suc_right del: funpow.simps)
    then have "\<exists>a m' F'. gfp_repeat r p k dma res m1 = Some (a, m') \<and> answered F' H k a m'" by (rule Suc.IH [OF F1])
    moreover have "answered F1 H k 0 m1" "answered F H k 0 m" using Suc.prems(1) F1 by (simp_all add: answered_def)
    moreover have "\<exists>a m'. RMQUEUE k dma k m = Some (a, m') \<and> answered F H k (case a of None \<Rightarrow> 0 | Some x \<Rightarrow> x) m'"
      using RMQUEUE_answered [OF Suc.prems(1) assms(2)] .
    ultimately show ?case using gfp_repeat.simps [of r p k dma res m] r by (auto split: option.splits)
  qed
qed

lemma leased_cong:
  assumes "nxt m1 = nxt m" "prv m1 = prv m" "bitmap m1 = bitmap m" "page_nr m1 = page_nr m" "high_memory m1 = high_memory m"
    "nr_free_pages m1 = nr_free_pages m" "page_flags m1 = page_flags m" "page_count m1 = page_count m" "page_user m1 = page_user m"
  shows "leased m1 F H = leased m F H"
proof -
  have "pool m1 F = pool m F" by (rule pool_cong) (fact assms)+
  then show ?thesis using assms
    by (simp add: leased_def reclaimable_def owned_def in_use_def PageReserved_def PageDMA_def limit_def)
qed

text \<open>An atomic request never reclaims, and so takes its block from the pages that were free.\<close>

lemma get_free_pages_answered:
  assumes "leased m F H" "p = GFP_ATOMIC \<or> reclaim_ok r"
  shows "\<exists>a m' F'. get_free_pages r intr ra p k dma m = Some (a, m') \<and> answered F' H k a m' \<and> (p = GFP_ATOMIC \<longrightarrow> F' = F)"
proof (cases "k \<le> 5")
  case True
  show ?thesis
  proof (cases "p = GFP_ATOMIC")
    case atomic: True
    obtain a m' where "RMQUEUE k dma k m = Some (a, m')" "answered F H k (case a of None \<Rightarrow> 0 | Some x \<Rightarrow> x) m'"
      using RMQUEUE_answered [OF assms(1) True, of dma] by blast
    then show ?thesis using True atomic by (auto simp: gfp_atomic split: option.splits)
  next
    case False
    obtain p' m1 where g: "gfp_priority intr ra p m = (p', m1)" by (cases "gfp_priority intr ra p m")
    then have "leased m1 F H = leased m F H"
      by (intro leased_cong) (auto simp: gfp_priority_def Let_def split: if_splits)
    then have "leased m1 F H" "reclaim_ok r" using assms False by simp_all
    from gfp_repeat_answered [OF this(1) True this(2)] show ?thesis
      using g True False by (simp add: get_free_pages_def NR_MEM_LISTS_def)
  qed
next
  case False
  then show ?thesis using assms(1) by (auto simp: get_free_pages_def NR_MEM_LISTS_def answered_def)
qed

lemma free_pages_leased:
  assumes "leased m F H" "(k, unat (MAP_NR a)) \<in> set H"
  shows "\<exists>m'. free_pages a k m = Some m' \<and>
    leased m' (F \<union> block k (unat (MAP_NR a))) (remove1 (k, unat (MAP_NR a)) H)"
proof -
  let ?b = "unat (MAP_NR a)"
  have o: "owned m F H" "reclaimable m (F \<union> covered H)" using assms(1) by (simp_all add: leased_def)
  obtain m' where m': "free_pages a k m = Some m'" "owned m' (F \<union> block k ?b) (remove1 (k, ?b) H)" "keeps m m'"
    using free_pages_owned [OF o(1) assms(2)] by blast
  have "block k ?b \<subseteq> covered H" "covered (remove1 (k, ?b) H) \<subseteq> covered H"
    using assms(2) notin_set_remove1 by (force simp: covered_def)+
  then have "reclaimable m' (F \<union> block k ?b \<union> covered (remove1 (k, ?b) H))"
    by (intro reclaimable_cong [OF m'(3) _ o(2)]) auto
  then show ?thesis using m'(1,2) by (auto simp: leased_def)
qed

section \<open>A client of the allocator\<close>

text \<open>
  A caller takes and gives back blocks in any order: \<^verbatim>\<open>Get\<close> asks for a block of an order with some
  priority, \<^verbatim>\<open>Put i\<close> frees the \<^verbatim>\<open>i\<close>-th of the blocks it holds.
\<close>

datatype 'q page_op = Get 'q nat | Put nat

fun page_step ::
  "('q \<Rightarrow> nat \<Rightarrow> 's \<Rightarrow> (u32 \<times> 's) option) \<Rightarrow> (u32 \<Rightarrow> nat \<Rightarrow> 's \<Rightarrow> 's option) \<Rightarrow>
     'q page_op \<Rightarrow> 's \<times> (u32 \<times> nat) list \<Rightarrow> ('s \<times> (u32 \<times> nat) list) option" where
  "page_step get put (Get q k) (s, held) =
     (case get q k s of
        None \<Rightarrow> None
      | Some (a, s') \<Rightarrow> Some (s', if a = 0 then held else (a, k) # held))"
| "page_step get put (Put i) (s, held) =
     (if i < length held
      then map_option (\<lambda>s'. (s', remove1 (held ! i) held)) (put (fst (held ! i)) (snd (held ! i)) s)
      else Some (s, held))"

fun page_run ::
  "('q \<Rightarrow> nat \<Rightarrow> 's \<Rightarrow> (u32 \<times> 's) option) \<Rightarrow> (u32 \<Rightarrow> nat \<Rightarrow> 's \<Rightarrow> 's option) \<Rightarrow>
     'q page_op list \<Rightarrow> 's \<times> (u32 \<times> nat) list \<Rightarrow> ('s \<times> (u32 \<times> nat) list) option" where
  "page_run get put [] c = Some c"
| "page_run get put (op # ops) c =
     (case page_step get put op c of None \<Rightarrow> None | Some c' \<Rightarrow> page_run get put ops c')"

text \<open>All requests of an operation have some property.\<close>

fun asks :: "('q \<Rightarrow> bool) \<Rightarrow> 'q page_op \<Rightarrow> bool" where
  "asks P (Get q k) = P q"
| "asks P (Put i) = True"

definition block_of :: "u32 \<times> nat \<Rightarrow> nat \<times> nat" where
  "block_of = (\<lambda>(a, k). (k, unat (MAP_NR a)))"

lemma remove1_map: "distinct (map f xs) \<Longrightarrow> x \<in> set xs \<Longrightarrow> remove1 (f x) (map f xs) = map f (remove1 x xs)"
  by (induction xs) (auto, metis image_eqI)

lemma covered_remove1:
  assumes "(k, b) \<in> set H"
  shows "covered H = block k b \<union> covered (remove1 (k, b) H)"
proof (rule set_eqI)
  fix x
  show "x \<in> covered H \<longleftrightarrow> x \<in> block k b \<union> covered (remove1 (k, b) H)"
  proof
    assume "x \<in> covered H"
    then obtain j c where "(j, c) \<in> set H" "x \<in> block j c" by (auto simp: covered_def)
    then show "x \<in> block k b \<union> covered (remove1 (k, b) H)"
      by (cases "(j, c) = (k, b)") (force simp: covered_def in_set_remove1)+
  next
    assume "x \<in> block k b \<union> covered (remove1 (k, b) H)"
    then show "x \<in> covered H" using assms notin_set_remove1 by (force simp: covered_def)
  qed
qed

text \<open>
  The contract of the allocator: requests \<^verbatim>\<open>ok\<close> are answered, and among them the \<^verbatim>\<open>calm\<close> ones are served from the pages that are free.
\<close>

locale page_service =
  fixes inv :: "'s \<Rightarrow> nat set \<Rightarrow> (nat \<times> nat) list \<Rightarrow> bool"
    and ok :: "'q \<Rightarrow> bool"
    and calm :: "'q \<Rightarrow> bool"
    and get :: "'q \<Rightarrow> nat \<Rightarrow> 's \<Rightarrow> (u32 \<times> 's) option"
    and put :: "u32 \<Rightarrow> nat \<Rightarrow> 's \<Rightarrow> 's option"
  assumes get_law: "inv s F H \<Longrightarrow> ok q \<Longrightarrow> \<exists>a s' F'. get q k s = Some (a, s') \<and> (calm q \<longrightarrow> F' = F) \<and>
        (if a = 0 then inv s' F' H
         else ADDRESS (MAP_NR a) = a \<and> block k (unat (MAP_NR a)) \<subseteq> F' \<and> inv s' (F' - block k (unat (MAP_NR a))) ((k, unat (MAP_NR a)) # H))"
    and put_law: "inv s F H \<Longrightarrow> (k, unat (MAP_NR a)) \<in> set H \<Longrightarrow>
        \<exists>s'. put a k s = Some s' \<and> inv s' (F \<union> block k (unat (MAP_NR a))) (remove1 (k, unat (MAP_NR a)) H)"
    and exclusive: "inv s F H \<Longrightarrow> apart H \<and> covered H \<inter> F = {}"
begin

lemma step_ok:
  assumes "inv s F (map block_of held)" "asks ok op"
  shows "\<exists>s' held' F'. page_step get put op (s, held) = Some (s', held') \<and> inv s' F' (map block_of held') \<and>
    (asks calm op \<longrightarrow> F' \<union> covered (map block_of held') = F \<union> covered (map block_of held))"
proof (cases op)
  case (Get q k)
  have q: "ok q" using assms(2) Get by simp
  obtain a s' F' where g: "get q k s = Some (a, s')" "calm q \<longrightarrow> F' = F"
    "if a = 0 then inv s' F' (map block_of held)
     else ADDRESS (MAP_NR a) = a \<and> block k (unat (MAP_NR a)) \<subseteq> F' \<and>
       inv s' (F' - block k (unat (MAP_NR a))) ((k, unat (MAP_NR a)) # map block_of held)"
    using get_law [OF assms(1) q, of k] by (elim exE conjE)
  show ?thesis
  proof (cases "a = 0")
    case True
    then show ?thesis using g Get by auto
  next
    case False
    then have "page_step get put op (s, held) = Some (s', (a, k) # held)" using g(1) Get by simp
    moreover have "inv s' (F' - block k (unat (MAP_NR a))) (map block_of ((a, k) # held))"
      using g(3) False by (simp add: block_of_def)
    moreover have "(F' - block k (unat (MAP_NR a))) \<union> covered (map block_of ((a, k) # held)) = F' \<union> covered (map block_of held)"
      using g(3) False by (auto simp: block_of_def)
    ultimately show ?thesis using g(2) Get by fastforce
  qed
next
  case (Put i)
  show ?thesis
  proof (cases "i < length held")
    case True
    obtain a k where h: "held ! i = (a, k)" by (cases "held ! i")
    then have m: "(a, k) \<in> set held" using True by (metis nth_mem)
    then have mb: "(k, unat (MAP_NR a)) \<in> set (map block_of held)" by (force simp: block_of_def)
    obtain s' where s': "put a k s = Some s'"
      "inv s' (F \<union> block k (unat (MAP_NR a))) (remove1 (k, unat (MAP_NR a)) (map block_of held))"
      using put_law [OF assms(1) mb] by blast
    have r: "remove1 (k, unat (MAP_NR a)) (map block_of held) = map block_of (remove1 (a, k) held)"
      using remove1_map [of block_of held "(a, k)"] m apart_distinct exclusive [OF assms(1)] by (simp add: block_of_def)
    have "page_step get put op (s, held) = Some (s', remove1 (a, k) held)" using s'(1) True h Put by simp
    moreover have "(F \<union> block k (unat (MAP_NR a))) \<union> covered (map block_of (remove1 (a, k) held)) = F \<union> covered (map block_of held)"
      using covered_remove1 [OF mb] unfolding r by auto
    ultimately show ?thesis using s'(2) unfolding r by blast
  next
    case False
    then show ?thesis using assms Put by auto
  qed
qed

lemma run_ok:
  assumes "inv s F (map block_of held)" "\<forall>op\<in>set ops. asks ok op"
  shows "\<exists>s' held' F'. page_run get put ops (s, held) = Some (s', held') \<and> inv s' F' (map block_of held') \<and>
    ((\<forall>op\<in>set ops. asks calm op) \<longrightarrow> F' \<union> covered (map block_of held') = F \<union> covered (map block_of held))"
  using assms
proof (induction ops arbitrary: s F held)
  case (Cons op ops)
  have ok: "asks ok op" "\<forall>op\<in>set ops. asks ok op" using Cons.prems(2) by simp_all
  obtain s1 held1 F1 where 1: "page_step get put op (s, held) = Some (s1, held1)"
    "inv s1 F1 (map block_of held1)"
    "asks calm op \<longrightarrow> F1 \<union> covered (map block_of held1) = F \<union> covered (map block_of held)"
    using step_ok [OF Cons.prems(1) ok(1)] by blast
  obtain s2 held2 F2 where 2: "page_run get put ops (s1, held1) = Some (s2, held2)"
    "inv s2 F2 (map block_of held2)"
    "(\<forall>op\<in>set ops. asks calm op) \<longrightarrow> F2 \<union> covered (map block_of held2) = F1 \<union> covered (map block_of held1)"
    using Cons.IH [OF 1(2) ok(2)] by blast
  have "page_run get put (op # ops) (s, held) = Some (s2, held2)" using 1(1) 2(1) by simp
  then show ?case using 2(2,3) 1(3) by (intro exI conjI) auto
qed auto

end

text \<open>
  The allocator is such a service. A request is what \<^verbatim>\<open>__get_free_pages\<close> finds when it is called (\<^verbatim>\<open>try_to_free_page\<close>, whether an interrupt is
  served, the return address), the priority and whether the block is for DMA. Atomic requests are calm.
\<close>

type_synonym page_request = "reclaimer \<times> bool \<times> u32 \<times> int \<times> bool"

definition pages_get :: "page_request \<Rightarrow> nat \<Rightarrow> mm \<Rightarrow> (u32 \<times> mm) option" where
  "pages_get = (\<lambda>(r, intr, ra, p, dma) k m. get_free_pages r intr ra p k dma m)"

definition atomic_request :: "page_request \<Rightarrow> bool" where
  "atomic_request = (\<lambda>(r, intr, ra, p, dma). p = GFP_ATOMIC)"

definition fair_request :: "page_request \<Rightarrow> bool" where
  "fair_request = (\<lambda>(r, intr, ra, p, dma). p = GFP_ATOMIC \<or> reclaim_ok r)"

lemma leased_get:
  assumes "leased m F H" "fair_request q"
  shows "\<exists>a m' F'. pages_get q k m = Some (a, m') \<and> (atomic_request q \<longrightarrow> F' = F) \<and>
    (if a = 0 then leased m' F' H
     else ADDRESS (MAP_NR a) = a \<and> block k (unat (MAP_NR a)) \<subseteq> F' \<and> leased m' (F' - block k (unat (MAP_NR a))) ((k, unat (MAP_NR a)) # H))"
proof -
  obtain r intr ra p d where q: "q = (r, intr, ra, p, d)" by (cases q) auto
  have ok: "p = GFP_ATOMIC \<or> reclaim_ok r" using assms(2) by (simp add: fair_request_def q)
  from get_free_pages_answered [OF assms(1) this, of intr ra k d] obtain a m' F'
    where g: "get_free_pages r intr ra p k d m = Some (a, m')" "answered F' H k a m'" "p = GFP_ATOMIC \<longrightarrow> F' = F" by blast
  show ?thesis
    by (intro exI [of _ a] exI [of _ m'] exI [of _ F'] conjI)
      (use g in \<open>simp_all only: pages_get_def atomic_request_def q prod.case answered_def\<close>)
qed

interpretation pages: page_service leased fair_request atomic_request pages_get free_pages
proof unfold_locales
  show "apart H \<and> covered H \<inter> F = {}" if "leased s F H" for s F H
    using that owned_disjoint by (auto simp: leased_def owned_def)
qed (fact leased_get free_pages_leased)+

end
