(* ===== verification/Page_Boot.thy ===== *)
theory Page_Boot
  imports Page_Pool
begin

text \<open>
  The page allocator from boot on: \<^verbatim>\<open>free_area_init\<close> leaves empty queues with cleared bits that are
  large enough for all of memory, \<^verbatim>\<open>mem_init\<close> frees every usable page, and from there on the
  properties of allocation and freeing hold.
\<close>

section \<open>Set up of the free areas\<close>

lemma round_up_le:
  assumes "0 < (d :: nat)"
  shows "x \<le> (x + (d - 1)) div d * d" "(x + (d - 1)) div d * d < x + d"
proof -
  have m: "(x + (d - 1)) div d * d + (x + (d - 1)) mod d = x + (d - 1)" by (rule div_mult_mod_eq)
  have "(x + (d - 1)) mod d < d" using assms by simp
  then show "x \<le> (x + (d - 1)) div d * d" "(x + (d - 1)) div d * d < x + d" using m assms by linarith+
qed

lemma unat_plus_small: "unat (a :: u32) + unat b < 2 ^ 32 \<Longrightarrow> unat (a + b) = unat a + unat b"
  using unat_add_lem [of a b] by simp

lemma unat_mask32: "n \<le> 32 \<Longrightarrow> unat (mask n :: u32) = 2 ^ n - 1"
proof -
  assume "n \<le> 32"
  then have "unat (mask n :: u32) = mask n" by (intro bit_eqI) (auto simp: bit_simps)
  then show ?thesis by (simp add: mask_eq_exp_minus_1)
qed

lemma unat_LONG_ALIGN: "unat x + 3 < 2 ^ 32 \<Longrightarrow> unat x \<le> unat (LONG_ALIGN x)"
proof -
  assume s: "unat x + 3 < 2 ^ 32"
  have "NOT (4 - 1) = NOT (mask 2 :: u32)" "x + 4 - 1 = x + 3"
    by (simp_all add: mask_numeral)
  then have "unat (LONG_ALIGN x) = unat (x + 3) div 2 ^ 2 * 2 ^ 2"
    unfolding LONG_ALIGN_def using unat_and_not_mask by metis
  moreover have "unat (x + 3) = unat x + 3" using s by (subst unat_plus_small) simp_all
  ultimately show ?thesis using round_up_le(1) [of 4 "unat x"] by simp
qed

text \<open>The map of order \<^verbatim>\<open>i\<close>, sized for a memory end rounded up to a pair of blocks, has a bit for every pair.\<close>

definition map_bytes :: "nat \<Rightarrow> u32 \<Rightarrow> u32" where
  "map_bytes i end_mem = LONG_ALIGN (drop_bit 3 (drop_bit (12 + i) end_mem + 7))"

lemma map_bytes_enough:
  assumes "unat e = q * 2 ^ (13 + i)" "i < 6"
  shows "q \<le> 8 * unat (map_bytes i e)"
proof -
  have "unat (drop_bit (12 + i) e) = q * 2 ^ (13 + i) div 2 ^ (12 + i)" by (simp only: unat_drop_div assms(1))
  also have "q * 2 ^ (13 + i) div 2 ^ (12 + i) = 2 * q"
  proof -
    have "13 + i = Suc (12 + i)" by simp
    then have "q * 2 ^ (13 + i) = (2 * q) * 2 ^ (12 + i)" by (simp only: power_Suc mult.assoc mult.left_commute)
    then show ?thesis by (metis nonzero_mult_div_cancel_right power_not_zero zero_neq_numeral)
  qed
  finally have d: "unat (drop_bit (12 + i) e) = 2 * q" .
  have "unat (drop_bit (12 + i) e) < 2 ^ 20"
  proof -
    have "unat e div 2 ^ (12 + i) \<le> unat e div 2 ^ 12" by (rule div_le_mono2) (simp_all add: power_add)
    also have "\<dots> < 2 ^ 20" using unat_u32_less [of e] by (intro less_mult_imp_div_less) simp
    finally show ?thesis by (simp only: unat_drop_div)
  qed
  then have small: "2 * q < 2 ^ 20" using d by simp
  have s7: "unat (drop_bit (12 + i) e + 7) = 2 * q + 7"
    using small d by (subst unat_plus_small) simp_all
  let ?x = "drop_bit 3 (drop_bit (12 + i) e + 7)"
  have x: "unat ?x = (2 * q + 7) div 8" by (simp add: unat_drop_div s7)
  have "unat ?x \<le> unat (map_bytes i e)"
    unfolding map_bytes_def using small x by (intro unat_LONG_ALIGN) simp
  then show ?thesis using x by linarith
qed

text \<open>One turn of the loop over the orders, and the whole loop.\<close>

definition cleared :: "nat \<Rightarrow> nat \<Rightarrow> mm \<Rightarrow> bool" where
  "cleared n i m = (queue m i [] \<and> (\<forall>b<n. \<not> bitmap m i (b div 2 ^ (i + 1))))"

lemma init_areas_cleared:
  assumes "i \<le> 6" "msk = - (2 ^ (12 + i))" "unat e + 2 ^ 20 \<le> 2 ^ 32 + 2 ^ (13 + i)" "4096 * n \<le> unat e"
    and "\<And>j. j < i \<Longrightarrow> cleared n j m"
  shows "(\<forall>j<6. cleared n j (snd (init_areas [i..<6] msk e s m))) \<and>
    keeps m (snd (init_areas [i..<6] msk e s m)) \<and>
    nr_free_pages (snd (init_areas [i..<6] msk e s m)) = nr_free_pages m \<and>
    page_count (snd (init_areas [i..<6] msk e s m)) = page_count m"
  using assms
proof (induction "6 - i" arbitrary: i msk e s m)
  case 0
  then show ?case by (simp add: keeps_def)
next
  case (Suc d)
  have i: "i < 6" "[i..<6] = i # [i + 1..<6]" using Suc(2) by (simp_all add: upt_conv_Cons)
  let ?n = "13 + i"
  let ?msk = "msk + msk"
  have msk: "?msk = - (2 ^ (12 + (i + 1)))" "?msk = NOT (mask ?n)"
  proof -
    have "(2 :: u32) ^ (12 + (i + 1)) = 2 ^ (12 + i) + 2 ^ (12 + i)"
      by (simp only: add.assoc [symmetric] power_add power_one_right mult_2_right)
    then show "?msk = - (2 ^ (12 + (i + 1)))" using Suc.prems(2) by simp
    then show "?msk = NOT (mask ?n)" by (simp add: minus_exp_eq_not_mask add.commute)
  qed
  let ?e = "(e + NOT ?msk) AND ?msk"
  have p: "(2 :: nat) ^ ?n \<le> 2 ^ 18" using i(1) by (intro power_increasing) simp_all
  have n0: "0 < (2 :: nat) ^ ?n" by simp
  have pn: "(2 :: nat) ^ (13 + (i + 1)) = 2 * 2 ^ ?n"
    by (simp only: add.assoc [symmetric] power_add power_one_right mult_2_right mult_2)
  have room: "unat e + 2 ^ ?n \<le> 2 ^ 32" using Suc.prems(3) p by simp
  have ne: "unat (e + mask ?n) = unat e + (2 ^ ?n - 1)"
  proof -
    have u: "unat (mask ?n :: u32) = 2 ^ ?n - 1" using i(1) by (intro unat_mask32) simp
    have "unat e + (2 ^ ?n - 1) < 2 ^ 32" using room n0 by linarith
    then show ?thesis using unat_plus_small [of e "mask ?n"] u by simp
  qed
  have e: "unat ?e = (unat e + (2 ^ ?n - 1)) div 2 ^ ?n * 2 ^ ?n"
    unfolding msk(2) by (simp only: bit.double_compl unat_and_not_mask ne)
  have ge: "unat e \<le> unat ?e" "unat ?e < unat e + 2 ^ ?n"
    unfolding e using round_up_le [OF n0] by blast+
  let ?m = "(init_mem_queue i m)\<lparr>map_addr := (map_addr (init_mem_queue i m))(i := s),
     bitmap := (bitmap (init_mem_queue i m))(i := (\<lambda>nr. nr \<ge> 8 * unat (map_bytes i ?e) \<and> bitmap (init_mem_queue i m) i nr))\<rparr>"
  have run: "init_areas [i..<6] msk e s m = init_areas [i + 1..<6] ?msk ?e (s + map_bytes i ?e) ?m"
    unfolding i(2) by (simp add: Let_def map_bytes_def)
  obtain q where q: "unat ?e = q * 2 ^ ?n" using e by blast
  have bits: "b div 2 ^ (i + 1) < 8 * unat (map_bytes i ?e)" if "b < n" for b
  proof -
    have "4096 * b < q * 2 ^ ?n" using that Suc.prems(4) ge(1) q by linarith
    also have "q * 2 ^ ?n = 4096 * (q * 2 ^ (i + 1))" by (simp add: power_add)
    finally have "b < q * 2 ^ (i + 1)" by simp
    then have "b div 2 ^ (i + 1) < q" by (rule less_mult_imp_div_less)
    then show ?thesis using map_bytes_enough [OF q i(1)] by linarith
  qed
  have new: "cleared n i ?m"
  proof -
    have "\<not> bitmap ?m i (b div 2 ^ (i + 1))" if "b < n" for b
      using bits [OF that] by (simp add: not_le)
    moreover have "queue ?m i []" by (simp add: queue_def init_mem_queue_def)
    ultimately show ?thesis unfolding cleared_def by blast
  qed
  have old: "cleared n j ?m" if "j < i" for j
    using Suc.prems(5) [OF that] that by (auto simp: cleared_def queue_def init_mem_queue_def)
  have "cleared n j ?m" if "j < i + 1" for j using new old that by (cases "j = i") auto
  then have "(\<forall>j<6. cleared n j (snd (init_areas [i + 1..<6] ?msk ?e (s + map_bytes i ?e) ?m))) \<and>
    keeps ?m (snd (init_areas [i + 1..<6] ?msk ?e (s + map_bytes i ?e) ?m)) \<and>
    nr_free_pages (snd (init_areas [i + 1..<6] ?msk ?e (s + map_bytes i ?e) ?m)) = nr_free_pages ?m \<and>
    page_count (snd (init_areas [i + 1..<6] ?msk ?e (s + map_bytes i ?e) ?m)) = page_count ?m"
  proof -
    assume c: "\<And>j. j < i + 1 \<Longrightarrow> cleared n j ?m"
    have h: "d = 6 - (i + 1)" "i + 1 \<le> 6" using Suc(2) by linarith+
    have "unat ?e + 2 ^ 20 \<le> 2 ^ 32 + 2 ^ (13 + (i + 1))" using Suc.prems(3) ge(2) unfolding pn by linarith
    moreover have "4096 * n \<le> unat ?e" using Suc.prems(4) ge(1) by linarith
    ultimately show ?thesis using c by (intro Suc.hyps(1) [OF h msk(1)])
  qed
  moreover have "keeps m ?m" "nr_free_pages ?m = nr_free_pages m" "page_count ?m = page_count m"
    by (simp_all add: keeps_def init_mem_queue_def)
  ultimately show ?case unfolding run by (simp add: keeps_def)
qed

text \<open>After \<^verbatim>\<open>free_area_init\<close>: nothing is free, all of memory is reserved, fit for DMA and numbered.\<close>

definition set_up :: "nat \<Rightarrow> mm \<Rightarrow> bool" where
  "set_up n m =
     ((\<forall>k<6. cleared n k m) \<and> (\<forall>p<n. page_nr m p = of_nat p) \<and>
      (\<forall>p<n. PageReserved p m \<and> PageDMA p m))"

lemma free_area_init_set_up:
  assumes "unat end_mem + 2 ^ 20 \<le> 2 ^ 32" "free_area_init start_mem end_mem m = (s, m')"
  shows "set_up (unat (MAP_NR end_mem)) m' \<and> nr_free_pages m' = nr_free_pages m \<and>
    (\<forall>p<unat (MAP_NR end_mem). page_user m' p = 0) \<and> (\<forall>p. page_user m p = 0 \<longrightarrow> page_user m' p = 0)"
proof -
  let ?n = "unat (MAP_NR end_mem)"
  obtain m2 s2 where m2: "m' = snd (init_areas [0..<6] PAGE_MASK end_mem s2 (init_mem_map ?n m2))"
    "nr_free_pages m2 = nr_free_pages m" "page_user m2 = page_user m"
  proof
    show "m' = snd (init_areas [0..<6] PAGE_MASK end_mem (LONG_ALIGN (fst (init_swap_cache start_mem end_mem
       (let i = int (unat (drop_bit (12 + 7) (end_mem - 0))); i = (if i < 24 then 24 else i); i = i + 24 in
        m\<lparr>min_free_pages := i, free_pages_low := i + i div 2, free_pages_high := i + i\<rparr>)) + MAP_NR end_mem * sizeof_page))
      (init_mem_map ?n (snd (init_swap_cache start_mem end_mem
       (let i = int (unat (drop_bit (12 + 7) (end_mem - 0))); i = (if i < 24 then 24 else i); i = i + 24 in
        m\<lparr>min_free_pages := i, free_pages_low := i + i div 2, free_pages_high := i + i\<rparr>)))))"
      using assms(2) unfolding free_area_init_def NR_MEM_LISTS_def Let_def split_def by (metis snd_conv)
  qed (simp_all add: init_swap_cache_def Let_def)
  have "PAGE_MASK = - (2 ^ (12 + 0))" by (simp add: PAGE_MASK_def PAGE_SIZE_def)
  moreover have "4096 * ?n \<le> unat end_mem" by (simp add: MAP_NR_def unat_drop_div)
  ultimately have a: "\<forall>j<6. cleared ?n j m'" "keeps (init_mem_map ?n m2) m'"
    "nr_free_pages m' = nr_free_pages (init_mem_map ?n m2)"
    unfolding m2(1) using init_areas_cleared [of 0 PAGE_MASK end_mem ?n "init_mem_map ?n m2" s2] assms(1) by simp_all
  have "page_nr m' p = of_nat p" "bit (page_flags m' p) 31" "bit (page_flags m' p) 7" if "p < ?n" for p
    using a(2) that by (simp_all add: keeps_def init_mem_map_def bit_simps)
  moreover have "page_user m' = (\<lambda>p. if p < ?n then 0 else page_user m p)"
    using a(2) unfolding m2(3) [symmetric] by (simp add: keeps_def init_mem_map_def)
  ultimately show ?thesis
    using a m2(2) by (simp add: set_up_def PageReserved_def PageDMA_def init_mem_map_def)
qed

section \<open>Freeing all of memory\<close>

lemma owned_nil_cong:
  assumes "nxt m' = nxt m" "prv m' = prv m" "bitmap m' = bitmap m" "page_nr m' = page_nr m"
    "high_memory m' = high_memory m" "nr_free_pages m' = nr_free_pages m"
    "\<And>p. p \<in> F \<Longrightarrow> page_flags m' p = page_flags m p"
  shows "owned m' F [] = owned m F []"
  using areas_cong [OF assms(1-5)] assms(5-)
  by (simp add: owned_def pool_def limit_def PageDMA_def PageReserved_def cong: ball_cong_simp)

lemma set_up_owned:
  assumes "set_up n m" "limit m = n" "nr_free_pages m = 0"
  shows "owned m {} []"
proof -
  have "n < 2 ^ 20"
  proof -
    have "unat (high_memory m) div 2 ^ 12 < 2 ^ 20"
      using unat_u32_less [of "high_memory m"] by (intro less_mult_imp_div_less) simp
    then show ?thesis using assms(2) by (simp add: limit_def MAP_NR_def unat_drop_div)
  qed
  moreover have "areas m (\<lambda>_. [])"
    using assms(1,2) unfolding areas_def links_def blocks_ok_def bits_ok_def set_up_def cleared_def by simp
  moreover have "free_set (\<lambda>_. []) = {}" by (simp add: free_set_def)
  ultimately show ?thesis using assms(2,3) unfolding owned_def pool_def by auto
qed

lemma unat_ADDRESS:
  assumes "unat w < 2 ^ 20"
  shows "unat (ADDRESS w) = unat w * 4096"
proof -
  have "unat w * 4096 < 2 ^ 32" using assms by simp
  then have "unat (w * 4096) = unat w * 4096" using unat_mult_lem [of w 4096] by simp
  then show ?thesis by (simp add: ADDRESS_def push_bit_eq_mult)
qed

definition in_initrd :: "u32 \<times> u32 \<Rightarrow> nat \<Rightarrow> bool" where
  "in_initrd initrd p =
     (\<not> (fst initrd = 0 \<or> ADDRESS (of_nat p) < fst initrd \<or> snd initrd \<le> ADDRESS (of_nat p)))"

lemma clear_page_flag_simps [simp]:
  "nxt (clear_page_flag n p m) = nxt m" "prv (clear_page_flag n p m) = prv m" "bitmap (clear_page_flag n p m) = bitmap m"
  "page_nr (clear_page_flag n p m) = page_nr m" "high_memory (clear_page_flag n p m) = high_memory m"
  "nr_free_pages (clear_page_flag n p m) = nr_free_pages m" "page_count (clear_page_flag n p m) = page_count m"
  "page_user (clear_page_flag n p m) = page_user m"
  "q \<noteq> p \<Longrightarrow> page_flags (clear_page_flag n p m) q = page_flags m q"
  by (simp_all add: clear_page_flag_def)

lemma clear_page_flag_bit:
  "i < 32 \<Longrightarrow> n < 32 \<Longrightarrow> bit (page_flags (clear_page_flag n p m) q) i = (bit (page_flags m q) i \<and> \<not> (q = p \<and> i = n))"
  by (auto simp: clear_page_flag_def bit_simps)

lemma mem_init_free:
  assumes "owned m F []" "0 < p" "p < limit m" "p \<notin> F" "\<not> PageReserved p m" "PageDMA p m = (p < 4096)"
  shows "\<exists>m'. free_pages (ADDRESS (of_nat p)) 0 (m\<lparr>page_count := (page_count m)(p := 1)\<rparr>) = Some m' \<and>
    owned m' (insert p F) [] \<and> keeps m m'"
proof -
  let ?m = "m\<lparr>page_count := (page_count m)(p := 1)\<rparr>" and ?w = "of_nat p :: u32"
  have "limit m \<le> 2 ^ 20" using assms(1) by (simp add: owned_def pool_def)
  then have p: "p < 2 ^ 20" using assms(3) by linarith
  then have u: "unat ?w = p" by (intro unat_of_nat_small) simp
  have w: "unat (MAP_NR (ADDRESS ?w)) = p" using MAP_NR_ADDRESS [of ?w] p u by simp
  have "owned ?m F []" using assms(1) owned_nil_cong [of ?m m F] by simp
  moreover have "in_use ?m F (0, p)"
    using assms by (auto simp: in_use_def block_def limit_def PageReserved_def PageDMA_def)
  ultimately have "owned ?m F [(0, p)]" by (simp add: owned_def)
  from free_pages_owned [OF this, of 0 "ADDRESS ?w"] show ?thesis
    unfolding w by (auto simp: block_def keeps_def atLeastLessThanSuc)
qed

lemma mem_init_loop_owned:
  assumes "owned m F []" "limit m = n" "p \<le> n" "F \<subseteq> {..<p}" "\<And>q. p \<le> q \<Longrightarrow> q < n \<Longrightarrow> PageDMA q m"
    "PageReserved 0 m"
  shows "\<exists>c' m'. mem_init_loop etext initrd [p..<n] c m = Some (c', m') \<and> limit m' = n \<and> page_user m' = page_user m \<and>
    owned m' (F \<union> {q. p \<le> q \<and> q < n \<and> \<not> PageReserved q m \<and> \<not> in_initrd initrd q}) []"
  using assms
proof (induction "n - p" arbitrary: p m F c)
  case 0
  then have e: "{q. p \<le> q \<and> q < n \<and> \<not> PageReserved q m \<and> \<not> in_initrd initrd q} = {}" by auto
  show ?case unfolding e using 0 by simp
next
  case (Suc d)
  have p: "p < n" "[p..<n] = p # [p + 1..<n]" "d = n - (p + 1)" "p + 1 \<le> n"
    using Suc(2) by (simp_all add: upt_conv_Cons)
  have lim: "n \<le> 2 ^ 20" using Suc.prems(1,2) by (simp add: owned_def pool_def)
  let ?tmp = "ADDRESS (of_nat p)"
  have u: "unat (of_nat p :: u32) = p" using p(1) lim by (intro unat_of_nat_small) simp
  have dma: "MAX_DMA_ADDRESS \<le> ?tmp \<longleftrightarrow> 4096 \<le> p"
    using unat_ADDRESS [of "of_nat p"] u p(1) lim by (auto simp: word_le_nat_alt MAX_DMA_ADDRESS_def)
  let ?m1 = "if 4096 \<le> p then clear_page_flag 7 p m else m"
  have res: "PageReserved q ?m1 = PageReserved q m" for q by (simp add: PageReserved_def clear_page_flag_bit)
  have pd: "PageDMA p ?m1 = (p < 4096)" "\<And>q. q \<noteq> p \<Longrightarrow> PageDMA q ?m1 = PageDMA q m"
    using Suc.prems(5) [of p] p(1) by (auto simp: PageDMA_def clear_page_flag_bit)
  have pF: "p \<notin> F" using Suc.prems(4) by auto
  have o1: "owned ?m1 F []"
  proof -
    have "page_flags (clear_page_flag 7 p m) q = page_flags m q" if "q \<in> F" for q
      using that pF by (intro clear_page_flag_simps(9)) blast
    then have "owned (clear_page_flag 7 p m) F [] = owned m F []" by (intro owned_nil_cong) simp_all
    then show ?thesis using Suc.prems(1) by simp
  qed
  have l1: "limit ?m1 = n" using Suc.prems(2) by (simp add: limit_def)
  let ?G = "\<lambda>p m. {q. p \<le> q \<and> q < n \<and> \<not> PageReserved q m \<and> \<not> in_initrd initrd q}"
  have later: "\<exists>c' m'. mem_init_loop etext initrd [p + 1..<n] c1 m2 = Some (c', m') \<and> limit m' = n \<and> page_user m' = page_user m \<and>
      owned m' (F' \<union> ?G (p + 1) m) []"
    if "owned m2 F' []" "limit m2 = n" "F' \<subseteq> {..<p + 1}" "page_flags m2 = page_flags ?m1" "page_user m2 = page_user m" for c1 m2 F'
  proof -
    have f: "PageReserved q m2 = PageReserved q m" "q \<noteq> p \<Longrightarrow> PageDMA q m2 = PageDMA q m" for q
      using res [of q] pd(2) [of q] that(4) by (simp_all add: PageReserved_def PageDMA_def)
    show ?thesis
      using Suc.hyps(1) [OF p(3) that(1,2) p(4) that(3), of c1] Suc.prems(5,6) that(5) by (auto simp: f)
  qed
  show ?case
  proof (cases "PageReserved p m")
    case True
    then have g: "?G p m = ?G (p + 1) m" by (auto simp: Suc_le_eq le_less)
    let ?c = "if 0xA0000 \<le> ?tmp \<and> ?tmp < 0x100000 then c\<lparr>reservedpages := reservedpages c + 1\<rparr>
       else if ?tmp < etext then c\<lparr>codepages := codepages c + 1\<rparr> else c\<lparr>datapages := datapages c + 1\<rparr>"
    have "\<exists>c' m'. mem_init_loop etext initrd [p + 1..<n] ?c ?m1 = Some (c', m') \<and> limit m' = n \<and> page_user m' = page_user m \<and>
        owned m' (F \<union> ?G (p + 1) m) []"
      using Suc.prems(4) by (intro later [OF o1 l1]) auto
    moreover have "mem_init_loop etext initrd [p..<n] c m = mem_init_loop etext initrd [p + 1..<n] ?c ?m1"
      unfolding p(2) using True res dma by (simp add: Let_def)
    ultimately show ?thesis unfolding g by simp
  next
    case False
    then have pos: "0 < p" using Suc.prems(6) by (metis gr0I)
    let ?m2 = "?m1\<lparr>page_count := (page_count ?m1)(p := 1)\<rparr>"
    show ?thesis
    proof (cases "in_initrd initrd p")
      case True
      then have g: "?G p m = ?G (p + 1) m" by (auto simp: Suc_le_eq le_less)
      have "owned ?m2 F []" using o1 owned_nil_cong [of ?m2 ?m1 F] by simp
      moreover have "limit ?m2 = n" using l1 by (simp add: limit_def)
      ultimately have "\<exists>c' m'. mem_init_loop etext initrd [p + 1..<n] c ?m2 = Some (c', m') \<and> limit m' = n \<and> page_user m' = page_user m \<and>
          owned m' (F \<union> ?G (p + 1) m) []"
        using Suc.prems(4) by (intro later) auto
      moreover have "mem_init_loop etext initrd [p..<n] c m = mem_init_loop etext initrd [p + 1..<n] c ?m2"
        unfolding p(2) using True False res dma by (simp add: Let_def in_initrd_def)
      ultimately show ?thesis unfolding g by simp
    next
      case no_rd: False
      obtain m3 where m3: "free_pages ?tmp 0 ?m2 = Some m3" "owned m3 (insert p F) []" "keeps ?m1 m3"
        using mem_init_free [OF o1 pos] l1 p(1) pF False res pd(1) by auto
      have "limit m3 = n" "page_flags m3 = page_flags ?m1" "page_user m3 = page_user m" using m3(3) l1 by (simp_all add: keeps_def limit_def)
      then have "\<exists>c' m'. mem_init_loop etext initrd [p + 1..<n] c m3 = Some (c', m') \<and> limit m' = n \<and> page_user m' = page_user m \<and>
          owned m' (insert p F \<union> ?G (p + 1) m) []"
        using Suc.prems(4) m3(2) by (intro later) auto
      moreover have "mem_init_loop etext initrd [p..<n] c m = mem_init_loop etext initrd [p + 1..<n] c m3"
        unfolding p(2) using no_rd False res dma m3(1) by (simp add: Let_def in_initrd_def)
      moreover have "insert p F \<union> ?G (p + 1) m = F \<union> ?G p m"
        using False no_rd p(1) by (auto simp: Suc_le_eq le_less)
      ultimately show ?thesis by simp
    qed
  qed
qed

lemma fold_clear_flag:
  "PageReserved p (fold (clear_page_flag 31) ps m) \<longleftrightarrow> PageReserved p m \<and> p \<notin> set ps"
  "PageDMA p (fold (clear_page_flag 31) ps m) = PageDMA p m"
  by (induction ps arbitrary: m) (auto simp: PageReserved_def PageDMA_def clear_page_flag_bit)

lemma fold_clear_flag_frame:
  "nxt (fold (clear_page_flag n) ps m) = nxt m" "prv (fold (clear_page_flag n) ps m) = prv m"
  "bitmap (fold (clear_page_flag n) ps m) = bitmap m" "page_nr (fold (clear_page_flag n) ps m) = page_nr m"
  "high_memory (fold (clear_page_flag n) ps m) = high_memory m"
  "nr_free_pages (fold (clear_page_flag n) ps m) = nr_free_pages m"
  "page_user (fold (clear_page_flag n) ps m) = page_user m"
  by (induction ps arbitrary: m) simp_all

lemma MAP_NR_page_mask: "MAP_NR (w AND PAGE_MASK) = MAP_NR w"
proof -
  have m: "PAGE_MASK = NOT (mask 12)" by (simp add: PAGE_MASK_def PAGE_SIZE_def mask_numeral)
  show ?thesis unfolding MAP_NR_def m by (intro bit_word_eqI) (auto simp: bit_simps dest: bit_imp_le_length)
qed

text \<open>The pages that \<^verbatim>\<open>mem_init\<close> hands to the allocator.\<close>

definition usable :: "u32 \<times> u32 \<Rightarrow> u32 \<Rightarrow> u32 \<Rightarrow> nat set" where
  "usable initrd start_mem end_mem =
     {p. p < unat (MAP_NR end_mem) \<and> (1 \<le> p \<and> p < 0x9f \<or> unat (MAP_NR (PAGE_ALIGN start_mem)) \<le> p) \<and>
         \<not> in_initrd initrd p}"

lemma mem_init_owned:
  assumes "unat end_mem + 2 ^ 20 \<le> 2 ^ 32" "0 < unat (MAP_NR (PAGE_ALIGN start_mem))"
    "0 < unat (MAP_NR end_mem)" "nr_free_pages m = 0"
  shows "\<exists>m'. mem_init etext initrd start_mem end_mem (snd (free_area_init s0 end_mem m)) = Some m' \<and>
    owned m' (usable initrd start_mem end_mem) [] \<and>
    (\<forall>p. p < unat (MAP_NR end_mem) \<or> page_user m p = 0 \<longrightarrow> page_user m' p = 0)"
proof -
  let ?n = "unat (MAP_NR end_mem)" and ?s = "unat (MAP_NR (PAGE_ALIGN start_mem))"
  obtain s1 m1 where fi: "free_area_init s0 end_mem m = (s1, m1)" by (cases "free_area_init s0 end_mem m")
  have su: "set_up ?n m1" "nr_free_pages m1 = 0" "\<forall>p. p < ?n \<or> page_user m p = 0 \<longrightarrow> page_user m1 p = 0"
    using free_area_init_set_up [OF assms(1) fi] assms(4) by simp_all
  let ?m1 = "m1\<lparr>high_memory := end_mem AND PAGE_MASK\<rparr>"
  let ?ps = "[1..<0x9f]" and ?qs = "[?s..<?n]"
  let ?m3 = "fold (clear_page_flag 31) ?qs (fold (clear_page_flag 31) ?ps ?m1)"
  have low: "unat (MAP_NR (PAGE_ALIGN PAGE_SIZE)) = 1" "unat (MAP_NR 0x9f000) = 0x9f"
    by (simp_all add: MAP_NR_def PAGE_ALIGN_def PAGE_SIZE_def PAGE_MASK_def)
  have res: "PageReserved p ?m3 \<longleftrightarrow> PageReserved p m1 \<and> \<not> (1 \<le> p \<and> p < 0x9f) \<and> \<not> (?s \<le> p \<and> p < ?n)" for p
    unfolding fold_clear_flag by (auto simp: PageReserved_def)
  have lim: "limit ?m1 = ?n" by (simp add: limit_def MAP_NR_page_mask)
  have "set_up ?n ?m1" using su(1) by (simp add: set_up_def cleared_def queue_def PageReserved_def PageDMA_def)
  then have "owned ?m1 {} []" using lim su(2) by (intro set_up_owned) simp_all
  then have o: "owned ?m3 {} []"
    using owned_nil_cong [of ?m3 ?m1 "{}"] by (simp add: fold_clear_flag_frame)
  have l3: "limit ?m3 = ?n" using lim unfolding limit_def fold_clear_flag_frame .
  have d: "PageDMA q ?m3" if "q < ?n" for q
    using su(1) that unfolding fold_clear_flag by (simp add: set_up_def PageDMA_def)
  have z: "PageReserved 0 ?m3" unfolding res using su(1) assms(2,3) by (simp add: set_up_def)
  obtain c m4 where r: "mem_init_loop etext initrd [0..<?n] \<lparr>reservedpages = 0, codepages = 0, datapages = 0\<rparr> ?m3 = Some (c, m4)"
    "owned m4 ({} \<union> {q. 0 \<le> q \<and> q < ?n \<and> \<not> PageReserved q ?m3 \<and> \<not> in_initrd initrd q}) []" "page_user m4 = page_user ?m3"
    using mem_init_loop_owned [OF o l3, of 0] d z by blast
  have "{} \<union> {q. 0 \<le> q \<and> q < ?n \<and> \<not> PageReserved q ?m3 \<and> \<not> in_initrd initrd q} = usable initrd start_mem end_mem"
    unfolding res usable_def using su(1) by (auto simp: set_up_def)
  then have o4: "owned m4 (usable initrd start_mem end_mem) []" using r(2) by simp
  let ?msg = "messages m4 @ [(''Memory: %luk/%luk available (%dk kernel code, %dk reserved, %dk data)\<newline>'',
                 [AInt (drop_bit 10 (push_bit 12 (nr_free_pages m4))), AInt (drop_bit 10 (end_mem AND PAGE_MASK)),
                  AInt (push_bit 2 (codepages c)), AInt (push_bit 2 (reservedpages c)),
                  AInt (push_bit 2 (datapages c))])]"
  have "mem_init etext initrd start_mem end_mem m1 = Some (m4\<lparr>messages := ?msg\<rparr>)"
    unfolding mem_init_def Let_def low MAP_NR_page_mask using r(1) by simp
  moreover have "owned (m4\<lparr>messages := ?msg\<rparr>) (usable initrd start_mem end_mem) []"
    using o4 by (subst owned_nil_cong [of _ m4]) simp_all
  moreover have "page_user m4 = page_user m1" using r(3) by (simp add: fold_clear_flag_frame)
  ultimately show ?thesis using fi su(3) by simp
qed

section \<open>The queues\<close>

text \<open>The blocks of a queue, in order, as found by following its pointers.\<close>

fun walk :: "nat \<Rightarrow> mm \<Rightarrow> node \<Rightarrow> nat list" where
  "walk 0 m x = []"
| "walk (Suc n) m x = (case nxt m x of Page p \<Rightarrow> p # walk n m (Page p) | _ \<Rightarrow> [])"

definition area :: "mm \<Rightarrow> nat \<Rightarrow> nat list" where
  "area m k = walk (limit m) m (Area k)"

lemma walk_lseg: "lseg m a (map Page ps) (Area k) \<Longrightarrow> length ps \<le> n \<Longrightarrow> walk n m a = ps"
proof (induction ps arbitrary: a n)
  case Nil
  then show ?case by (cases n) simp_all
next
  case (Cons p ps)
  then obtain n' where "n = Suc n'" by (cases n) simp_all
  then show ?case using Cons by simp
qed

lemma area_areas:
  assumes "areas m L" "k < 6"
  shows "area m k = L k"
proof -
  have l: "lseg m (Area k) (map Page (L k)) (Area k)" "distinct (L k)" "blocks_ok (limit m) L"
    using assms by (simp_all add: areas_def links_def queue_def)
  have "set (L k) \<subseteq> {..<limit m}"
  proof
    fix b assume "b \<in> set (L k)"
    then have "b + 2 ^ k \<le> limit m" using blocks_okD(3) [OF l(3) assms(2)] by blast
    moreover have "0 < (2 :: nat) ^ k" by simp
    ultimately show "b \<in> {..<limit m}" unfolding lessThan_iff by linarith
  qed
  then have "card (set (L k)) \<le> limit m" using card_mono [of "{..<limit m}"] by fastforce
  then have "length (L k) \<le> limit m" using l(2) by (simp add: distinct_card)
  then show ?thesis unfolding area_def using walk_lseg [OF l(1)] by blast
qed

text \<open>
  The blocks of order \<^verbatim>\<open>k\<close> that the free pages \<^verbatim>\<open>F\<close> fall into when they are merged as far as possible.
\<close>

definition maximal_blocks :: "nat set \<Rightarrow> nat \<Rightarrow> nat set" where
  "maximal_blocks F k =
     {b. 2 ^ k dvd b \<and> block k b \<subseteq> F \<and> (k < 5 \<longrightarrow> \<not> block (k + 1) (parent k b) \<subseteq> F)}"

lemma pool_queues:
  assumes "pool m F" "k < 6"
  shows "set (area m k) = maximal_blocks F k" "distinct (area m k)"
proof -
  obtain L where L: "areas m L" "free_set L = F" using assms(1) by (auto simp: pool_def)
  show "set (area m k) = maximal_blocks F k"
    unfolding area_areas [OF L(1) assms(2)] maximal_blocks_def using areas_canonical [OF L(1) assms(2)] L(2) by simp
  show "distinct (area m k)"
    using L(1) assms(2) unfolding area_areas [OF L(1) assms(2)] by (simp add: areas_def links_def)
qed

section \<open>A booted machine\<close>

definition zero_mm :: mm where
  "zero_mm = \<lparr>nxt = (\<lambda>_. Null), prv = (\<lambda>_. Null), bitmap = (\<lambda>_ _. False), page_count = (\<lambda>_. 0),
     page_flags = (\<lambda>_. 0), page_age = (\<lambda>_. 0), page_nr = (\<lambda>_. 0),
     page_user = (\<lambda>_. 0), reclaim_state = [], nr_free_pages = 0, map_addr = (\<lambda>_. 0),
     swap_cache = (\<lambda>_. 0), swap_freed = [], buffer_waiters = False, woken = 0, min_free_pages = 20,
     free_pages_low = 30, free_pages_high = 40, page_initial_age = 3, high_memory = 0, gfp_count = 0,
     messages = []\<rparr>"

text \<open>8 MB of memory, with the kernel in the second megabyte.\<close>

definition boot_mm :: mm where
  "boot_mm = the (mem_init 0x150000 (0, 0) 0x200000 0x800000 (snd (free_area_init 0x150000 0x800000 zero_mm)))"

definition boot_pages :: "nat set" where
  "boot_pages = {1..<0x9f} \<union> {0x200..<0x800}"

lemma boot_usable: "usable (0, 0) 0x200000 0x800000 = boot_pages"
proof -
  have "unat (MAP_NR 0x800000) = 0x800" "unat (MAP_NR (PAGE_ALIGN 0x200000)) = 0x200"
    by (simp_all add: MAP_NR_def PAGE_ALIGN_def PAGE_SIZE_def PAGE_MASK_def)
  then show ?thesis by (auto simp: usable_def in_initrd_def boot_pages_def)
qed

lemma boot_leased: "leased boot_mm boot_pages []"
proof -
  have "\<exists>m'. mem_init 0x150000 (0, 0) 0x200000 0x800000 (snd (free_area_init 0x150000 0x800000 zero_mm)) = Some m' \<and>
    owned m' (usable (0, 0) 0x200000 0x800000) [] \<and>
    (\<forall>p. p < unat (MAP_NR 0x800000) \<or> page_user zero_mm p = 0 \<longrightarrow> page_user m' p = 0)"
    by (rule mem_init_owned)
      (simp_all add: MAP_NR_def PAGE_ALIGN_def PAGE_SIZE_def PAGE_MASK_def zero_mm_def)
  then show ?thesis unfolding boot_usable by (auto simp: boot_mm_def leased_def reclaimable_def zero_mm_def)
qed

lemma boot_owned: "owned boot_mm boot_pages []"
  using boot_leased by (simp add: leased_def)

lemma boot_pool: "pool boot_mm boot_pages"
  using boot_owned by (simp add: owned_def)

text \<open>A machine of four pages: none is free, the last three are in use, and the first of these by the page cache.\<close>

definition tight_mm :: mm where
  "tight_mm = zero_mm\<lparr>nxt := id, prv := id, page_count := (\<lambda>_. 1), page_flags := (\<lambda>_. 0x80), page_nr := of_nat,
     page_user := (\<lambda>_. 0)(1 := 1), min_free_pages := 0, high_memory := 0x4000\<rparr>"

lemma tight_limit: "limit tight_mm = 4"
  by (simp add: limit_def MAP_NR_def tight_mm_def)

lemma tight_leased: "leased tight_mm {} [(1, 2)]" "leased tight_mm {} []"
proof -
  have "areas tight_mm (\<lambda>_. [])"
    unfolding areas_def links_def blocks_ok_def bits_ok_def by (simp add: tight_mm_def zero_mm_def queue_def)
  moreover have "free_set (\<lambda>_. []) = {}" by (simp add: free_set_def)
  ultimately have "owned tight_mm {} [(1, 2)]" "owned tight_mm {} []"
    unfolding owned_def pool_def in_use_def
    by (auto simp: tight_limit, auto simp: tight_mm_def zero_mm_def block_def PageReserved_def PageDMA_def)
  then show "leased tight_mm {} [(1, 2)]" "leased tight_mm {} []"
    unfolding leased_def reclaimable_def tight_limit by (simp_all add: tight_mm_def block_def PageDMA_def)
qed

text \<open>A reclaimer that gives up one page of the page cache if nothing else uses it, as \<^verbatim>\<open>shrink_mmap\<close> does.\<close>

definition drop_page :: "nat \<Rightarrow> reclaimer" where
  "drop_page b priority dma m =
     (if page_user m b \<noteq> 0 \<and> page_count m b = 1 \<and> \<not> PageReserved b m \<and> (dma \<longrightarrow> PageDMA b m)
      then case free_pages (ADDRESS (of_nat b)) 0 m of
          None \<Rightarrow> (False, m)
        | Some m' \<Rightarrow> (True, m'\<lparr>page_user := (page_user m')(b := 0)\<rparr>)
      else (False, m))"

lemma drop_page_frees:
  assumes "leased m F H" "page_user m b \<noteq> 0" "page_count m b = 1" "\<not> PageReserved b m" "dma \<longrightarrow> PageDMA b m"
  shows "\<exists>m'. drop_page b p dma m = (True, m') \<and> leased m' (insert b F) H"
proof -
  have o: "owned m F H" "0 < b" "b < limit m" "b \<notin> F" "b \<notin> covered H" "PageDMA b m = (b < 4096)"
    and users: "\<And>p. page_user m p \<noteq> 0 \<Longrightarrow> 0 < p \<and> p < limit m \<and> p \<notin> F \<union> covered H \<and> PageDMA p m = (p < 4096)"
    using assms(1,2) by (auto simp: leased_def reclaimable_def)
  have "limit m \<le> 2 ^ 20" using o(1) by (simp add: owned_def pool_def)
  then have lt: "unat (of_nat b :: u32) = b" "b < 2 ^ 20" using o(3) by (simp_all add: unat_of_nat_small)
  then have w: "unat (MAP_NR (ADDRESS (of_nat b))) = b" using MAP_NR_ADDRESS [of "of_nat b"] by simp
  have "in_use m F (0, b)" using assms(3,4) o by (auto simp: in_use_def block_def)
  moreover have "\<forall>(j, c)\<in>set H. block 0 b \<inter> block j c = {}" using o(5) by (auto simp: covered_def block_def)
  ultimately have "owned m F ((0, b) # H)" using o(1) by (simp add: owned_def)
  from free_pages_owned [OF this, of 0 "ADDRESS (of_nat b)"] obtain m' where
    m': "free_pages (ADDRESS (of_nat b)) 0 m = Some m'" "owned m' (insert b F) H" "keeps m m'"
    unfolding w by (auto simp: block_def atLeastLessThanSuc)
  let ?m = "m'\<lparr>page_user := (page_user m')(b := 0)\<rparr>"
  have "pool ?m (insert b F) = pool m' (insert b F)" by (rule pool_cong) simp_all
  then have "owned ?m (insert b F) H"
    using m'(2) by (simp add: owned_def in_use_def PageReserved_def PageDMA_def limit_def)
  moreover have "reclaimable ?m (insert b F \<union> covered H)"
    unfolding reclaimable_def
  proof (intro allI impI)
    fix p assume "page_user ?m p \<noteq> 0"
    then have "page_user m p \<noteq> 0" "p \<noteq> b" using m'(3) by (auto simp: keeps_def split: if_splits)
    then show "0 < p \<and> p < limit ?m \<and> p \<notin> insert b F \<union> covered H \<and> PageDMA p ?m = (p < 4096)"
      using users [of p] keeps_frame [OF m'(3)] by (simp add: limit_def PageDMA_def)
  qed
  ultimately show ?thesis using assms(2-5) m'(1) by (simp add: drop_page_def leased_def)
qed

lemma drop_page_ok: "reclaim_ok (drop_page b)"
proof -
  have "\<exists>F'. leased (snd (drop_page b p d m)) F' H" if "leased m F H" for p d m F H
  proof (cases "page_user m b \<noteq> 0 \<and> page_count m b = 1 \<and> \<not> PageReserved b m \<and> (d \<longrightarrow> PageDMA b m)")
    case True
    then show ?thesis using drop_page_frees [OF that, of b d p] by auto
  next
    case False
    then have "drop_page b p d m = (False, m)" unfolding drop_page_def by (rule if_not_P)
    then show ?thesis using that by auto
  qed
  moreover have "\<exists>n. \<not> fst (drop_page b p d (((\<lambda>m. snd (drop_page b p d m)) ^^ n) m))" for p d m
  proof (cases "fst (drop_page b p d m)")
    case True
    then have "page_user (snd (drop_page b p d m)) b = 0" by (auto simp: drop_page_def split: if_splits option.splits)
    then have "\<not> fst (drop_page b p d (((\<lambda>m. snd (drop_page b p d m)) ^^ 1) m))" by (simp add: drop_page_def)
    then show ?thesis by blast
  next
    case False
    then show ?thesis by (intro exI [of _ 0]) simp
  qed
  ultimately show ?thesis unfolding reclaim_ok_def by blast
qed

text \<open>On the small machine a request with \<^verbatim>\<open>GFP_KERNEL\<close> goes through the loop twice: the page of the page cache is freed and handed out.\<close>

lemma tight_reclaims: "\<exists>m'. get_free_pages (drop_page 1) False 0 GFP_KERNEL 0 False tight_mm = Some (0x1000, m')"
proof -
  obtain m1 where m1: "drop_page 1 GFP_KERNEL False tight_mm = (True, m1)" "leased m1 {1} []"
    using drop_page_frees [OF tight_leased(2), of 1 False GFP_KERNEL]
    by (auto simp: tight_mm_def PageReserved_def)
  have p: "pool m1 {1}" using m1(2) by (simp add: leased_def owned_def)
  have "available {1} 0 False" by (auto simp: available_def block_def atLeastLessThanSuc)
  then obtain w m2 where r: "RMQUEUE 0 False 0 m1 = Some (Some (ADDRESS w), m2)" "granted m1 {1} 0 w m2"
    using RMQUEUE_available [OF p, of 0 False] by auto
  have "unat w = 1" using r(2) by (auto simp: granted_def block_def)
  then have "w = 1" by (simp add: word_unat_eq_iff)
  then have w: "ADDRESS w = 0x1000" by (simp add: ADDRESS_def)
  have n: "nr_free_pages m1 = 1" using p by (simp add: pool_def)
  have k: "GFP_KERNEL \<noteq> GFP_ATOMIC" "GFP_KERNEL \<noteq> GFP_BUFFER" "gfp_reserved GFP_KERNEL tight_mm = 0"
      "nr_free_pages tight_mm = 0"
    by (simp_all add: GFP_KERNEL_def GFP_ATOMIC_def GFP_BUFFER_def GFP_NFS_def gfp_reserved_def tight_mm_def zero_mm_def)
  have "gfp_repeat (drop_page 1) GFP_KERNEL 0 False 0 tight_mm = gfp_repeat (drop_page 1) GFP_KERNEL 0 False 0 m1"
    using k m1(1) by (subst gfp_repeat.simps) simp
  also have "\<dots> = Some (0x1000, m2)" using n r(1) w by (subst gfp_repeat.simps) simp
  finally show ?thesis using k by (simp add: get_free_pages_def gfp_priority_def NR_MEM_LISTS_def)
qed

section \<open>Properties\<close>

text \<open>
  C3: An atomic \<^verbatim>\<open>__get_free_pages\<close> always returns. It hands out a block exactly when an aligned
  block of that size is free anywhere in memory (below 16 MB for DMA): an aligned run of free
  pages, which leaves the set of free pages, with a use count of 1 on its first page. Otherwise
  it returns 0 and changes nothing.
\<close>

theorem get_free_pages_atomic:
  assumes "pool m F" "order < 6"
  shows "\<exists>addr m'. get_free_pages r intr ra GFP_ATOMIC order dma m = Some (addr, m') \<and>
    (if available F order dma
     then let b = unat (MAP_NR addr) in
       addr \<noteq> 0 \<and> addr = ADDRESS (of_nat b) \<and> 2 ^ order dvd b \<and> block order b \<subseteq> F \<and>
       (dma \<longrightarrow> block order b \<subseteq> {..<4096}) \<and>
       pool m' (F - block order b) \<and> page_count m' = (page_count m)(b := 1)
     else addr = 0 \<and> m' = m)"
proof (cases "available F order dma")
  case True
  obtain w m' where r: "RMQUEUE order dma order m = Some (Some (ADDRESS w), m')" "granted m F order w m'"
    "dma \<longrightarrow> block order (unat w) \<subseteq> {..<4096}"
    using RMQUEUE_available [OF assms(1), of order dma] True assms(2) by auto
  note w = granted_page [OF assms(1) r(2)]
  have "get_free_pages r intr ra GFP_ATOMIC order dma m = Some (ADDRESS w, m')"
    using r(1) assms(2) by (simp add: gfp_atomic)
  then show ?thesis using True r(2,3) w by (auto simp: Let_def granted_def)
next
  case False
  then have "get_free_pages r intr ra GFP_ATOMIC order dma m = Some (0, m)"
    using RMQUEUE_available [OF assms(1), of order dma] assms(2) by (simp add: gfp_atomic)
  then show ?thesis using False by simp
qed

theorem get_free_pages_atomic_witness:
  "pool boot_mm boot_pages \<and> available boot_pages 5 True \<and>
   (\<exists>addr m'. get_free_pages (\<lambda>_ _ m. (False, m)) False 0 GFP_ATOMIC 5 True boot_mm = Some (addr, m') \<and> addr \<noteq> 0 \<and>
      block 5 (unat (MAP_NR addr)) \<subseteq> boot_pages \<and> pool m' (boot_pages - block 5 (unat (MAP_NR addr))))"
proof -
  have "available boot_pages 5 True"
    unfolding available_def by (rule exI [of _ 32]) (auto simp: block_def boot_pages_def)
  then show ?thesis
    using get_free_pages_atomic [OF boot_pool, of 5 "\<lambda>_ _ m. (False, m)" False 0 True] boot_pool
    by (auto simp: Let_def)
qed

text \<open>
  C18: From \<^verbatim>\<open>free_area_init\<close> and \<^verbatim>\<open>mem_init\<close> on: the boot code returns with exactly the usable pages free
  (those below 636 KB but the first, and those from the end of the kernel up, without the initial RAM disk). The
  counter is their number, and the queue of each order holds, without repetition, the largest
  aligned blocks they form. The bits cleared at set up are enough for every pair of buddies.
\<close>

theorem mem_init_free_areas:
  assumes "unat end_mem + 2 ^ 20 \<le> 2 ^ 32" "0 < unat (MAP_NR (PAGE_ALIGN start_mem))"
    "0 < unat (MAP_NR end_mem)" "nr_free_pages m = 0"
  shows "\<exists>m'. mem_init etext initrd start_mem end_mem (snd (free_area_init s0 end_mem m)) = Some m' \<and>
    nr_free_pages m' = of_nat (card (usable initrd start_mem end_mem)) \<and>
    (\<forall>k < 6. set (area m' k) = maximal_blocks (usable initrd start_mem end_mem) k \<and> distinct (area m' k))"
proof -
  obtain m' where m': "mem_init etext initrd start_mem end_mem (snd (free_area_init s0 end_mem m)) = Some m'"
    "pool m' (usable initrd start_mem end_mem)"
    using mem_init_owned [OF assms, of etext initrd s0] by (auto simp: owned_def)
  moreover have "nr_free_pages m' = of_nat (card (usable initrd start_mem end_mem))"
    using m'(2) by (simp add: pool_def)
  ultimately show ?thesis using pool_queues [OF m'(2)] by blast
qed

theorem mem_init_free_areas_witness:
  "\<exists>m'. mem_init 0x150000 (0, 0) 0x200000 0x800000 (snd (free_area_init 0x150000 0x800000 zero_mm)) = Some m' \<and>
     nr_free_pages m' = of_nat (card boot_pages) \<and> set (area m' 5) = maximal_blocks boot_pages 5"
  using mem_init_free_areas [of "0x800000" "0x200000" zero_mm "0x150000" "(0, 0)" "0x150000"]
  by (auto simp: MAP_NR_def PAGE_ALIGN_def PAGE_SIZE_def PAGE_MASK_def zero_mm_def boot_usable)



text \<open>
  C7: Whatever sequence of requests (any order, any priority, for DMA or not, in an interrupt or not) and releases a caller
  makes, every call returns, the blocks it holds never overlap each other, a free page or a page with another user, and the pool of free
  pages stays consistent. Atomic requests lose no page: after a sequence of them and of releases the pages
  that are free or held are those that were free or held at the start. Hypothesis on \<^verbatim>\<open>try_to_free_page\<close>, for the requests that are not atomic: it leaves the
  blocks held alone, the queues consistent, and does not report success for ever. It may free pages of other users, report success without
  having freed one, and use up free pages. What other tasks do while a request sleeps is not considered.
\<close>

theorem pages_exclusive:
  assumes "leased m F (map block_of held)" "\<forall>op\<in>set ops. asks fair_request op"
  shows "\<exists>m' held' F'. page_run pages_get free_pages ops (m, held) = Some (m', held') \<and>
    apart (map block_of held') \<and> covered (map block_of held') \<inter> F' = {} \<and> pool m' F' \<and>
    (\<forall>p\<in>F' \<union> covered (map block_of held'). page_user m' p = 0) \<and>
    ((\<forall>op\<in>set ops. asks atomic_request op) \<longrightarrow> F' \<union> covered (map block_of held') = F \<union> covered (map block_of held))"
proof -
  obtain m' held' F' where r: "page_run pages_get free_pages ops (m, held) = Some (m', held')" "leased m' F' (map block_of held')"
    "(\<forall>op\<in>set ops. asks atomic_request op) \<longrightarrow> F' \<union> covered (map block_of held') = F \<union> covered (map block_of held)"
    using pages.run_ok [OF assms] by blast
  moreover have "pool m' F'" "\<forall>p\<in>F' \<union> covered (map block_of held'). page_user m' p = 0"
    using r(2) by (auto simp: leased_def owned_def reclaimable_def)
  ultimately show ?thesis using pages.exclusive [OF r(2)] by blast
qed

theorem pages_exclusive_witness:
  "leased tight_mm {} [] \<and> reclaim_ok (drop_page 1) \<and>
   (\<exists>m1. page_run pages_get free_pages [Get (drop_page 1, False, 0, GFP_KERNEL, False) 0] (tight_mm, []) = Some (m1, [(0x1000, 0)])) \<and>
   (\<exists>m' held' F'. page_run pages_get free_pages
        [Get (drop_page 1, False, 0, GFP_KERNEL, False) 0, Get (drop_page 1, True, 0, GFP_ATOMIC, True) 0, Put 0] (tight_mm, []) = Some (m', held') \<and>
      apart (map block_of held') \<and> covered (map block_of held') \<inter> F' = {} \<and> pool m' F')"
proof -
  let ?ops = "[Get (drop_page 1, False, 0, GFP_KERNEL, False) 0, Get (drop_page 1, True, 0, GFP_ATOMIC, True) 0, Put 0]"
  have "\<forall>op\<in>set ?ops. asks fair_request op" by (simp add: fair_request_def drop_page_ok)
  with pages_exclusive [of tight_mm "{}" "[]" ?ops] have "\<exists>m' held' F'. page_run pages_get free_pages ?ops (tight_mm, []) = Some (m', held') \<and>
      apart (map block_of held') \<and> covered (map block_of held') \<inter> F' = {} \<and> pool m' F'"
    using tight_leased(2) by auto
  moreover have "\<exists>m1. page_run pages_get free_pages [Get (drop_page 1, False, 0, GFP_KERNEL, False) 0] (tight_mm, []) = Some (m1, [(0x1000, 0)])"
    using tight_reclaims by (auto simp: pages_get_def)
  ultimately show ?thesis using tight_leased(2) drop_page_ok by blast
qed

end
