(* ===== verification/Kmalloc.thy ===== *)
theory Kmalloc
  imports Page_Boot
begin

text \<open>
  The kernel's memory allocator, \<^verbatim>\<open>mm/kmalloc.c\<close>: pages from the page allocator are cut into blocks of 13 sizes,
  and the descriptors of pages and the headers of blocks live in those pages. Here are the operations; \<^verbatim>\<open>Kmalloc_Inv\<close>
  has the invariant and \<^verbatim>\<open>Kmalloc_Props\<close> what callers can rely on.
\<close>

section \<open>Memory\<close>

definition MF_USED :: u32 where "MF_USED = 0xffaa0055"
definition MF_DMA :: u32 where "MF_DMA = 0xff00aa55"
definition MF_FREE :: u32 where "MF_FREE = 0x0055ffaa"

definition GFP_DMA :: int where "GFP_DMA = 0x80"
definition GFP_LEVEL_MASK :: int where "GFP_LEVEL_MASK = 0xf"

definition HZ :: u32 where "HZ = 100"

lemmas mf_defs = MF_USED_def MF_DMA_def MF_FREE_def

text \<open>
  The state. \<^verbatim>\<open>kmem\<close> is the memory, as 32-bit words at byte addresses; the members of \<^verbatim>\<open>struct size_descriptor\<close> that change are
  functions of the index into \<^verbatim>\<open>sizes\<close>. \<^verbatim>\<open>kcount\<close> and \<^verbatim>\<open>klast\<close> are the static variables of \<^verbatim>\<open>kmalloc\<close>, \<^verbatim>\<open>kpages\<close> is the page allocator;
  its \<^verbatim>\<open>messages\<close> also record what is printed here.
\<close>

record kheap =
  kmem :: "nat \<Rightarrow> u32"
  firstfree :: "nat \<Rightarrow> u32"
  dmafree :: "nat \<Rightarrow> u32"
  nmallocs :: "nat \<Rightarrow> u32"
  nfrees :: "nat \<Rightarrow> u32"
  nbytesmalloced :: "nat \<Rightarrow> u32"
  npages :: "nat \<Rightarrow> u32"
  kmalloc_cache :: "nat \<Rightarrow> u32"
  kcount :: int
  klast :: u32
  kpages :: mm

text \<open>The surroundings of a call: the page reclaimer, whether it is in an interrupt, the return addresses it would print and the clock.\<close>

record kcontext =
  try_to_free_page :: reclaimer
  intr_count :: bool
  return_address :: u32
  gfp_return_address :: u32
  jiffies :: u32

definition ld :: "u32 \<Rightarrow> kheap \<Rightarrow> u32" where
  "ld a h = kmem h (unat a)"

definition st :: "u32 \<Rightarrow> u32 \<Rightarrow> kheap \<Rightarrow> kheap" where
  "st a v h = h\<lparr>kmem := (kmem h)(unat a := v)\<rparr>"

definition say :: "string \<Rightarrow> varg list \<Rightarrow> kheap \<Rightarrow> kheap" where
  "say fmt args h = h\<lparr>kpages := (kpages h)\<lparr>messages := messages (kpages h) @ [(fmt, args)]\<rparr>\<rparr>"

text \<open>\<^verbatim>\<open>struct block_header\<close> (8 bytes): flags, then the length or the next free block.\<close>

definition bh_flags :: "u32 \<Rightarrow> u32" where "bh_flags p = p"
definition bh_length :: "u32 \<Rightarrow> u32" where "bh_length p = p + 4"
definition bh_next :: "u32 \<Rightarrow> u32" where "bh_next p = p + 4"

text \<open>\<^verbatim>\<open>struct page_descriptor\<close> (16 bytes), at the front of a page.\<close>

definition pd_next :: "u32 \<Rightarrow> u32" where "pd_next page = page"
definition pd_firstfree :: "u32 \<Rightarrow> u32" where "pd_firstfree page = page + 4"
definition pd_order :: "u32 \<Rightarrow> u32" where "pd_order page = page + 8"
definition pd_nfree :: "u32 \<Rightarrow> u32" where "pd_nfree page = page + 12"

lemmas field_defs =
  bh_flags_def bh_length_def bh_next_def pd_next_def pd_firstfree_def pd_order_def pd_nfree_def

definition PAGE_DESC :: "u32 \<Rightarrow> u32" where
  "PAGE_DESC p = p AND PAGE_MASK"

section \<open>Sizes\<close>

definition blocksize :: "nat list" where
  "blocksize = [32, 64, 128, 252, 508, 1020, 2040, 4096 - 16, 8192 - 16, 16384 - 16, 32768 - 16, 65536 - 16, 131072 - 16, 0]"

text \<open>The constant members of \<^verbatim>\<open>sizes\<close>: number of blocks in an area, and its order in pages.\<close>

definition sizes :: "(nat \<times> nat) list" where
  "sizes = [(127, 0), (63, 0), (31, 0), (16, 0), (8, 0), (4, 0), (2, 0), (1, 0), (1, 1), (1, 2), (1, 3), (1, 4), (1, 5), (0, 0)]"

definition NBLOCKS :: "nat \<Rightarrow> nat" where "NBLOCKS order = fst (sizes ! order)"
definition BLOCKSIZE :: "nat \<Rightarrow> nat" where "BLOCKSIZE order = blocksize ! order"
definition gfporder :: "nat \<Rightarrow> nat" where "gfporder order = snd (sizes ! order)"
definition AREASIZE :: "nat \<Rightarrow> nat" where "AREASIZE order = 4096 * 2 ^ gfporder order"

definition MAX_CACHE_ORDER :: nat where "MAX_CACHE_ORDER = 3"

text \<open>The check at boot; \<^verbatim>\<open>None\<close> is the panic.\<close>

fun init_check :: "nat list \<Rightarrow> bool" where
  "init_check [] = True"
| "init_check (order # orders) =
     (if BLOCKSIZE order = 0 then True
      else if NBLOCKS order * BLOCKSIZE order + 16 > AREASIZE order then False
      else init_check orders)"

definition kmalloc_init :: "u32 \<Rightarrow> u32 option" where
  "kmalloc_init start_mem = (if init_check [0..<14] then Some start_mem else None)"

section \<open>Pages\<close>

text \<open>What \<^verbatim>\<open>pg\<close> points to: the head of a list in \<^verbatim>\<open>sizes\<close>, or the link in a page.\<close>

datatype pgref = Firstfree nat | Dmafree nat | Next u32

fun get_pg :: "pgref \<Rightarrow> kheap \<Rightarrow> u32" where
  "get_pg (Firstfree i) h = firstfree h i"
| "get_pg (Dmafree i) h = dmafree h i"
| "get_pg (Next page) h = ld (pd_next page) h"

fun set_pg :: "pgref \<Rightarrow> u32 \<Rightarrow> kheap \<Rightarrow> kheap" where
  "set_pg (Firstfree i) v h = h\<lparr>firstfree := (firstfree h)(i := v)\<rparr>"
| "set_pg (Dmafree i) v h = h\<lparr>dmafree := (dmafree h)(i := v)\<rparr>"
| "set_pg (Next page) v h = st (pd_next page) v h"

definition get_kmalloc_pages :: "kcontext \<Rightarrow> int \<Rightarrow> nat \<Rightarrow> bool \<Rightarrow> kheap \<Rightarrow> (u32 \<times> kheap) option" where
  "get_kmalloc_pages c priority order dma h =
     map_option (\<lambda>(a, m). (a, h\<lparr>kpages := m\<rparr>))
       (get_free_pages (try_to_free_page c) (intr_count c) (gfp_return_address c) priority order dma (kpages h))"

definition free_kmalloc_pages :: "u32 \<Rightarrow> nat \<Rightarrow> bool \<Rightarrow> kheap \<Rightarrow> kheap option" where
  "free_kmalloc_pages page order dma h =
     (let (page, h) = (if \<not> dma \<and> order < MAX_CACHE_ORDER
                       then (kmalloc_cache h order, h\<lparr>kmalloc_cache := (kmalloc_cache h)(order := page)\<rparr>)
                       else (page, h))
      in if \<not> dma \<and> order < MAX_CACHE_ORDER \<and> page = 0 then Some h
         else map_option (\<lambda>m. h\<lparr>kpages := m\<rparr>) (free_pages page order (kpages h)))"

section \<open>Allocation\<close>

text \<open>The search for the order of a request, along \<^verbatim>\<open>blocksize\<close>; the addition of the header's size wraps around.\<close>

fun find_order :: "u32 \<Rightarrow> nat \<Rightarrow> nat list \<Rightarrow> nat option" where
  "find_order realsize order [] = None"
| "find_order realsize order (ordersize # rest) =
     (if realsize \<le> of_nat ordersize then Some order
      else if ordersize \<noteq> 0 then find_order realsize (order + 1) rest
      else None)"

definition found_it :: "nat \<Rightarrow> pgref \<Rightarrow> u32 \<Rightarrow> u32 \<Rightarrow> u32 \<Rightarrow> u32 \<Rightarrow> kheap \<Rightarrow> u32 \<times> kheap" where
  "found_it order pg type sz page p h =
     (let h = st (pd_firstfree page) (ld (bh_next p) h) h;
          h = st (pd_nfree page) (ld (pd_nfree page) h - 1) h;
          h = (if ld (pd_nfree page) h = 0 then set_pg pg (ld (pd_next page) h) h else h);
          h = h\<lparr>nmallocs := (nmallocs h)(order := nmallocs h order + 1)\<rparr>;
          h = h\<lparr>nbytesmalloced := (nbytesmalloced h)(order := nbytesmalloced h order + sz)\<rparr>;
          h = st (bh_flags p) type h;
          h = st (bh_length p) sz h
      in (p + 8, h))"

text \<open>The loop over all blocks but the last.\<close>

fun carve :: "nat \<Rightarrow> u32 \<Rightarrow> u32 \<Rightarrow> kheap \<Rightarrow> u32 \<times> kheap" where
  "carve 0 sz p h = (p, h)"
| "carve (Suc i) sz p h =
     (let h = st (bh_flags p) MF_FREE h;
          h = st (bh_next p) (p + sz) h
      in carve i sz (ld (bh_next p) h) h)"

definition found_cached_page :: "nat \<Rightarrow> pgref \<Rightarrow> u32 \<Rightarrow> kheap \<Rightarrow> u32 \<times> kheap" where
  "found_cached_page order pg page h =
     (let h = h\<lparr>npages := (npages h)(order := npages h order + 1)\<rparr>;
          h = st (pd_order page) (of_nat order) h;
          h = st (pd_nfree page) (of_nat (NBLOCKS order)) h;
          (p, h) = carve (NBLOCKS order - 1) (of_nat (BLOCKSIZE order)) (page + 16) h;
          h = st (bh_flags p) MF_FREE h;
          h = st (bh_next p) 0 h;
          p = page + 16;
          h = st (pd_next page) (get_pg pg h) h;
          h = set_pg pg page h
      in (p, h))"

text \<open>The function from where it disables interrupts on, with the labels \<^verbatim>\<open>no_bucket_page\<close>, \<^verbatim>\<open>no_free_page\<close> and \<^verbatim>\<open>not_free_on_freelist\<close>.\<close>

definition kmalloc_bucket :: "kcontext \<Rightarrow> nat \<Rightarrow> bool \<Rightarrow> u32 \<Rightarrow> pgref \<Rightarrow> u32 \<Rightarrow> int \<Rightarrow> kheap \<Rightarrow> (u32 \<times> kheap) option" where
  "kmalloc_bucket c order dma type pg sz priority h =
     (let page = get_pg pg h
      in if page \<noteq> 0 then
           let p = ld (pd_firstfree page) h
           in if ld (bh_flags p) h \<noteq> MF_FREE
              then Some (0, say ''Problem: block on freelist at %08lx isn't free.\<newline>'' [AInt p] h)
              else Some (found_it order pg type sz page p h)
         else
           (case get_kmalloc_pages c priority (gfporder order) dma h of
              None \<Rightarrow> None
            | Some (page, h) \<Rightarrow>
                let (page, h) =
                  (if page = 0 \<and> \<not> dma \<and> order < MAX_CACHE_ORDER
                   then (kmalloc_cache h order, h\<lparr>kmalloc_cache := (kmalloc_cache h)(order := page)\<rparr>)
                   else (page, h))
                in if page \<noteq> 0 then
                     let (p, h) = found_cached_page order pg page h
                     in Some (found_it order pg type sz page p h)
                   else if priority \<noteq> GFP_BUFFER \<and> priority \<noteq> GFP_IO \<and> klast h + 10 * HZ < jiffies c
                   then Some (0, say ''Couldn't get a free page.....\<newline>'' [] (h\<lparr>klast := jiffies c\<rparr>))
                   else Some (0, h)))"

definition kmalloc :: "kcontext \<Rightarrow> u32 \<Rightarrow> int \<Rightarrow> kheap \<Rightarrow> (u32 \<times> kheap) option" where
  "kmalloc c sz priority h =
     (case find_order (sz + 8) 0 blocksize of
        None \<Rightarrow> Some (0, say ''kmalloc of too large a block (%d bytes).\<newline>'' [AInt sz] h)
      | Some order \<Rightarrow>
          let dma = (priority AND GFP_DMA \<noteq> 0);
              type = (if dma then MF_DMA else MF_USED);
              pg = (if dma then Dmafree order else Firstfree order);
              priority = priority AND GFP_LEVEL_MASK;
              (priority, h) =
                (if intr_count c \<and> priority \<noteq> GFP_ATOMIC then
                   let h = h\<lparr>kcount := kcount h + 1\<rparr>
                   in if kcount h < 5
                      then (GFP_ATOMIC, say ''kmalloc called nonatomically from interrupt %p\<newline>'' [AInt (return_address c)] h)
                      else (priority, h)
                 else (priority, h))
          in kmalloc_bucket c order dma type pg sz priority h)"

section \<open>Release\<close>

text \<open>The search of the list for a page, with the link that points to it; the inner \<^verbatim>\<open>None\<close> is the end of the list.\<close>

partial_function (option) find_page :: "u32 \<Rightarrow> pgref \<Rightarrow> kheap \<Rightarrow> pgref option option" where
  "find_page page pg h =
     (let tmp = get_pg pg h
      in if tmp = 0 then Some None
         else if tmp = page then Some (Some pg)
         else find_page page (Next tmp) h)"

definition free_page_of :: "nat \<Rightarrow> bool \<Rightarrow> u32 \<Rightarrow> kheap \<Rightarrow> kheap option" where
  "free_page_of order dma page h =
     free_kmalloc_pages page (gfporder order) dma (h\<lparr>npages := (npages h)(order := npages h order - 1)\<rparr>)"

definition bad_order :: "u32 \<Rightarrow> u32 \<Rightarrow> kheap \<Rightarrow> kheap" where
  "bad_order p page h =
     say ''kfree of non-kmalloced memory: %p, next= %p, order=%d\<newline>''
       [AInt (p + 8), AInt (ld (pd_next page) h), AInt (ld (pd_order page) h)] h"

text \<open>Putting the block on the list of its page; the result is the number of free blocks there were.\<close>

definition push_block :: "nat \<Rightarrow> u32 \<Rightarrow> u32 \<Rightarrow> kheap \<Rightarrow> u32 \<times> kheap" where
  "push_block order page p h =
     (let h = st (bh_flags p) MF_FREE h;
          h = h\<lparr>nfrees := (nfrees h)(order := nfrees h order + 1)\<rparr>;
          h = h\<lparr>nbytesmalloced := (nbytesmalloced h)(order := nbytesmalloced h order - ld (bh_length p) h)\<rparr>;
          h = st (bh_next p) (ld (pd_firstfree page) h) h;
          h = st (pd_firstfree page) p h;
          nfree = ld (pd_nfree page) h;
          h = st (pd_nfree page) (nfree + 1) h
      in (nfree, h))"

text \<open>The rest: put a page that was full on the list of its size, and free a page that is completely free.\<close>

definition settle_page :: "nat \<Rightarrow> bool \<Rightarrow> pgref \<Rightarrow> u32 \<Rightarrow> u32 \<Rightarrow> kheap \<Rightarrow> kheap option" where
  "settle_page order dma pg page nfree h =
     (if nfree = 0 \<and> NBLOCKS order = 1 then free_page_of order dma page h
      else
        let h = (if nfree = 0 then set_pg pg page (st (pd_next page) (get_pg pg h) h) else h)
        in if ld (pd_nfree page) h = of_nat (NBLOCKS order) then
             (case find_page page pg h of
                None \<Rightarrow> None
              | Some None \<Rightarrow> Some (say ''Ooops. page %p doesn't show on freelist.\<newline>'' [AInt page] h)
              | Some (Some pg) \<Rightarrow> free_page_of order dma page (set_pg pg (ld (pd_next page) h) h))
           else Some h)"

definition kfree :: "u32 \<Rightarrow> kheap \<Rightarrow> kheap option" where
  "kfree ptr h =
     (if ptr = 0 then Some h
      else
        let page = PAGE_DESC ptr;
            p = ptr - 8
        in if NOT PAGE_MASK AND ld (pd_next page) h \<noteq> 0 then Some (bad_order p page h)
           else
             let order = ld (pd_order page) h
             in if order \<ge> of_nat (length sizes) then Some (bad_order p page h)
                else
                  let order = unat order;
                      dma = (ld (bh_flags p) h = MF_DMA);
                      h = (if dma then st (bh_flags p) MF_USED h else h);
                      pg = (if dma then Dmafree order else Firstfree order)
                  in if ld (bh_flags p) h \<noteq> MF_USED then Some (bad_order p page h)
                     else
                       let (nfree, h) = push_block order page p h
                       in settle_page order dma pg page nfree h)"

end
