(* ===== verification/Kmalloc_Inv.thy ===== *)
theory Kmalloc_Inv
  imports Kmalloc
begin

text \<open>
  The invariant of the allocator's memory: what the words of an area in use say, how areas with free blocks are
  chained, and that taking and giving back a block keeps this.
\<close>

section \<open>The table of sizes\<close>

lemma less_13: "i < 13 \<Longrightarrow> i \<in> {0, 1, 2, 3, 4, 5, 6, 7, 8, 9, 10, 11, 12::nat}"
  unfolding insert_iff empty_iff by presburger

lemma sizes_table:
  assumes "i < 13"
  shows "32 \<le> BLOCKSIZE i" "4 dvd BLOCKSIZE i" "BLOCKSIZE i < 2 ^ 32" "0 < NBLOCKS i" "NBLOCKS i < 2 ^ 32"
    "NBLOCKS i * BLOCKSIZE i + 16 \<le> AREASIZE i" "gfporder i \<le> 5" "NBLOCKS i = 1 \<or> AREASIZE i = 4096"
    "i < 3 \<Longrightarrow> gfporder i = 0"
  using less_13 [OF assms]
  by (auto simp: BLOCKSIZE_def blocksize_def NBLOCKS_def AREASIZE_def sizes_def gfporder_def)

lemma kmalloc_init_ok: "kmalloc_init start_mem = Some start_mem"
proof -
  have "init_check is" if "set is \<subseteq> {..<14}" for "is"
    using that
  proof (induction "is")
    case (Cons i xs)
    have "BLOCKSIZE 13 = 0" by (simp add: BLOCKSIZE_def blocksize_def)
    then show ?case using Cons sizes_table(6) [of i] by (cases "i = 13") auto
  qed simp
  then have "init_check [0..<14]" by force
  then show ?thesis by (simp only: kmalloc_init_def if_True)
qed

section \<open>Areas\<close>

lemma not_page_mask: "NOT PAGE_MASK = mask 12"
  by (simp add: PAGE_MASK_def PAGE_SIZE_def mask_eq_exp_minus_1)

lemma page_aligned: "NOT PAGE_MASK AND of_nat (4096 * c) = (0 :: u32)"
proof -
  have "(of_nat (4096 * c) :: u32) = push_bit 12 (of_nat c)" by (simp add: push_bit_eq_mult)
  then show ?thesis unfolding not_page_mask by (simp only:) (rule bit_word_eqI, auto simp: bit_simps)
qed

text \<open>An area, from its page number \<^verbatim>\<open>b\<close>, is a descriptor of 16 bytes and then its blocks.\<close>

definition blk :: "nat \<Rightarrow> nat \<Rightarrow> nat \<Rightarrow> nat" where
  "blk k b i = 4096 * b + 16 + i * BLOCKSIZE k"

lemma blk_room:
  assumes "k < 13" "i < NBLOCKS k"
  shows "4096 * b + 16 \<le> blk k b i" "blk k b i + BLOCKSIZE k \<le> 4096 * b + AREASIZE k" "blk k b i + 32 \<le> 4096 * b + AREASIZE k"
proof -
  show "4096 * b + 16 \<le> blk k b i" by (simp add: blk_def)
  have "i * BLOCKSIZE k + BLOCKSIZE k \<le> NBLOCKS k * BLOCKSIZE k"
    using mult_le_mono1 [of "Suc i" "NBLOCKS k" "BLOCKSIZE k"] assms(2) by simp
  then show "blk k b i + BLOCKSIZE k \<le> 4096 * b + AREASIZE k" using sizes_table(6) [OF assms(1)] unfolding blk_def by linarith
  then show "blk k b i + 32 \<le> 4096 * b + AREASIZE k" using sizes_table(1) [OF assms(1)] by linarith
qed

lemma blk_less:
  assumes "i < j"
  shows "blk k b i + BLOCKSIZE k \<le> blk k b j"
  using mult_le_mono1 [of "Suc i" j "BLOCKSIZE k"] assms by (simp add: blk_def)

lemma blk_apart:
  assumes "k < 13" "i \<noteq> j"
  shows "blk k b i + 32 \<le> blk k b j \<or> blk k b j + 32 \<le> blk k b i"
  using blk_less [of i j k b] blk_less [of j i k b] sizes_table(1) [OF assms(1)] assms(2) by linarith

text \<open>
  The state of an area: which size it is for and whether for DMA, the free blocks in the order of their list, and the
  blocks in use with the sizes they were asked for.
\<close>

record karea =
  kbucket :: nat
  kdma :: bool
  kfreed :: "nat list"
  kused :: "nat \<Rightarrow> u32 option"

definition flink :: "nat \<Rightarrow> nat \<Rightarrow> nat list \<Rightarrow> u32" where
  "flink k b is = (case is of [] \<Rightarrow> 0 | i # _ \<Rightarrow> of_nat (blk k b i))"

fun fchain :: "(nat \<Rightarrow> u32) \<Rightarrow> nat \<Rightarrow> nat \<Rightarrow> nat list \<Rightarrow> bool" where
  "fchain mem k b [] = True"
| "fchain mem k b (i # is) = (mem (blk k b i) = MF_FREE \<and> mem (blk k b i + 4) = flink k b is \<and> fchain mem k b is)"

definition mf_type :: "bool \<Rightarrow> u32" where
  "mf_type dma = (if dma then MF_DMA else MF_USED)"

definition area_shape :: "karea \<Rightarrow> bool" where
  "area_shape a \<longleftrightarrow> kbucket a < 13 \<and> distinct (kfreed a) \<and> set (kfreed a) \<inter> dom (kused a) = {} \<and>
     set (kfreed a) \<union> dom (kused a) = {..<NBLOCKS (kbucket a)} \<and>
     (\<forall>i n. kused a i = Some n \<longrightarrow> unat n + 8 \<le> BLOCKSIZE (kbucket a))"

definition area_words :: "(nat \<Rightarrow> u32) \<Rightarrow> nat \<Rightarrow> karea \<Rightarrow> bool" where
  "area_words mem b a \<longleftrightarrow>
     NOT PAGE_MASK AND mem (4096 * b) = 0 \<and> mem (4096 * b + 4) = flink (kbucket a) b (kfreed a) \<and>
     mem (4096 * b + 8) = of_nat (kbucket a) \<and> mem (4096 * b + 12) = of_nat (length (kfreed a)) \<and>
     fchain mem (kbucket a) b (kfreed a) \<and>
     (\<forall>i n. kused a i = Some n \<longrightarrow>
        mem (blk (kbucket a) b i) = mf_type (kdma a) \<and> mem (blk (kbucket a) b i + 4) = n)"

lemma fchain_cong:
  "(\<And>i. i \<in> set is \<Longrightarrow> mem' (blk k b i) = mem (blk k b i) \<and> mem' (blk k b i + 4) = mem (blk k b i + 4)) \<Longrightarrow>
     fchain mem' k b is = fchain mem k b is"
  by (induction "is") auto

lemma area_cells:
  assumes "area_shape a" "i \<in> set (kfreed a) \<union> dom (kused a)"
  shows "kbucket a < 13" "i < NBLOCKS (kbucket a)"
    "4096 * b + 16 \<le> blk (kbucket a) b i" "blk (kbucket a) b i + 32 \<le> 4096 * b + AREASIZE (kbucket a)"
proof -
  show k: "kbucket a < 13" "i < NBLOCKS (kbucket a)" using assms by (auto simp: area_shape_def)
  then show "4096 * b + 16 \<le> blk (kbucket a) b i" "blk (kbucket a) b i + 32 \<le> 4096 * b + AREASIZE (kbucket a)"
    by (rule blk_room)+
qed

lemma area_size: "k < 13 \<Longrightarrow> 48 \<le> AREASIZE k"
  using sizes_table(1,4,6) [of k] mult_le_mono [of 1 "NBLOCKS k" 32 "BLOCKSIZE k"] by simp

lemma area_words_cong:
  assumes "area_shape a" "\<And>x. 4096 * b \<le> x \<Longrightarrow> x < 4096 * b + AREASIZE (kbucket a) \<Longrightarrow> mem' x = mem x"
  shows "area_words mem' b a = area_words mem b a"
proof -
  have size: "48 \<le> AREASIZE (kbucket a)" using area_size assms(1) by (simp add: area_shape_def)
  have c: "mem' (blk (kbucket a) b i) = mem (blk (kbucket a) b i)" "mem' (blk (kbucket a) b i + 4) = mem (blk (kbucket a) b i + 4)"
    if "i \<in> set (kfreed a) \<union> dom (kused a)" for i
    using area_cells(3,4) [OF assms(1) that, of b] by (auto intro!: assms(2))
  have f: "fchain mem' (kbucket a) b (kfreed a) = fchain mem (kbucket a) b (kfreed a)"
    using c by (intro fchain_cong) auto
  have w: "mem' (4096 * b) = mem (4096 * b)" "mem' (4096 * b + 4) = mem (4096 * b + 4)"
    "mem' (4096 * b + 8) = mem (4096 * b + 8)" "mem' (4096 * b + 12) = mem (4096 * b + 12)"
    using size by (auto intro!: assms(2))
  have u: "(\<forall>i n. kused a i = Some n \<longrightarrow> mem' (blk (kbucket a) b i) = mf_type (kdma a) \<and> mem' (blk (kbucket a) b i + 4) = n) =
      (\<forall>i n. kused a i = Some n \<longrightarrow> mem (blk (kbucket a) b i) = mf_type (kdma a) \<and> mem (blk (kbucket a) b i + 4) = n)"
    using c by (metis Un_iff domI)
  show ?thesis unfolding area_words_def f w u ..
qed

section \<open>Taking and giving back a block\<close>

lemma area_pop:
  assumes "area_shape a" "area_words mem b a" "kfreed a = i # is" "unat n + 8 \<le> BLOCKSIZE (kbucket a)"
  defines "a' \<equiv> a\<lparr>kfreed := is, kused := (kused a)(i \<mapsto> n)\<rparr>"
  shows "area_shape a'"
    "area_words (mem(4096 * b + 4 := flink (kbucket a) b is, 4096 * b + 12 := of_nat (length is),
       blk (kbucket a) b i := mf_type (kdma a), blk (kbucket a) b i + 4 := n)) b a'"
proof -
  let ?k = "kbucket a"
  have k: "?k < 13" and i: "i < NBLOCKS ?k" "i \<notin> set is" using assms(1,3) by (auto simp: area_shape_def)
  show "area_shape a'" using assms(1,3,4) unfolding area_shape_def a'_def by auto
  have far: "blk ?k b i + 32 \<le> blk ?k b j \<or> blk ?k b j + 32 \<le> blk ?k b i" if "j \<noteq> i" for j
    using blk_apart [OF k that [symmetric]] .
  have low: "4096 * b + 16 \<le> blk ?k b j" for j by (simp add: blk_def)
  have old: "mem' (blk ?k b j) = mem (blk ?k b j)" "mem' (blk ?k b j + 4) = mem (blk ?k b j + 4)"
    if "j \<noteq> i" "mem' = mem(4096 * b + 4 := v, 4096 * b + 12 := v', blk ?k b i := w, blk ?k b i + 4 := w')" for j v v' w w' mem'
    using far [OF that(1)] low [of j] that(2) by auto
  have "fchain (mem(4096 * b + 4 := flink ?k b is, 4096 * b + 12 := of_nat (length is),
       blk ?k b i := mf_type (kdma a), blk ?k b i + 4 := n)) ?k b is = fchain mem ?k b is"
    by (rule fchain_cong, rule conjI) (rule old [OF _ refl], use i in blast)+
  then show "area_words (mem(4096 * b + 4 := flink ?k b is, 4096 * b + 12 := of_nat (length is),
       blk ?k b i := mf_type (kdma a), blk ?k b i + 4 := n)) b a'"
    using assms(2,3) low [of i] old [OF _ refl] unfolding area_words_def a'_def by auto
qed

lemma area_push:
  assumes "area_shape a" "area_words mem b a" "kused a i = Some n"
  defines "a' \<equiv> a\<lparr>kfreed := i # kfreed a, kused := (kused a)(i := None)\<rparr>"
  shows "area_shape a'"
    "area_words (mem(blk (kbucket a) b i := MF_FREE, blk (kbucket a) b i + 4 := flink (kbucket a) b (kfreed a),
       4096 * b + 4 := of_nat (blk (kbucket a) b i), 4096 * b + 12 := of_nat (length (kfreed a)) + 1)) b a'"
proof -
  let ?k = "kbucket a"
  have k: "?k < 13" and i: "i < NBLOCKS ?k" "i \<notin> set (kfreed a)" using assms(1,3) by (auto simp: area_shape_def)
  show "area_shape a'" using assms(1,3) unfolding area_shape_def a'_def by (auto split: if_splits)
  have far: "blk ?k b i + 32 \<le> blk ?k b j \<or> blk ?k b j + 32 \<le> blk ?k b i" if "j \<noteq> i" for j
    using blk_apart [OF k that [symmetric]] .
  have low: "4096 * b + 16 \<le> blk ?k b j" for j by (simp add: blk_def)
  have old: "mem' (blk ?k b j) = mem (blk ?k b j)" "mem' (blk ?k b j + 4) = mem (blk ?k b j + 4)"
    if "j \<noteq> i" "mem' = mem(blk ?k b i := w, blk ?k b i + 4 := w', 4096 * b + 4 := v, 4096 * b + 12 := v')" for j v v' w w' mem'
    using far [OF that(1)] low [of j] that(2) by auto
  have "fchain (mem(blk ?k b i := MF_FREE, blk ?k b i + 4 := flink ?k b (kfreed a),
       4096 * b + 4 := of_nat (blk ?k b i), 4096 * b + 12 := of_nat (length (kfreed a)) + 1)) ?k b (kfreed a) = fchain mem ?k b (kfreed a)"
    by (rule fchain_cong, rule conjI) (rule old [OF _ refl], use i in blast)+
  then show "area_words (mem(blk ?k b i := MF_FREE, blk ?k b i + 4 := flink ?k b (kfreed a),
       4096 * b + 4 := of_nat (blk ?k b i), 4096 * b + 12 := of_nat (length (kfreed a)) + 1)) b a'"
    using assms(2) low [of i] old [OF _ refl] unfolding area_words_def a'_def by (auto simp: flink_def)
qed

lemma area_next:
  assumes "area_words mem b a" "NOT PAGE_MASK AND v = 0"
  shows "area_words (mem(4096 * b := v)) b a"
proof -
  have low: "blk k b j \<noteq> 4096 * b" "blk k b j + 4 \<noteq> 4096 * b" for j k by (simp_all add: blk_def)
  then have "fchain (mem(4096 * b := v)) (kbucket a) b (kfreed a) = fchain mem (kbucket a) b (kfreed a)"
    by (intro fchain_cong) simp
  then show ?thesis using assms low by (simp add: area_words_def)
qed

section \<open>Chains of areas\<close>

text \<open>
  The state of the heap: areas by page number, for each size the chain of the areas that have free blocks, and
  the pages in \<^verbatim>\<open>kmalloc_cache\<close>.
\<close>

record kghost =
  kareas :: "nat \<Rightarrow> karea option"
  kchain :: "nat \<times> bool \<Rightarrow> nat list"
  kslot :: "nat \<Rightarrow> nat option"

definition pnext :: "nat list \<Rightarrow> u32" where
  "pnext bs = (case bs of [] \<Rightarrow> 0 | b # _ \<Rightarrow> of_nat (4096 * b))"

lemma pnext_simps [simp]: "pnext [] = 0" "pnext (b # bs) = of_nat (4096 * b)"
  by (simp_all add: pnext_def)

fun pchain :: "(nat \<Rightarrow> u32) \<Rightarrow> nat list \<Rightarrow> bool" where
  "pchain mem [] = True"
| "pchain mem (b # bs) = (mem (4096 * b) = pnext bs \<and> pchain mem bs)"

lemma pchain_cong: "(\<And>b. b \<in> set bs \<Longrightarrow> mem' (4096 * b) = mem (4096 * b)) \<Longrightarrow> pchain mem' bs = pchain mem bs"
  by (induction bs) auto

lemma pchain_append: "pchain mem (bs @ b # cs) \<Longrightarrow> mem (4096 * b) = pnext cs \<and> pchain mem cs"
  by (induction bs) auto

lemma pchain_unlink:
  "pchain mem (bs @ c # b # cs) \<Longrightarrow> distinct (bs @ c # b # cs) \<Longrightarrow> pchain (mem(4096 * c := pnext cs)) (bs @ c # cs)"
proof (induction bs)
  case Nil
  then have "pchain (mem(4096 * c := pnext cs)) cs = pchain mem cs" by (intro pchain_cong) auto
  then show ?case using Nil by (auto simp: fun_upd_def)
next
  case (Cons x bs)
  have "pnext (bs @ c # b # cs) = pnext (bs @ c # cs)" by (cases bs) auto
  then show ?case using Cons by simp
qed

definition spaced :: "(nat \<Rightarrow> karea option) \<Rightarrow> bool" where
  "spaced as \<longleftrightarrow>
     (\<forall>b a. as b = Some a \<longrightarrow> 0 < b \<and> 4096 * b + AREASIZE (kbucket a) \<le> 2 ^ 32 \<and>
        (\<forall>c a'. as c = Some a' \<longrightarrow> b < c \<longrightarrow> 4096 * b + AREASIZE (kbucket a) \<le> 4096 * c))"

lemma spacedD:
  assumes "spaced as" "as b = Some a" "as c = Some a'" "b \<noteq> c" "4096 * b \<le> x" "x < 4096 * b + AREASIZE (kbucket a)"
  shows "\<not> (4096 * c \<le> x \<and> x < 4096 * c + AREASIZE (kbucket a'))"
proof (cases "b < c")
  case True
  then have "4096 * b + AREASIZE (kbucket a) \<le> 4096 * c" using assms(1,2,3) unfolding spaced_def by blast
  then show ?thesis using assms(6) by linarith
next
  case False
  then have "c < b" using assms(4) by simp
  then have "4096 * c + AREASIZE (kbucket a') \<le> 4096 * b" using assms(1,2,3) unfolding spaced_def by blast
  then show ?thesis using assms(5) by linarith
qed

definition with_free :: "(nat \<Rightarrow> karea option) \<Rightarrow> nat \<times> bool \<Rightarrow> nat set" where
  "with_free as q = {b. \<exists>a. as b = Some a \<and> (kbucket a, kdma a) = q \<and> kfreed a \<noteq> []}"

definition arena :: "(nat \<Rightarrow> u32) \<Rightarrow> (nat \<times> bool \<Rightarrow> u32) \<Rightarrow> (nat \<Rightarrow> karea option) \<Rightarrow> (nat \<times> bool \<Rightarrow> nat list) \<Rightarrow> bool" where
  "arena mem hs as ch \<longleftrightarrow> spaced as \<and>
     (\<forall>b a. as b = Some a \<longrightarrow> area_shape a \<and> area_words mem b a) \<and>
     (\<forall>q. distinct (ch q) \<and> set (ch q) = with_free as q \<and> pchain mem (ch q) \<and> hs q = pnext (ch q))"

lemma arenaD:
  assumes "arena mem hs as ch"
  shows "spaced as" "as b = Some a \<Longrightarrow> area_shape a" "as b = Some a \<Longrightarrow> area_words mem b a"
    "distinct (ch q)" "set (ch q) = with_free as q" "pchain mem (ch q)" "hs q = pnext (ch q)"
  using assms unfolding arena_def by blast+

text \<open>
  Stores inside one area leave the others alone. If they also keep its link, and the chains are changed to
  match, the arena stays in order.
\<close>

lemma other_area:
  assumes "arena mem hs as ch" "as b = Some a" "\<And>x. x < 4096 * b \<or> 4096 * b + AREASIZE (kbucket a) \<le> x \<Longrightarrow> mem' x = mem x"
    "as c = Some a'" "c \<noteq> b"
  shows "area_words mem' c a'" "mem' (4096 * c) = mem (4096 * c)"
proof -
  have s: "spaced as" "area_shape a'" "area_words mem c a'" using arenaD [OF assms(1)] assms(4) by auto
  have out: "mem' x = mem x" if "4096 * c \<le> x" "x < 4096 * c + AREASIZE (kbucket a')" for x
    using assms(3) [of x] spacedD [OF s(1) assms(4,2,5) that] by linarith
  show "area_words mem' c a'" using area_words_cong [OF s(2) out] s(3) by simp
  have "48 \<le> AREASIZE (kbucket a')" using s(2) area_size by (simp add: area_shape_def)
  then show "mem' (4096 * c) = mem (4096 * c)" using out [of "4096 * c"] by simp
qed

lemma arena_update:
  assumes "arena mem hs as ch" "as b = Some a" "\<And>x. x < 4096 * b \<or> 4096 * b + AREASIZE (kbucket a) \<le> x \<Longrightarrow> mem' x = mem x"
    and "area_shape a'" "area_words mem' b a'" "kbucket a' = kbucket a" "kdma a' = kdma a"
    and "\<And>q. distinct (ch' q) \<and> set (ch' q) = with_free (as(b \<mapsto> a')) q \<and> pchain mem' (ch' q) \<and> hs' q = pnext (ch' q)"
  shows "arena mem' hs' (as(b \<mapsto> a')) ch'"
proof -
  have "spaced (as(b \<mapsto> a'))" using arenaD(1) [OF assms(1)] assms(2,6) unfolding spaced_def by auto
  moreover have "area_shape x \<and> area_words mem' c x" if "(as(b \<mapsto> a')) c = Some x" for c x
    using that assms(4,5) other_area(1) [OF assms(1-3), of c x] arenaD(2) [OF assms(1), of c x] by (cases "c = b") auto
  ultimately show ?thesis using assms(8) unfolding arena_def by blast
qed

lemma with_free_upd:
  "with_free (as(b \<mapsto> a)) q =
     (if (kbucket a, kdma a) = q \<and> kfreed a \<noteq> [] then insert b (with_free as q) else with_free as q - {b})"
  unfolding with_free_def by auto

lemma chain_area:
  assumes "arena mem hs as ch" "b \<in> set (ch q)"
  obtains a where "as b = Some a" "(kbucket a, kdma a) = q" "kfreed a \<noteq> []"
  using assms arenaD(5) [OF assms(1), of q] unfolding with_free_def by blast

lemma chain_keep:
  assumes "arena mem hs as ch" "as b = Some a" "\<And>x. x < 4096 * b \<or> 4096 * b + AREASIZE (kbucket a) \<le> x \<Longrightarrow> mem' x = mem x"
    "mem' (4096 * b) = mem (4096 * b)"
  shows "pchain mem' (ch q)"
proof -
  have "mem' (4096 * c) = mem (4096 * c)" if "c \<in> set (ch q)" for c
    using other_area(2) [OF assms(1-3), of c] assms(4) chain_area [OF assms(1) that] by metis
  then show ?thesis using pchain_cong arenaD(6) [OF assms(1)] by blast
qed

section \<open>The arena under the operations\<close>

lemma area_room:
  assumes "arena mem hs as ch" "as b = Some a"
  shows "kbucket a < 13" "4096 * b + 48 \<le> 4096 * b + AREASIZE (kbucket a)" "4096 * b + AREASIZE (kbucket a) \<le> 2 ^ 32" "0 < b"
proof -
  show k: "kbucket a < 13" using arenaD(2) [OF assms] by (simp add: area_shape_def)
  show "4096 * b + 48 \<le> 4096 * b + AREASIZE (kbucket a)" using area_size [OF k] by simp
  show "4096 * b + AREASIZE (kbucket a) \<le> 2 ^ 32" "0 < b" using arenaD(1) [OF assms(1)] assms(2) unfolding spaced_def by blast+
qed

lemma inside:
  assumes "arena mem hs as ch" "as b = Some a" "i \<in> set (kfreed a) \<union> dom (kused a)" "x < 4096 * b \<or> 4096 * b + AREASIZE (kbucket a) \<le> x"
  shows "x \<noteq> 4096 * b" "x \<noteq> 4096 * b + 4" "x \<noteq> 4096 * b + 12" "x \<noteq> blk (kbucket a) b i" "x \<noteq> blk (kbucket a) b i + 4"
  using area_room(2) [OF assms(1,2)] area_cells(3,4) [OF arenaD(2) [OF assms(1,2)] assms(3), of b] assms(4) by linarith+

lemma arena_pop:
  assumes "arena mem hs as ch" "ch q = b # bs" "as b = Some a" "kfreed a = i # is" "unat n + 8 \<le> BLOCKSIZE (kbucket a)"
  defines "mem' \<equiv> mem(4096 * b + 4 := flink (kbucket a) b is, 4096 * b + 12 := of_nat (length is),
       blk (kbucket a) b i := mf_type (kdma a), blk (kbucket a) b i + 4 := n)"
    and "a' \<equiv> a\<lparr>kfreed := is, kused := (kused a)(i \<mapsto> n)\<rparr>"
  shows "arena mem' (if is = [] then hs(q := mem (4096 * b)) else hs) (as(b \<mapsto> a')) (if is = [] then ch(q := bs) else ch)"
proof (rule arena_update [OF assms(1,3)])
  note pop = area_pop [OF arenaD(2,3) [OF assms(1,3)] assms(4,5)]
  show "area_shape a'" "area_words mem' b a'" using pop unfolding a'_def mem'_def by simp_all
  show out: "mem' x = mem x" if "x < 4096 * b \<or> 4096 * b + AREASIZE (kbucket a) \<le> x" for x
    using inside [OF assms(1,3) _ that, of i] assms(4) unfolding mem'_def by simp
  have keep: "mem' (4096 * b) = mem (4096 * b)" unfolding mem'_def by (simp add: blk_def)
  have q: "(kbucket a, kdma a) = q" using chain_area [OF assms(1), of b q] assms(2,3) by auto
  show "distinct ((if is = [] then ch(q := bs) else ch) r) \<and>
      set ((if is = [] then ch(q := bs) else ch) r) = with_free (as(b \<mapsto> a')) r \<and>
      pchain mem' ((if is = [] then ch(q := bs) else ch) r) \<and>
      (if is = [] then hs(q := mem (4096 * b)) else hs) r = pnext ((if is = [] then ch(q := bs) else ch) r)" for r
  proof -
    have c: "distinct (ch r)" "set (ch r) = with_free as r" "hs r = pnext (ch r)" "pchain mem' (ch r)" "pchain mem (ch r)"
      using arenaD(4-7) [OF assms(1)] chain_keep [OF assms(1,3) out keep] by auto
    have w: "with_free (as(b \<mapsto> a')) r = (if q = r \<and> is \<noteq> [] then insert b (with_free as r) else with_free as r - {b})"
      using q unfolding with_free_upd a'_def by simp
    have b: "b \<in> with_free as r \<longleftrightarrow> q = r" using assms(3,4) q unfolding with_free_def by auto
    show ?thesis using c w b assms(2) by (cases "q = r"; cases "is = []") auto
  qed
qed (simp_all add: a'_def)

lemma arena_push:
  assumes "arena mem hs as ch" "as b = Some a" "kused a i = Some n" "q = (kbucket a, kdma a)"
  defines "mem1 \<equiv> mem(blk (kbucket a) b i := MF_FREE, blk (kbucket a) b i + 4 := flink (kbucket a) b (kfreed a),
       4096 * b + 4 := of_nat (blk (kbucket a) b i), 4096 * b + 12 := of_nat (length (kfreed a)) + 1)"
    and "a' \<equiv> a\<lparr>kfreed := i # kfreed a, kused := (kused a)(i := None)\<rparr>"
  defines "mem' \<equiv> (if kfreed a = [] then mem1(4096 * b := hs q) else mem1)"
  shows "arena mem' (if kfreed a = [] then hs(q := of_nat (4096 * b)) else hs) (as(b \<mapsto> a'))
    (if kfreed a = [] then ch(q := b # ch q) else ch)"
proof (rule arena_update [OF assms(1,2)])
  note push = area_push [OF arenaD(2,3) [OF assms(1,2)] assms(3)]
  have "NOT PAGE_MASK AND hs q = 0"
  proof (cases "ch q")
    case Nil
    then show ?thesis using arenaD(7) [OF assms(1), of q] by simp
  next
    case (Cons c cs)
    then show ?thesis using arenaD(7) [OF assms(1), of q] page_aligned [of c] by simp
  qed
  from area_next [OF push(2) this] have n: "area_words (mem1(4096 * b := hs q)) b a'" unfolding mem1_def a'_def .
  have m: "area_words mem1 b a'" using push(2) unfolding mem1_def a'_def .
  show "area_shape a'" using push(1) unfolding a'_def .
  show "area_words mem' b a'" unfolding mem'_def using m n by presburger
  show out: "mem' x = mem x" if "x < 4096 * b \<or> 4096 * b + AREASIZE (kbucket a) \<le> x" for x
    using inside [OF assms(1,2) _ that, of i] assms(3) unfolding mem'_def mem1_def by (simp add: dom_def)
  have keep: "mem' (4096 * b) = (if kfreed a = [] then hs q else mem (4096 * b))"
    unfolding mem'_def mem1_def by (simp add: blk_def)
  show "distinct ((if kfreed a = [] then ch(q := b # ch q) else ch) r) \<and>
      set ((if kfreed a = [] then ch(q := b # ch q) else ch) r) = with_free (as(b \<mapsto> a')) r \<and>
      pchain mem' ((if kfreed a = [] then ch(q := b # ch q) else ch) r) \<and>
      (if kfreed a = [] then hs(q := of_nat (4096 * b)) else hs) r = pnext ((if kfreed a = [] then ch(q := b # ch q) else ch) r)" for r
  proof -
    have c: "distinct (ch r)" "set (ch r) = with_free as r" "hs r = pnext (ch r)" "pchain mem (ch r)"
      using arenaD(4-7) [OF assms(1)] by auto
    have w: "with_free (as(b \<mapsto> a')) r = (if q = r then insert b (with_free as r) else with_free as r - {b})"
      unfolding with_free_upd assms(4) a'_def by simp
    have b: "b \<in> with_free as r \<longleftrightarrow> q = r \<and> kfreed a \<noteq> []" using assms(2,4) unfolding with_free_def by auto
    have p: "pchain mem' (ch r)"
    proof -
      have "mem' (4096 * x) = mem (4096 * x)" if "x \<in> set (ch r)" for x
        using other_area(2) [OF assms(1,2) out, of x] keep that c(2) b chain_area [OF assms(1) that] by (metis (full_types))
      then show ?thesis using pchain_cong c(4) by blast
    qed
    show ?thesis using c w b p keep by (cases "q = r"; cases "kfreed a = []") (auto simp: insert_absorb)
  qed
qed (simp_all add: a'_def)

lemma with_free_none: "with_free (as(b := None)) q = with_free as q - {b}"
  unfolding with_free_def by auto

lemma arena_delete:
  assumes "arena mem hs as ch" "as b = Some a" "\<And>q. distinct (ch' q) \<and> set (ch' q) = with_free as q - {b} \<and>
      pchain mem' (ch' q) \<and> hs' q = pnext (ch' q)"
    and "\<And>c a'. as c = Some a' \<Longrightarrow> c \<noteq> b \<Longrightarrow> area_words mem' c a'"
  shows "arena mem' hs' (as(b := None)) ch'"
proof -
  have "spaced (as(b := None))" using arenaD(1) [OF assms(1)] unfolding spaced_def by auto
  moreover have "area_shape x \<and> area_words mem' c x" if "(as(b := None)) c = Some x" for c x
    using that assms(4) arenaD(2) [OF assms(1)] by (cases "c = b") auto
  ultimately show ?thesis using assms(3) unfolding arena_def with_free_none by blast
qed

text \<open>An area without free blocks is on no chain; its words may change at will when it goes.\<close>

lemma arena_drop:
  assumes "arena mem hs as ch" "as b = Some a" "kfreed a = []"
    "\<And>x. x < 4096 * b \<or> 4096 * b + AREASIZE (kbucket a) \<le> x \<Longrightarrow> mem' x = mem x"
  shows "arena mem' hs (as(b := None)) ch"
proof (rule arena_delete [OF assms(1,2)])
  fix q
  have b: "b \<notin> with_free as q" using assms(2,3) unfolding with_free_def by auto
  have "mem' (4096 * x) = mem (4096 * x)" if "x \<in> set (ch q)" for x
    using other_area(2) [OF assms(1,2,4), of x] that b arenaD(5) [OF assms(1), of q] chain_area [OF assms(1) that]
    by (metis (full_types))
  then have "pchain mem' (ch q)" using pchain_cong arenaD(6) [OF assms(1)] by blast
  then show "distinct (ch q) \<and> set (ch q) = with_free as q - {b} \<and> pchain mem' (ch q) \<and> hs q = pnext (ch q)"
    using arenaD(4,5,7) [OF assms(1)] b by simp
qed (rule other_area(1) [OF assms(1,2,4)])

text \<open>Taking an area out of its chain: at the head, or after another area.\<close>

lemma arena_unlink:
  assumes "arena mem hs as ch" "as b = Some a" "ch q = bs @ b # cs"
  shows "arena (if bs = [] then mem else mem(4096 * last bs := mem (4096 * b)))
    (if bs = [] then hs(q := mem (4096 * b)) else hs) (as(b := None)) (ch(q := bs @ cs))"
proof (rule arena_delete [OF assms(1,2)])
  let ?mem = "if bs = [] then mem else mem(4096 * last bs := mem (4096 * b))"
  have d: "distinct (bs @ b # cs)" "pchain mem (bs @ b # cs)" "set (bs @ b # cs) = with_free as q"
    using arenaD(4,5,6) [OF assms(1), of q] assms(3) by simp_all
  have next': "mem (4096 * b) = pnext cs" using pchain_append [OF d(2)] by simp
  have last: "bs = butlast bs @ [last bs]" if "bs \<noteq> []" using that by simp
  have only: "last bs \<notin> with_free as r" if "bs \<noteq> []" "r \<noteq> q" for r
  proof -
    have "last bs \<in> set (ch q)" using that(1) assms(3) by simp
    then obtain x where "as (last bs) = Some x" "(kbucket x, kdma x) = q" using chain_area [OF assms(1)] by metis
    then show ?thesis using that(2) unfolding with_free_def by auto
  qed
  have bq: "b \<notin> with_free as r" if "r \<noteq> q" for r
  proof -
    have "b \<in> set (ch q)" using assms(3) by simp
    then obtain x where "as b = Some x" "(kbucket x, kdma x) = q" using chain_area [OF assms(1)] by metis
    then show ?thesis using that unfolding with_free_def by auto
  qed
  fix r
  show "distinct ((ch(q := bs @ cs)) r) \<and> set ((ch(q := bs @ cs)) r) = with_free as r - {b} \<and>
      pchain ?mem ((ch(q := bs @ cs)) r) \<and> (if bs = [] then hs(q := mem (4096 * b)) else hs) r = pnext ((ch(q := bs @ cs)) r)"
  proof (cases "r = q")
    case True
    have "pchain ?mem (bs @ cs)"
    proof (cases "bs = []")
      case True
      then show ?thesis using d(2) by simp
    next
      case False
      have e: "bs @ xs = butlast bs @ last bs # xs" for xs using last [OF False] by (metis append.assoc append_Cons append_Nil)
      show ?thesis
        using pchain_unlink [of mem "butlast bs" "last bs" b cs] d(1,2) False unfolding e [of cs] e [of "b # cs"] next' by simp
    qed
    moreover have "hs q = pnext (bs @ cs)" if "bs \<noteq> []"
      using that arenaD(7) [OF assms(1), of q] assms(3) by (cases bs) auto
    ultimately show ?thesis using True d(1,3) next' by auto
  next
    case False
    have "pchain ?mem (ch r)"
    proof (cases "bs = []")
      case True
      then show ?thesis using arenaD(6) [OF assms(1), of r] by simp
    next
      case nonempty: False
      have "last bs \<notin> set (ch r)" using only [OF nonempty False] arenaD(5) [OF assms(1), of r] by simp
      then have "pchain (mem(4096 * last bs := mem (4096 * b))) (ch r) = pchain mem (ch r)" by (intro pchain_cong) auto
      then show ?thesis using nonempty arenaD(6) [OF assms(1), of r] by simp
    qed
    then show ?thesis using False bq [OF False] arenaD(4,5,7) [OF assms(1), of r] by simp
  qed
next
  fix c a' assume c: "as c = Some a'" "c \<noteq> b"
  show "area_words (if bs = [] then mem else mem(4096 * last bs := mem (4096 * b))) c a'"
  proof (cases "bs = []")
    case True
    then show ?thesis using arenaD(3) [OF assms(1) c(1)] by simp
  next
    case False
    then have "last bs \<in> set (ch q)" using assms(3) by simp
    then obtain x where x: "as (last bs) = Some x" using chain_area [OF assms(1)] by metis
    have n: "NOT PAGE_MASK AND mem (4096 * b) = 0" using arenaD(3) [OF assms(1,2)] by (simp add: area_words_def)
    show ?thesis
    proof (cases "c = last bs")
      case True
      then show ?thesis using False area_next [OF arenaD(3) [OF assms(1) c(1)] n] by simp
    next
      case far: False
      have "area_words (mem(4096 * last bs := mem (4096 * b))) c a'"
      proof (rule other_area(1) [OF assms(1) x _ c(1) far])
        fix y assume "y < 4096 * last bs \<or> 4096 * last bs + AREASIZE (kbucket x) \<le> y"
        then show "(mem(4096 * last bs := mem (4096 * b))) y = mem y" using area_room(2) [OF assms(1) x] by auto
      qed
      then show ?thesis using False by simp
    qed
  qed
qed

text \<open>A new area, in front of an empty chain.\<close>

lemma arena_add:
  assumes "arena mem hs as ch" "as b = None" "ch q = []" "q = (kbucket a, kdma a)" "kfreed a \<noteq> []"
    and "spaced (as(b \<mapsto> a))" "area_shape a" "area_words mem' b a" "mem' (4096 * b) = 0"
    and "\<And>x. x < 4096 * b \<or> 4096 * b + AREASIZE (kbucket a) \<le> x \<Longrightarrow> mem' x = mem x"
  shows "arena mem' (hs(q := of_nat (4096 * b))) (as(b \<mapsto> a)) (ch(q := [b]))"
proof -
  have old: "area_words mem' c x" "mem' (4096 * c) = mem (4096 * c)" if c: "as c = Some x" for c x
  proof -
    have "c \<noteq> b" using c assms(2) by auto
    then have out: "mem' y = mem y" if "4096 * c \<le> y" "y < 4096 * c + AREASIZE (kbucket x)" for y
      using assms(10) [of y] spacedD [OF assms(6), of c x b a y] that c by auto
    show "area_words mem' c x" using area_words_cong [OF arenaD(2) [OF assms(1) c] out] arenaD(3) [OF assms(1) c] by simp
    show "mem' (4096 * c) = mem (4096 * c)" using out [of "4096 * c"] area_room(2) [OF assms(1) c] by simp
  qed
  have "area_shape x \<and> area_words mem' c x" if "(as(b \<mapsto> a)) c = Some x" for c x
    using that assms(7,8) old(1) arenaD(2) [OF assms(1)] by (cases "c = b") auto
  moreover have "distinct ((ch(q := [b])) r) \<and> set ((ch(q := [b])) r) = with_free (as(b \<mapsto> a)) r \<and>
      pchain mem' ((ch(q := [b])) r) \<and> (hs(q := of_nat (4096 * b))) r = pnext ((ch(q := [b])) r)" for r
  proof -
    have b: "b \<notin> with_free as r" using assms(2) unfolding with_free_def by auto
    have "pchain mem' (ch r)"
      using pchain_cong [of "ch r" mem' mem] old(2) chain_area [OF assms(1)] arenaD(6) [OF assms(1), of r] by metis
    then show ?thesis
      using arenaD(4,5,7) [OF assms(1), of r] assms(3,4,5,9) b unfolding with_free_upd by (cases "r = q") auto
  qed
  ultimately show ?thesis using assms(6) unfolding arena_def by blast
qed

end
