(* ===== verification/Kmalloc_Ops.thy ===== *)
theory Kmalloc_Ops
  imports Kmalloc_Inv
begin

text \<open>
  The operations of \<^verbatim>\<open>mm/kmalloc.c\<close> on the arena: \<^verbatim>\<open>kmalloc\<close> and \<^verbatim>\<open>kfree\<close> keep the invariant of the heap, and touch no
  word of a block that is in use by somebody else.
\<close>

section \<open>Pages in use\<close>

definition holds :: "mm \<Rightarrow> nat set \<Rightarrow> (nat \<times> nat) set \<Rightarrow> bool" where
  "holds m F S \<longleftrightarrow> (\<exists>H. set H = S \<and> leased m F H)"

lemma holds_get:
  assumes "holds m F S" "p = GFP_ATOMIC \<or> reclaim_ok r"
  shows "\<exists>a m' F'. get_free_pages r intr ra p k dma m = Some (a, m') \<and>
    (if a = 0 then holds m' F' S
     else \<exists>b. a = of_nat (4096 * b) \<and> (k, b) \<notin> S \<and> holds m' F' (insert (k, b) S))"
proof -
  obtain H where H: "set H = S" "leased m F H" using assms(1) by (auto simp: holds_def)
  obtain a m' F' where g: "get_free_pages r intr ra p k dma m = Some (a, m')"
    "if a = 0 then leased m' F' H
     else ADDRESS (MAP_NR a) = a \<and> block k (unat (MAP_NR a)) \<subseteq> F' \<and>
       leased m' (F' - block k (unat (MAP_NR a))) ((k, unat (MAP_NR a)) # H)"
    using get_free_pages_answered [OF H(2) assms(2), of intr ra k dma] unfolding answered_def by blast
  show ?thesis
  proof (cases "a = 0")
    case True
    then show ?thesis using g H(1) unfolding holds_def by auto
  next
    case False
    have o: "ADDRESS (MAP_NR a) = a" "leased m' (F' - block k (unat (MAP_NR a))) ((k, unat (MAP_NR a)) # H)" using g(2) False by simp_all
    have a: "a = of_nat (4096 * unat (MAP_NR a))" using o(1) by (simp add: ADDRESS_def push_bit_eq_mult mult.commute)
    have "apart ((k, unat (MAP_NR a)) # H)" using o(2) by (simp add: leased_def owned_def)
    from apart_distinct [OF this] have new: "(k, unat (MAP_NR a)) \<notin> S" using H(1) by simp
    have "holds m' (F' - block k (unat (MAP_NR a))) (insert (k, unat (MAP_NR a)) S)"
      unfolding holds_def using o(2) H(1) by (intro exI [of _ "(k, unat (MAP_NR a)) # H"]) simp
    with a new have "\<exists>b. a = of_nat (4096 * b) \<and> (k, b) \<notin> S \<and> holds m' (F' - block k (unat (MAP_NR a))) (insert (k, b) S)"
      by (intro exI conjI)
    with g(1) show ?thesis using False
      by (intro exI [of _ a] exI [of _ m'] exI [of _ "F' - block k (unat (MAP_NR a))"] conjI) (simp_all only: if_False)
  qed
qed

lemma holds_block:
  assumes "holds m F S" "(k, b) \<in> S"
  shows "0 < b" "4096 * b + 4096 * 2 ^ k \<le> 2 ^ 32" "k \<le> 5"
proof -
  obtain H where H: "set H = S" "owned m F H" using assms(1) by (auto simp: holds_def leased_def)
  then have "0 < b \<and> b + 2 ^ k \<le> 2 ^ 20 \<and> k \<le> 5"
    using assms(2) unfolding owned_def in_use_def pool_def by fastforce
  then show "0 < b" "4096 * b + 4096 * 2 ^ k \<le> 2 ^ 32" "k \<le> 5" by simp_all
qed

lemma holds_apart:
  assumes "holds m F S" "(k, b) \<in> S" "(j, c) \<in> S" "(k, b) \<noteq> (j, c)"
  shows "block k b \<inter> block j c = {}"
  using assms apart_disjoint unfolding holds_def leased_def owned_def by metis

lemma holds_start:
  assumes "holds m F S" "(k, b) \<in> S" "(j, b) \<in> S"
  shows "k = j"
proof (rule ccontr)
  assume "k \<noteq> j"
  then have "block k b \<inter> block j b = {}" using holds_apart [OF assms] by simp
  then show False using block_ne(2) [of b k] block_ne(2) [of b j] by blast
qed

lemma holds_put:
  assumes "holds m F S" "(k, b) \<in> S"
  shows "\<exists>m' F'. free_pages (of_nat (4096 * b)) k m = Some m' \<and> holds m' F' (S - {(k, b)})"
proof -
  obtain H where H: "set H = S" "leased m F H" using assms(1) by (auto simp: holds_def)
  have "0 < (2 :: nat) ^ k" by simp
  then have "4096 * b < 2 ^ 32" using holds_block(2) [OF assms] by linarith
  then have "unat (of_nat (4096 * b) :: u32) = 4096 * b" by (rule unat_of_nat_small)
  then have b: "unat (MAP_NR (of_nat (4096 * b))) = b"
    unfolding MAP_NR_def unat_drop_bit_eq by (simp add: drop_bit_eq_div del: of_nat_mult)
  have d: "distinct H" using H(2) by (simp add: leased_def owned_def apart_distinct)
  obtain m' where m': "free_pages (of_nat (4096 * b)) k m = Some m'" "leased m' (F \<union> block k b) (remove1 (k, b) H)"
    using free_pages_leased [OF H(2), of k "of_nat (4096 * b)"] assms(2) H(1) unfolding b by auto
  have "holds m' (F \<union> block k b) (S - {(k, b)})"
    unfolding holds_def using m'(2) H(1) d by (intro exI [of _ "remove1 (k, b) H"]) simp
  then show ?thesis using m'(1) by blast
qed

text \<open>A block may be taken for a single page; the rest of it is lost.\<close>

lemma holds_shrink:
  assumes "holds m F S" "(k, b) \<in> S"
  shows "holds m F (insert (0, b) (S - {(k, b)}))"
proof -
  obtain H where H: "set H = S" "owned m F H" "reclaimable m (F \<union> covered H)" using assms(1) by (auto simp: holds_def leased_def)
  have d: "distinct H" "apart H" using H(2) by (simp_all add: owned_def apart_distinct)
  let ?H = "(0, b) # remove1 (k, b) H"
  have sub: "block 0 b \<subseteq> block k b" by (auto simp: block_def)
  have "block 0 b \<inter> block j c = {}" if "(j, c) \<in> set H - {(k, b)}" for j c
    using apart_disjoint [OF d(2), of k b j c] that assms(2) H(1) sub by auto
  then have "apart ?H" using apart_remove1 [OF d(2)] d(1) by auto
  moreover have "in_use m F (0, b)"
  proof -
    have u: "in_use m F (k, b)" using H assms(2) by (simp add: owned_def)
    have "b + 1 \<le> b + 2 ^ k" by simp
    then have "b + 1 \<le> limit m" using u unfolding in_use_def prod.case by linarith
    then show ?thesis using u sub unfolding in_use_def prod.case by auto
  qed
  ultimately have "owned m F ?H" using H(2) d(1) unfolding owned_def by auto
  moreover have "reclaimable m (F \<union> covered ?H)"
  proof -
    have "covered ?H \<subseteq> covered H" using sub assms(2) H(1) notin_set_remove1 by (force simp: covered_def)
    then show ?thesis using H(3) by (auto simp: reclaimable_def)
  qed
  ultimately have "leased m F ?H" by (simp add: leased_def)
  then show ?thesis unfolding holds_def using H(1) d(1) by (intro exI [of _ ?H]) simp
qed

lemma holds_messages [simp]: "holds (m\<lparr>messages := x\<rparr>) F S = holds m F S"
  unfolding holds_def by (subst leased_cong [of _ m]) simp_all

section \<open>The invariant of the heap\<close>

definition heads :: "kheap \<Rightarrow> nat \<times> bool \<Rightarrow> u32" where
  "heads h = (\<lambda>(k, dma). if dma then dmafree h k else firstfree h k)"

definition kblocks :: "kghost \<Rightarrow> (nat \<times> nat) set" where
  "kblocks g = {(gfporder (kbucket a), b) |a b. kareas g b = Some a} \<union> {(k, b). kslot g k = Some b}"

definition kinv :: "kheap \<Rightarrow> kghost \<Rightarrow> (nat \<times> nat) set \<Rightarrow> bool" where
  "kinv h g X \<longleftrightarrow> arena (kmem h) (heads h) (kareas g) (kchain g) \<and>
     (\<forall>k. kmalloc_cache h k = (case kslot g k of None \<Rightarrow> 0 | Some b \<Rightarrow> of_nat (4096 * b))) \<and>
     (\<forall>k b. kslot g k = Some b \<longrightarrow> k < 3 \<and> kareas g b = None) \<and>
     kblocks g \<inter> X = {} \<and> (\<exists>F. holds (kpages h) F (kblocks g \<union> X))"

lemma AREASIZE_le: "AREASIZE k = 4096 * 2 ^ gfporder k"
  by (simp add: AREASIZE_def)

lemma holds_spaced:
  assumes "holds m F S" "\<And>b a. as b = Some a \<Longrightarrow> (gfporder (kbucket a), b) \<in> S"
  shows "spaced as"
  unfolding spaced_def
proof (intro allI impI conjI)
  fix b a assume b: "as b = Some a"
  note in_b = assms(2) [OF b]
  show "0 < b" using holds_block(1) [OF assms(1) in_b] .
  show "4096 * b + AREASIZE (kbucket a) \<le> 2 ^ 32" using holds_block(2) [OF assms(1) in_b] unfolding AREASIZE_le by linarith
  fix c a' assume c: "as c = Some a'" "b < c"
  have "block (gfporder (kbucket a)) b \<inter> block (gfporder (kbucket a')) c = {}"
    using holds_apart [OF assms(1) in_b assms(2) [OF c(1)]] c(2) by auto
  then have "c \<notin> block (gfporder (kbucket a)) b" by auto
  then have "b + 2 ^ gfporder (kbucket a) \<le> c" using c(2) by (simp add: block_def)
  then show "4096 * b + AREASIZE (kbucket a) \<le> 4096 * c" unfolding AREASIZE_le by linarith
qed

text \<open>The words of blocks in use, without their headers; and the live objects with their sizes.\<close>

definition payload :: "(nat \<Rightarrow> karea option) \<Rightarrow> nat set" where
  "payload as = {x. \<exists>b a i. as b = Some a \<and> i \<in> dom (kused a) \<and>
     blk (kbucket a) b i + 8 \<le> x \<and> x < blk (kbucket a) b i + BLOCKSIZE (kbucket a)}"

definition objs :: "kghost \<Rightarrow> (u32 \<times> u32) set" where
  "objs g = {(of_nat (blk (kbucket a) b i + 8), n) |a b i n. kareas g b = Some a \<and> kused a i = Some n}"

lemma payload_meta:
  assumes "arena mem hs as ch" "x \<in> payload as" "as c = Some a'"
  shows "x \<noteq> 4096 * c" "x \<noteq> 4096 * c + 4" "x \<noteq> 4096 * c + 8" "x \<noteq> 4096 * c + 12"
    "j < NBLOCKS (kbucket a') \<Longrightarrow> x \<noteq> blk (kbucket a') c j" "j < NBLOCKS (kbucket a') \<Longrightarrow> x \<noteq> blk (kbucket a') c j + 4"
proof -
  obtain b a i where b: "as b = Some a" "i \<in> dom (kused a)"
    "blk (kbucket a) b i + 8 \<le> x" "x < blk (kbucket a) b i + BLOCKSIZE (kbucket a)"
    using assms(2) by (auto simp: payload_def)
  have k: "kbucket a < 13" "i < NBLOCKS (kbucket a)" using area_cells(1,2) [OF arenaD(2) [OF assms(1) b(1)], of i] b(2) by auto
  have lo: "4096 * b + 24 \<le> x" and hi: "x < 4096 * b + AREASIZE (kbucket a)"
    using blk_room [OF k, of b] b(3,4) by linarith+
  have k': "kbucket a' < 13" using area_room(1) [OF assms(1,3)] .
  have out: "\<not> (4096 * c \<le> x \<and> x < 4096 * c + AREASIZE (kbucket a'))" if "c \<noteq> b"
    using spacedD [OF arenaD(1) [OF assms(1)] b(1) assms(3) that [symmetric] _ hi] lo by simp
  have size: "48 \<le> AREASIZE (kbucket a')" using area_size [OF k'] .
  show "x \<noteq> 4096 * c" "x \<noteq> 4096 * c + 4" "x \<noteq> 4096 * c + 8" "x \<noteq> 4096 * c + 12"
    using lo out size by (cases "c = b"; auto)+
  assume j: "j < NBLOCKS (kbucket a')"
  have "x \<noteq> blk (kbucket a') c j \<and> x \<noteq> blk (kbucket a') c j + 4"
  proof (cases "c = b")
    case True
    then have "a' = a" using b(1) assms(3) by simp
    then show ?thesis
      using True b(3,4) blk_less [of i j "kbucket a" b] blk_less [of j i "kbucket a" b] sizes_table(1) [OF k(1)]
      by (cases i j rule: linorder_cases) auto
  next
    case False
    then show ?thesis using out [OF False] blk_room [OF k' j, of c] by auto
  qed
  then show "x \<noteq> blk (kbucket a') c j" "x \<noteq> blk (kbucket a') c j + 4" by simp_all
qed

lemma arena_store:
  assumes "arena mem hs as ch" "x \<in> payload as"
  shows "arena (mem(x := v)) hs as ch"
proof -
  have "area_words (mem(x := v)) b a" if "as b = Some a" for b a
  proof -
    have sh: "area_shape a" and w: "area_words mem b a" using arenaD [OF assms(1)] that by auto
    have c: "x \<noteq> blk (kbucket a) b i" "x \<noteq> blk (kbucket a) b i + 4" if "i \<in> set (kfreed a) \<union> dom (kused a)" for i
      using payload_meta(5,6) [OF assms \<open>as b = Some a\<close>] area_cells(2) [OF sh that] by auto
    have "fchain (mem(x := v)) (kbucket a) b (kfreed a) = fchain mem (kbucket a) b (kfreed a)"
      by (rule fchain_cong) (use c in force)
    moreover have "kused a i = Some n \<Longrightarrow> blk (kbucket a) b i \<noteq> x \<and> blk (kbucket a) b i + 4 \<noteq> x" for i n
      using c [of i] by force
    ultimately show ?thesis
      using w payload_meta(1-4) [OF assms that] unfolding area_words_def by simp
  qed
  moreover have "pchain (mem(x := v)) (ch q)" for q
  proof -
    have "(mem(x := v)) (4096 * b) = mem (4096 * b)" if "b \<in> set (ch q)" for b
      using chain_area [OF assms(1) that] payload_meta(1) [OF assms] by (metis fun_upd_other)
    then show ?thesis using pchain_cong arenaD(6) [OF assms(1)] by blast
  qed
  ultimately show ?thesis using assms(1) unfolding arena_def by blast
qed

section \<open>Taking a block\<close>

lemma unat_add_small: "unat a + n < 2 ^ 32 \<Longrightarrow> unat (a + of_nat n :: u32) = unat a + n"
proof -
  assume l: "unat a + n < 2 ^ 32"
  then have "unat (of_nat n :: u32) = n" by (intro unat_of_nat_small) linarith
  then show ?thesis using l unat_add_lem [of a "of_nat n"] by simp
qed

lemma page_fields:
  assumes "unat page + 16 \<le> 2 ^ 32"
  shows "unat (pd_next page) = unat page" "unat (pd_firstfree page) = unat page + 4"
    "unat (pd_order page) = unat page + 8" "unat (pd_nfree page) = unat page + 12"
  using assms unat_add_small [of page 4] unat_add_small [of page 8] unat_add_small [of page 12]
  by (simp_all add: field_defs)

lemma block_fields:
  assumes "unat p + 8 \<le> 2 ^ 32"
  shows "unat (bh_flags p) = unat p" "unat (bh_next p) = unat p + 4" "unat (bh_length p) = unat p + 4"
  using assms unat_add_small [of p 4] by (simp_all add: field_defs)

definition pg_of :: "nat \<times> bool \<Rightarrow> pgref" where
  "pg_of = (\<lambda>(k, dma). if dma then Dmafree k else Firstfree k)"

lemma get_pg_of: "get_pg (pg_of q) h = heads h q"
  by (cases q) (simp add: pg_of_def heads_def)

lemma set_pg_of:
  "heads (set_pg (pg_of q) v h) = (heads h)(q := v)" "kmem (set_pg (pg_of q) v h) = kmem h"
  "kpages (set_pg (pg_of q) v h) = kpages h" "kmalloc_cache (set_pg (pg_of q) v h) = kmalloc_cache h"
  by (cases q; auto simp: pg_of_def heads_def fun_eq_iff)+

lemma ld_st: "kmem (st a v h) = (kmem h)(unat a := v)" "heads (st a v h) = heads h" "kpages (st a v h) = kpages h"
    "kmalloc_cache (st a v h) = kmalloc_cache h"
  by (simp_all add: st_def heads_def fun_eq_iff)

lemma heads_upd [simp]:
  "heads (h\<lparr>nmallocs := x\<rparr>) = heads h" "heads (h\<lparr>nfrees := x\<rparr>) = heads h" "heads (h\<lparr>nbytesmalloced := x\<rparr>) = heads h"
  "heads (h\<lparr>npages := x\<rparr>) = heads h" "heads (h\<lparr>kmalloc_cache := y\<rparr>) = heads h" "heads (h\<lparr>kcount := z\<rparr>) = heads h"
  "heads (h\<lparr>klast := w\<rparr>) = heads h" "heads (h\<lparr>kpages := m\<rparr>) = heads h" "heads (h\<lparr>kmem := e\<rparr>) = heads h"
  by (simp_all add: heads_def fun_eq_iff)

lemma found_it_effect:
  fixes k :: nat and q :: "nat \<times> bool" and type sz page p :: u32 and h :: kheap
  assumes "unat page + 16 \<le> unat p" "unat p + 8 \<le> 2 ^ 32"
  defines "h' \<equiv> snd (found_it k (pg_of q) type sz page p h)" and "m \<equiv> kmem h" and "P \<equiv> unat page"
  shows "fst (found_it k (pg_of q) type sz page p h) = p + 8"
    and "kmem h' = m(P + 4 := m (unat p + 4), P + 12 := m (P + 12) - 1, unat p := type, unat p + 4 := sz)"
    and "heads h' = (if m (P + 12) - 1 = 0 then (heads h)(q := m P) else heads h)"
    and "kpages h' = kpages h" "kmalloc_cache h' = kmalloc_cache h"
proof -
  have f: "unat page + 16 \<le> 2 ^ 32" using assms(1,2) by linarith
  note fields = page_fields [OF f] block_fields [OF assms(2)]
  show "fst (found_it k (pg_of q) type sz page p h) = p + 8" by (simp add: found_it_def Let_def)
  show "kmem h' = m(P + 4 := m (unat p + 4), P + 12 := m (P + 12) - 1, unat p := type, unat p + 4 := sz)"
    unfolding h'_def m_def P_def by (simp add: found_it_def Let_def ld_def ld_st set_pg_of fields)
  show "heads h' = (if m (P + 12) - 1 = 0 then (heads h)(q := m P) else heads h)"
    unfolding h'_def m_def P_def by (simp add: found_it_def Let_def ld_def ld_st set_pg_of fields)
  show "kpages h' = kpages h" "kmalloc_cache h' = kmalloc_cache h"
    unfolding h'_def by (simp_all add: found_it_def Let_def ld_def ld_st set_pg_of fields)
qed

lemma block_inj:
  assumes "arena mem hs as ch" "as b = Some a" "as c = Some a'" "i < NBLOCKS (kbucket a)" "j < NBLOCKS (kbucket a')"
    "blk (kbucket a) b i = blk (kbucket a') c j"
  shows "b = c \<and> i = j"
proof -
  note k = area_room(1) [OF assms(1,2)] area_room(1) [OF assms(1,3)]
  have "b = c"
  proof (rule ccontr)
    assume "b \<noteq> c"
    then show False
      using spacedD [OF arenaD(1) [OF assms(1)] assms(2,3), of "blk (kbucket a) b i"]
        blk_room [OF k(1) assms(4), of b] blk_room [OF k(2) assms(5), of c] assms(6) by linarith
  qed
  moreover have "a' = a" using assms(2,3) calculation by simp
  ultimately show ?thesis using blk_apart [OF k(1), of i j b] assms(6) by fastforce
qed

lemma block_ptr:
  assumes "arena mem hs as ch" "as b = Some a" "i < NBLOCKS (kbucket a)"
  shows "unat (of_nat (4096 * b) :: u32) = 4096 * b" "4096 * b + 16 \<le> 2 ^ 32"
    "unat (of_nat (blk (kbucket a) b i) :: u32) = blk (kbucket a) b i" "blk (kbucket a) b i + 32 \<le> 2 ^ 32"
    "4096 * b + 16 \<le> blk (kbucket a) b i"
proof -
  note k = area_room [OF assms(1,2)]
  note r = blk_room [OF k(1) assms(3), of b]
  show "4096 * b + 16 \<le> 2 ^ 32" "blk (kbucket a) b i + 32 \<le> 2 ^ 32" "4096 * b + 16 \<le> blk (kbucket a) b i" using k r by linarith+
  then show "unat (of_nat (4096 * b) :: u32) = 4096 * b" "unat (of_nat (blk (kbucket a) b i) :: u32) = blk (kbucket a) b i"
    by (intro unat_of_nat_small; linarith)+
qed

lemma objs_ptr:
  assumes "arena mem hs (kareas g) ch" "(q, n) \<in> objs g"
  obtains b a i where "kareas g b = Some a" "kused a i = Some n" "i < NBLOCKS (kbucket a)" "unat q = blk (kbucket a) b i + 8"
    "unat n + 8 \<le> BLOCKSIZE (kbucket a)"
proof -
  obtain b a i where b: "kareas g b = Some a" "kused a i = Some n" "q = of_nat (blk (kbucket a) b i + 8)"
    using assms(2) by (auto simp: objs_def)
  have sh: "area_shape a" using arenaD(2) [OF assms(1) b(1)] .
  have i: "i < NBLOCKS (kbucket a)" using area_cells(2) [OF sh, of i] b(2) by auto
  have "blk (kbucket a) b i + 8 < 2 ^ 32" using block_ptr(4) [OF assms(1) b(1) i] by linarith
  then have "unat q = blk (kbucket a) b i + 8" unfolding b(3) by (rule unat_of_nat_small)
  moreover have "unat n + 8 \<le> BLOCKSIZE (kbucket a)" using sh b(2) by (simp add: area_shape_def)
  ultimately show thesis using that b(1,2) i by blast
qed

lemma kblocks_same:
  assumes "kareas g b = Some a" "kbucket a' = kbucket a" "kslot g' = kslot g" "kareas g' = (kareas g)(b \<mapsto> a')"
  shows "kblocks g' = kblocks g"
proof -
  have "{(gfporder (kbucket a), b) |a b. kareas g' b = Some a} = {(gfporder (kbucket a), b) |a b. kareas g b = Some a}"
    using assms(1,2) unfolding assms(4) by (auto split: if_splits) (metis option.inject)
  then show ?thesis unfolding kblocks_def assms(3) by simp
qed

lemma objsI:
  "kareas g b = Some a \<Longrightarrow> kused a i = Some n \<Longrightarrow> kbucket a = k \<Longrightarrow> (of_nat (blk k b i + 8), n) \<in> objs g"
  unfolding objs_def by blast

lemma objs_use:
  assumes "kareas g b = Some a" "kused a i = None" "kareas g' = (kareas g)(b \<mapsto> a\<lparr>kfreed := is, kused := (kused a)(i \<mapsto> n)\<rparr>)"
  shows "objs g' = insert (of_nat (blk (kbucket a) b i + 8), n) (objs g)"
proof (intro set_eqI iffI)
  let ?a = "a\<lparr>kfreed := is, kused := (kused a)(i \<mapsto> n)\<rparr>"
  fix z
  {
    assume "z \<in> objs g'"
    then obtain c x j v where z: "z = (of_nat (blk (kbucket x) c j + 8), v)" "kareas g' c = Some x" "kused x j = Some v"
      by (auto simp: objs_def)
    show "z \<in> insert (of_nat (blk (kbucket a) b i + 8), n) (objs g)"
    proof (cases "c = b \<and> j = i")
      case True
      then have "x = ?a" using z(2) assms(3) by simp
      then show ?thesis using True z(1,3) by simp
    next
      case False
      then have "kareas g c = Some (if c = b then a else x)" "kused (if c = b then a else x) j = Some v" "kbucket (if c = b then a else x) = kbucket x"
        using z(2,3) assms(1,3) by (auto split: if_splits)
      then show ?thesis unfolding z(1) by (intro insertI2 objsI)
    qed
  }
  {
    assume "z \<in> insert (of_nat (blk (kbucket a) b i + 8), n) (objs g)"
    then consider "z = (of_nat (blk (kbucket a) b i + 8), n)"
      | c x j v where "z = (of_nat (blk (kbucket x) c j + 8), v)" "kareas g c = Some x" "kused x j = Some v"
      by (auto simp: objs_def)
    then show "z \<in> objs g'"
    proof cases
      case 1
      have "kareas g' b = Some ?a" "kused ?a i = Some n" "kbucket ?a = kbucket a" by (simp_all add: assms(3))
      then show ?thesis unfolding 1 by (rule objsI)
    next
      case 2
      have "kareas g' c = Some (if c = b then ?a else x)" "kused (if c = b then ?a else x) j = Some v"
        "kbucket (if c = b then ?a else x) = kbucket x"
        using 2(2,3) assms by auto
      then show ?thesis unfolding 2(1) by (rule objsI)
    qed
  }
qed

lemma area_len:
  assumes "area_shape a"
  shows "length (kfreed a) \<le> NBLOCKS (kbucket a)" "unat (of_nat (length (kfreed a)) :: u32) = length (kfreed a)"
proof -
  show l: "length (kfreed a) \<le> NBLOCKS (kbucket a)"
    using assms distinct_card [of "kfreed a"] card_mono [of "{..<NBLOCKS (kbucket a)}" "set (kfreed a)"] by (auto simp: area_shape_def)
  show "unat (of_nat (length (kfreed a)) :: u32) = length (kfreed a)"
    using l sizes_table(5) [of "kbucket a"] assms by (intro unat_of_nat_small) (simp add: area_shape_def)
qed

lemma kinv_pop:
  assumes "kinv h g X" "kchain g (k, dma) = b # bs" "unat n + 8 \<le> BLOCKSIZE k"
  defines "page \<equiv> of_nat (4096 * b)" and "p \<equiv> ld (pd_firstfree (of_nat (4096 * b))) h"
  defines "r \<equiv> found_it k (pg_of (k, dma)) (mf_type dma) n page p h"
  shows "page \<noteq> 0" "ld (bh_flags p) h = MF_FREE" "fst r \<noteq> 0"
    "\<exists>g'. kinv (snd r) g' X \<and> objs g' = insert (fst r, n) (objs g) \<and> fst r \<notin> fst ` objs g \<and>
       (\<forall>x\<in>payload (kareas g). kmem (snd r) x = kmem h x) \<and>
       (\<exists>a. kareas g b = Some a \<and> (\<exists>a'. kareas g' = (kareas g)(b \<mapsto> a') \<and> dom (kused a') \<noteq> {})) \<and> kslot g' = kslot g"
proof -
  have ar: "arena (kmem h) (heads h) (kareas g) (kchain g)" using assms(1) by (simp add: kinv_def)
  obtain a where a: "kareas g b = Some a" "kbucket a = k" "kdma a = dma" "kfreed a \<noteq> []"
    using chain_area [OF ar, of b "(k, dma)"] assms(2) by auto
  obtain i "is" where fl: "kfreed a = i # is" using a(4) by (cases "kfreed a") auto
  have sh: "area_shape a" and w: "area_words (kmem h) b a" using arenaD [OF ar] a(1) by auto
  have i: "i < NBLOCKS (kbucket a)" "kused a i = None" using sh fl by (auto simp: area_shape_def)
  note ptr = block_ptr [OF ar a(1) i(1)]
  have up: "unat page = 4096 * b" using ptr(1) by (simp add: page_def)
  have pf: "unat (pd_firstfree page) = 4096 * b + 4" using page_fields(2) [of page] ptr(2) up by simp
  have p: "p = of_nat (blk k b i)" using w fl pf unfolding p_def page_def [symmetric] by (simp add: ld_def area_words_def flink_def a(2))
  have unat_p: "unat p = blk k b i" using ptr(3) by (simp add: p a(2))
  show "page \<noteq> 0" using up area_room(4) [OF ar a(1)] by auto
  have bf: "unat (bh_flags p) = blk k b i" using block_fields(1) [of p] ptr(4) unat_p by (simp add: a(2))
  show "ld (bh_flags p) h = MF_FREE" using w fl by (simp add: ld_def bf area_words_def a(2))
  have eff: "fst r = p + 8" "kmem (snd r) = (kmem h)(4096 * b + 4 := kmem h (blk k b i + 4), 4096 * b + 12 := kmem h (4096 * b + 12) - 1,
      blk k b i := mf_type dma, blk k b i + 4 := n)"
    "heads (snd r) = (if kmem h (4096 * b + 12) - 1 = 0 then (heads h)((k, dma) := kmem h (4096 * b)) else heads h)"
    "kpages (snd r) = kpages h" "kmalloc_cache (snd r) = kmalloc_cache h"
    using found_it_effect [of page p k "(k, dma)" "mf_type dma" n h] ptr(4,5) unfolding up unat_p r_def a(2) by simp_all
  have nf: "kmem h (4096 * b + 12) - 1 = of_nat (length is)" using w fl by (simp add: area_words_def)
  have "unat (of_nat (length is) :: u32) = length is"
    using area_len [OF sh] sizes_table(5) [of k] sh unfolding fl by (intro unat_of_nat_small) (simp add: area_shape_def a(2))
  then have zero: "(of_nat (length is) :: u32) = 0 \<longleftrightarrow> is = []" by force
  have nx: "kmem h (blk k b i + 4) = flink k b is" using w fl by (simp add: area_words_def a(2))
  define a' where "a' = a\<lparr>kfreed := is, kused := (kused a)(i \<mapsto> n)\<rparr>"
  define g' where "g' = g\<lparr>kareas := (kareas g)(b \<mapsto> a'), kchain := (if is = [] then (kchain g)((k, dma) := bs) else kchain g)\<rparr>"
  have "arena (kmem (snd r)) (heads (snd r)) (kareas g') (kchain g')"
    using arena_pop [OF ar assms(2) a(1) fl, of n] assms(3) a'_def
    unfolding eff(2,3) nf zero nx g'_def by (simp add: a(2,3))
  moreover have kb: "kblocks g' = kblocks g" by (rule kblocks_same [of g b a a']) (simp_all add: g'_def a'_def a(1))
  ultimately have inv: "kinv (snd r) g' X"
    using assms(1) a(1) unfolding kinv_def eff(4,5) kb by (auto simp: g'_def)
  have objs: "objs g' = insert (fst r, n) (objs g)"
    using objs_use [OF a(1) i(2), of g' n "is"] by (simp add: g'_def a'_def eff(1) p a(2))
  have ur: "unat (fst r) = blk k b i + 8" using unat_add_small [of p 8] ptr(4) unat_p by (simp add: eff(1) a(2))
  then show "fst r \<noteq> 0" by auto
  have fresh: "fst r \<notin> fst ` objs g"
  proof
    assume "fst r \<in> fst ` objs g"
    then obtain v where "(fst r, v) \<in> objs g" by force
    then obtain c x j where c: "kareas g c = Some x" "kused x j = Some v" "j < NBLOCKS (kbucket x)" "unat (fst r) = blk (kbucket x) c j + 8"
      using objs_ptr [OF ar] by metis
    then have "b = c \<and> i = j" using block_inj [OF ar a(1) c(1) i(1) c(3)] ur by (simp add: a(2))
    then show False using c(1,2) a(1) i(2) by simp
  qed
  have keep: "kmem (snd r) x = kmem h x" if "x \<in> payload (kareas g)" for x
    using payload_meta(2,4) [OF ar that a(1)] payload_meta(5,6) [OF ar that a(1) i(1)] unfolding eff(2) by (simp add: a(2))
  have "dom (kused a') \<noteq> {}" by (simp add: a'_def)
  then show "\<exists>g'. kinv (snd r) g' X \<and> objs g' = insert (fst r, n) (objs g) \<and> fst r \<notin> fst ` objs g \<and>
       (\<forall>x\<in>payload (kareas g). kmem (snd r) x = kmem h x) \<and>
       (\<exists>a. kareas g b = Some a \<and> (\<exists>a'. kareas g' = (kareas g)(b \<mapsto> a') \<and> dom (kused a') \<noteq> {})) \<and> kslot g' = kslot g"
    using inv objs fresh keep a(1) by (intro exI [of _ g']) (auto simp: g'_def)
qed

section \<open>Cutting up a new page\<close>

lemma carve_effect:
  assumes "x + n * s + 8 \<le> 2 ^ 32" "8 \<le> s"
  shows "\<exists>h'. carve n (of_nat s) (of_nat x) h = (of_nat (x + n * s), h') \<and> heads h' = heads h \<and> kpages h' = kpages h \<and>
    kmalloc_cache h' = kmalloc_cache h \<and>
    (\<forall>i<n. kmem h' (x + i * s) = MF_FREE \<and> kmem h' (x + i * s + 4) = of_nat (x + Suc i * s)) \<and>
    (\<forall>y. y < x \<or> x + n * s \<le> y \<longrightarrow> kmem h' y = kmem h y)"
  using assms(1)
proof (induction n arbitrary: x h)
  case (Suc n)
  have ux: "unat (of_nat x :: u32) = x" using Suc.prems by (intro unat_of_nat_small) linarith
  define h1 where "h1 = st (bh_next (of_nat x)) (of_nat x + of_nat s) (st (bh_flags (of_nat x)) MF_FREE h)"
  have f: "unat (bh_flags (of_nat x)) = x" "unat (bh_next (of_nat x)) = x + 4"
    using block_fields [of "of_nat x"] Suc.prems ux by simp_all
  have m1: "kmem h1 = (kmem h)(x := MF_FREE, x + 4 := of_nat (x + s))" by (simp add: h1_def ld_st f)
  have "carve (Suc n) (of_nat s) (of_nat x) h = carve n (of_nat s) (of_nat (x + s)) h1"
    by (simp add: Let_def h1_def ld_def ld_st f)
  moreover have "x + s + n * s + 8 \<le> 2 ^ 32" using Suc.prems by simp
  from Suc.IH [OF this, of h1] obtain h' where h': "carve n (of_nat s) (of_nat (x + s)) h1 = (of_nat (x + s + n * s), h')"
    "heads h' = heads h1" "kpages h' = kpages h1" "kmalloc_cache h' = kmalloc_cache h1"
    "\<And>i. i < n \<Longrightarrow> kmem h' (x + s + i * s) = MF_FREE \<and> kmem h' (x + s + i * s + 4) = of_nat (x + s + Suc i * s)"
    "\<And>y. y < x + s \<or> x + s + n * s \<le> y \<Longrightarrow> kmem h' y = kmem h1 y"
    by blast
  moreover have "kmem h' (x + i * s) = MF_FREE \<and> kmem h' (x + i * s + 4) = of_nat (x + Suc i * s)" if "i < Suc n" for i
  proof (cases i)
    case 0
    then show ?thesis using h'(6) [of x] h'(6) [of "x + 4"] assms(2) m1 by simp
  next
    case (Suc j)
    then show ?thesis using h'(5) [of j] that by (simp add: algebra_simps)
  qed
  moreover have "kmem h' y = kmem h y" if "y < x \<or> x + Suc n * s \<le> y" for y
    using h'(6) [of y] that assms(2) m1 by (auto simp: algebra_simps)
  moreover have "x + s + n * s = x + Suc n * s" by simp
  moreover have "heads h1 = heads h" "kpages h1 = kpages h" "kmalloc_cache h1 = kmalloc_cache h" by (simp_all add: h1_def ld_st)
  ultimately show ?case
    by (intro exI [of _ h'] conjI allI impI) (metis, metis, metis, metis, blast, blast, blast)
qed simp

lemma fchain_upt:
  "(\<And>j. i \<le> j \<Longrightarrow> j < n \<Longrightarrow> mem (blk k b j) = MF_FREE \<and> mem (blk k b j + 4) = (if Suc j < n then of_nat (blk k b (Suc j)) else 0)) \<Longrightarrow>
     fchain mem k b [i..<n]"
proof (induction "n - i" arbitrary: i)
  case (Suc d)
  then have i: "i < n" by simp
  have "flink k b [Suc i..<n] = (if Suc i < n then of_nat (blk k b (Suc i)) else 0)"
    by (cases "Suc i < n") (simp_all add: flink_def upt_conv_Cons)
  then show ?case using Suc i by (simp add: upt_conv_Cons)
qed simp

definition fresh_area :: "nat \<Rightarrow> bool \<Rightarrow> karea" where
  "fresh_area k dma = \<lparr>kbucket = k, kdma = dma, kfreed = [0..<NBLOCKS k], kused = (\<lambda>_. None)\<rparr>"

lemma fresh_shape: "k < 13 \<Longrightarrow> area_shape (fresh_area k dma)"
  by (auto simp: area_shape_def fresh_area_def)

lemma found_cached_page_effect:
  assumes "k < 13" "4096 * b + AREASIZE k \<le> 2 ^ 32" "heads h (k, dma) = 0"
  defines "r \<equiv> found_cached_page k (pg_of (k, dma)) (of_nat (4096 * b)) h"
  shows "fst r = of_nat (4096 * b) + 16" "area_words ((kmem (snd r))(4096 * b + 4 := of_nat (4096 * b + 16))) b (fresh_area k dma)"
    "kmem (snd r) (4096 * b) = 0"
    "heads (snd r) = (heads h)((k, dma) := of_nat (4096 * b))" "kpages (snd r) = kpages h"
    "kmalloc_cache (snd r) = kmalloc_cache h"
    "x < 4096 * b \<or> 4096 * b + AREASIZE k \<le> x \<Longrightarrow> kmem (snd r) x = kmem h x"
proof -
  let ?P = "4096 * b" and ?n = "NBLOCKS k - 1" and ?s = "BLOCKSIZE k" and ?page = "of_nat (4096 * b) :: u32"
  note t = sizes_table [OF assms(1)]
  have up: "unat ?page = ?P" using assms(2) area_size [OF assms(1)] by (intro unat_of_nat_small) linarith
  have room: "?P + 16 + ?n * ?s + ?s \<le> ?P + AREASIZE k" using t(4,6) by (cases "NBLOCKS k") (auto simp: algebra_simps)
  have room': "?P + 16 + ?n * ?s + 8 \<le> 2 ^ 32" using room t(1) assms(2) by linarith
  note pf = page_fields [of ?page, unfolded up]
  have pf': "unat (pd_next ?page) = ?P" "unat (pd_firstfree ?page) = ?P + 4" "unat (pd_order ?page) = ?P + 8" "unat (pd_nfree ?page) = ?P + 12"
    using pf room' by simp_all
  define h1 where "h1 = st (pd_nfree ?page) (of_nat (NBLOCKS k)) (st (pd_order ?page) (of_nat k) (h\<lparr>npages := (npages h)(k := npages h k + 1)\<rparr>))"
  have "8 \<le> ?s" using t(1) by simp
  from carve_effect [OF room' this, of h1] obtain h2 where h2:
    "carve ?n (of_nat ?s) (of_nat (?P + 16)) h1 = (of_nat (?P + 16 + ?n * ?s), h2)" "heads h2 = heads h1" "kpages h2 = kpages h1"
    "kmalloc_cache h2 = kmalloc_cache h1"
    "\<And>i. i < ?n \<Longrightarrow> kmem h2 (?P + 16 + i * ?s) = MF_FREE \<and> kmem h2 (?P + 16 + i * ?s + 4) = of_nat (?P + 16 + Suc i * ?s)"
    "\<And>y. y < ?P + 16 \<or> ?P + 16 + ?n * ?s \<le> y \<Longrightarrow> kmem h2 y = kmem h1 y"
    by blast
  let ?Q = "?P + 16 + ?n * ?s"
  define h3 where "h3 = st (bh_next (of_nat ?Q)) 0 (st (bh_flags (of_nat ?Q)) MF_FREE h2)"
  have uQ: "unat (of_nat ?Q :: u32) = ?Q" using room' by (intro unat_of_nat_small) linarith
  have bf: "unat (bh_flags (of_nat ?Q)) = ?Q" "unat (bh_next (of_nat ?Q)) = ?Q + 4"
    using block_fields [of "of_nat ?Q"] room' unfolding uQ by blast+
  have p16: "?page + 16 = of_nat (?P + 16)" by simp
  have r: "r = (?page + 16, set_pg (pg_of (k, dma)) ?page (st (pd_next ?page) (get_pg (pg_of (k, dma)) h3) h3))"
    unfolding r_def found_cached_page_def Let_def h1_def [symmetric] p16 h2(1) prod.case h3_def [symmetric] ..
  have hs: "heads h3 = heads h" "kpages h3 = kpages h" "kmalloc_cache h3 = kmalloc_cache h"
    by (simp_all add: h3_def ld_st h2(2-4) h1_def)
  have m3: "kmem (snd r) = (kmem h2)(?Q := MF_FREE, ?Q + 4 := 0, ?P := 0)"
  proof -
    have "get_pg (pg_of (k, dma)) h3 = 0" by (simp add: get_pg_of hs assms(3))
    moreover have "kmem h3 = (kmem h2)(?Q := MF_FREE, ?Q + 4 := 0)" by (simp only: h3_def ld_st bf)
    ultimately show ?thesis unfolding r snd_conv set_pg_of ld_st pf'(1) by (simp only:)
  qed
  have m1: "kmem h1 = (kmem h)(?P + 8 := of_nat k, ?P + 12 := of_nat (NBLOCKS k))"
    unfolding h1_def ld_st pf' by simp
  show "fst r = of_nat ?P + 16" by (simp add: r)
  show zero: "kmem (snd r) ?P = 0" by (simp add: m3)
  show "heads (snd r) = (heads h)((k, dma) := of_nat ?P)" "kpages (snd r) = kpages h" "kmalloc_cache (snd r) = kmalloc_cache h"
    unfolding r snd_conv set_pg_of ld_st hs by (rule refl)+
  show "kmem (snd r) x = kmem h x" if "x < ?P \<or> ?P + AREASIZE k \<le> x" for x
    using that h2(6) [of x] room t(1) area_size [OF assms(1)] unfolding m3 m1 by (auto simp del: One_nat_def)
  have bQ: "?Q = blk k b ?n" by (simp add: blk_def)
  have fc: "kmem (snd r) (blk k b j) = MF_FREE \<and> kmem (snd r) (blk k b j + 4) = (if Suc j < NBLOCKS k then of_nat (blk k b (Suc j)) else 0)"
    if j: "j < NBLOCKS k" for j
  proof (cases "j = ?n")
    case True
    then show ?thesis using j unfolding m3 bQ by (auto simp: blk_def)
  next
    case False
    then have l: "j < ?n" using j by simp
    then have "blk k b j + 32 \<le> ?Q" using blk_less [OF l, of k b] t(1) bQ by linarith
    then show ?thesis using h2(5) [OF l] l unfolding m3 by (auto simp: blk_def)
  qed
  let ?mem = "(kmem (snd r))(?P + 4 := of_nat (?P + 16))"
  have "?mem (blk k b j) = kmem (snd r) (blk k b j) \<and> ?mem (blk k b j + 4) = kmem (snd r) (blk k b j + 4)" for j by (simp add: blk_def)
  then have "fchain ?mem k b [0..<NBLOCKS k]" using fc by (intro fchain_upt) metis
  moreover have "flink k b [0..<NBLOCKS k] = of_nat (?P + 16)" using t(4) by (simp add: flink_def upt_conv_Cons blk_def)
  moreover have "kmem (snd r) (?P + 8) = of_nat k" "kmem (snd r) (?P + 12) = of_nat (NBLOCKS k)"
    using h2(6) [of "?P + 8"] h2(6) [of "?P + 12"] unfolding m3 m1 by (simp_all del: One_nat_def)
  ultimately show "area_words ?mem b (fresh_area k dma)" using zero unfolding area_words_def fresh_area_def by simp
qed

lemma found_it_firstfree:
  assumes "unat (bh_next p) \<noteq> unat (pd_firstfree page)"
  shows "found_it k pg type n page p (st (pd_firstfree page) v h) = found_it k pg type n page p h"
proof -
  have "st (pd_firstfree page) w (st (pd_firstfree page) v h) = st (pd_firstfree page) w h" for w by (simp add: st_def)
  moreover have "ld (bh_next p) (st (pd_firstfree page) v h) = ld (bh_next p) h" using assms by (simp add: ld_def st_def)
  ultimately show ?thesis unfolding found_it_def Let_def by simp
qed

lemma payload_region:
  assumes "arena mem hs as ch" "x \<in> payload as"
  obtains c a where "as c = Some a" "4096 * c \<le> x" "x < 4096 * c + AREASIZE (kbucket a)"
proof -
  obtain b a i where b: "as b = Some a" "i \<in> dom (kused a)"
    "blk (kbucket a) b i + 8 \<le> x" "x < blk (kbucket a) b i + BLOCKSIZE (kbucket a)"
    using assms(2) by (auto simp: payload_def)
  have k: "kbucket a < 13" "i < NBLOCKS (kbucket a)" using area_cells(1,2) [OF arenaD(2) [OF assms(1) b(1)], of i] b(2) by auto
  show thesis using that [OF b(1)] blk_room [OF k, of b] b(3,4) by linarith
qed

definition busy :: "kghost \<Rightarrow> bool" where
  "busy g \<longleftrightarrow> (\<forall>b a. kareas g b = Some a \<longrightarrow> dom (kused a) \<noteq> {})"

text \<open>What a successful allocation gives: a new object \<^verbatim>\<open>p\<close> of size \<^verbatim>\<open>n\<close>, and all others untouched.\<close>

definition allocated :: "kheap \<Rightarrow> kghost \<Rightarrow> (nat \<times> nat) set \<Rightarrow> u32 \<Rightarrow> u32 \<times> kheap \<Rightarrow> bool" where
  "allocated h g X n r \<longleftrightarrow> fst r \<noteq> 0 \<and> fst r \<notin> fst ` objs g \<and>
     (\<exists>g'. kinv (snd r) g' X \<and> objs g' = insert (fst r, n) (objs g) \<and> (busy g \<longrightarrow> busy g')) \<and>
     (\<forall>x\<in>payload (kareas g). kmem (snd r) x = kmem h x)"

lemma allocated_old:
  assumes "kinv h g X" "kchain g (k, dma) = b # bs" "unat n + 8 \<le> BLOCKSIZE k"
  shows "allocated h g X n (found_it k (pg_of (k, dma)) (mf_type dma) n (of_nat (4096 * b)) (ld (pd_firstfree (of_nat (4096 * b))) h) h)"
  unfolding allocated_def using kinv_pop [OF assms] by (auto simp: busy_def split: if_splits)

lemma fresh_ghost:
  assumes "kareas g b = None" "kareas g' = (kareas g)(b \<mapsto> a)" "kused a = (\<lambda>_. None)" "kslot g' = kslot g"
  shows "kblocks g' = insert (gfporder (kbucket a), b) (kblocks g)" "objs g' = objs g" "payload (kareas g') = payload (kareas g)"
proof -
  have o: "(kareas g' c = Some x \<and> kused x i = Some n) = (kareas g c = Some x \<and> kused x i = Some n)" for c x i n
    using assms(1-3) by (cases "c = b") auto
  have p: "(kareas g' c = Some x \<and> i \<in> dom (kused x) \<and> Q) = (kareas g c = Some x \<and> i \<in> dom (kused x) \<and> Q)" for c x i Q
    using assms(1-3) by (cases "c = b") auto
  show "objs g' = objs g" by (simp only: objs_def o)
  show "payload (kareas g') = payload (kareas g)" by (simp only: payload_def p)
  have k: "(z = (gfporder (kbucket x), c) \<and> kareas g' c = Some x) =
      (c = b \<and> x = a \<and> z = (gfporder (kbucket a), b) \<or> z = (gfporder (kbucket x), c) \<and> kareas g c = Some x)" for z x c
    using assms(1,2) by (cases "c = b") auto
  show "kblocks g' = insert (gfporder (kbucket a), b) (kblocks g)"
    unfolding kblocks_def assms(4) k by blast
qed

lemma allocated_new:
  assumes "arena (kmem h) (heads h) (kareas g) (kchain g)"
    "\<forall>k. kmalloc_cache h k = (case kslot g k of None \<Rightarrow> 0 | Some b \<Rightarrow> of_nat (4096 * b))"
    "\<forall>k b. kslot g k = Some b \<longrightarrow> k < 3 \<and> kareas g b = None" "kblocks g \<inter> X = {}"
    and new: "holds (kpages h) F (insert (gfporder k, b) (kblocks g \<union> X))" "(gfporder k, b) \<notin> kblocks g \<union> X"
    and "k < 13" "kchain g (k, dma) = []" "unat n + 8 \<le> BLOCKSIZE k"
  defines "r \<equiv> found_cached_page k (pg_of (k, dma)) (of_nat (4096 * b)) h"
  shows "allocated h g X n (found_it k (pg_of (k, dma)) (mf_type dma) n (of_nat (4096 * b)) (fst r) (snd r))"
proof -
  let ?P = "4096 * b" and ?page = "of_nat (4096 * b) :: u32"
  have alone: "c \<noteq> b" if "(j, c) \<in> kblocks g" for j c
    using holds_start [OF new(1), of "gfporder k" b j] that new(2) by auto
  have none: "kareas g b = None" using alone unfolding kblocks_def by (cases "kareas g b") auto
  have slot: "kslot g j \<noteq> Some b" for j using alone unfolding kblocks_def by auto
  define a where "a = fresh_area k dma"
  have a: "kbucket a = k" "kdma a = dma" "kused a = (\<lambda>_. None)" "kfreed a \<noteq> []"
    using sizes_table(4) [OF assms(7)] by (simp_all add: a_def fresh_area_def)
  have room: "?P + AREASIZE k \<le> 2 ^ 32" using holds_block(2) [OF new(1), of "gfporder k" b] unfolding AREASIZE_le by simp
  have head: "heads h (k, dma) = 0" using arenaD(7) [OF assms(1), of "(k, dma)"] assms(8) by simp
  note f = found_cached_page_effect [OF assms(7) room head, folded r_def]
  have up: "unat ?page = ?P" using room area_size [OF assms(7)] by (intro unat_of_nat_small) linarith
  have up4: "unat (pd_firstfree ?page) = ?P + 4" using page_fields(2) [of ?page] up room area_size [OF assms(7)] by simp
  define h1 where "h1 = st (pd_firstfree ?page) (of_nat (?P + 16)) (snd r)"
  define g1 where "g1 = g\<lparr>kareas := (kareas g)(b \<mapsto> a), kchain := (kchain g)((k, dma) := [b])\<rparr>"
  have m1: "kmem h1 = (kmem (snd r))(?P + 4 := of_nat (?P + 16))" by (simp only: h1_def ld_st up4)
  have kb: "kblocks g1 = insert (gfporder k, b) (kblocks g)"
    and objs: "objs g1 = objs g" and payload: "payload (kareas g1) = payload (kareas g)"
    using fresh_ghost [of g b g1 a] none a(1,3) by (simp_all add: g1_def)
  have sp: "spaced (kareas g1)"
    by (rule holds_spaced [OF new(1)]) (use kb in \<open>auto simp: kblocks_def\<close>)
  have ar: "arena (kmem h1) (heads h1) (kareas g1) (kchain g1)"
  proof -
    have "arena (kmem h1) ((heads h)((k, dma) := ?page)) ((kareas g)(b \<mapsto> a)) ((kchain g)((k, dma) := [b]))"
    proof (rule arena_add [OF assms(1) none assms(8)])
      show "spaced ((kareas g)(b \<mapsto> a))" using sp by (simp add: g1_def)
      show "area_shape a" using fresh_shape [OF assms(7)] by (simp add: a_def)
      show "area_words (kmem h1) b a" using f(2) by (simp add: m1 a_def)
      show "kmem h1 x = kmem h x" if "x < ?P \<or> ?P + AREASIZE (kbucket a) \<le> x" for x
        using f(7) [of x] that area_size [OF assms(7)] by (auto simp: m1 a(1))
    qed (use f(3) a in \<open>simp_all add: m1\<close>)
    then show ?thesis by (simp add: h1_def ld_st f(4) g1_def)
  qed
  have inv: "kinv h1 g1 X"
    unfolding kinv_def
  proof (intro conjI)
    show "kblocks g1 \<inter> X = {}" using kb assms(4) new(2) by auto
    show "\<exists>F. holds (kpages h1) F (kblocks g1 \<union> X)" using new(1) by (auto simp: kb h1_def ld_st f(5))
  qed (use ar assms(2,3) slot in \<open>auto simp: h1_def ld_st f(6) g1_def\<close>)
  have "ld (pd_firstfree ?page) h1 = of_nat (?P + 16)" by (simp add: ld_def h1_def ld_st)
  moreover have "fst r = of_nat (?P + 16)" by (simp add: f(1))
  moreover have "unat (bh_next (of_nat (?P + 16))) \<noteq> unat (pd_firstfree ?page)"
  proof -
    have "unat (of_nat (?P + 16) :: u32) = ?P + 16" using room area_size [OF assms(7)] by (intro unat_of_nat_small) linarith
    then show ?thesis using block_fields(2) [of "of_nat (?P + 16)"] up4 room area_size [OF assms(7)] by simp
  qed
  ultimately have fi: "found_it k (pg_of (k, dma)) (mf_type dma) n ?page (fst r) (snd r) =
      found_it k (pg_of (k, dma)) (mf_type dma) n ?page (ld (pd_firstfree ?page) h1) h1"
    using found_it_firstfree unfolding h1_def by metis
  have keep: "kmem h1 x = kmem h x" if x: "x \<in> payload (kareas g)" for x
  proof -
    obtain c x' where c: "kareas g c = Some x'" "4096 * c \<le> x" "x < 4096 * c + AREASIZE (kbucket x')"
      by (rule payload_region [OF assms(1) x])
    have "c \<noteq> b" using c(1) none by auto
    then have "\<not> (?P \<le> x \<and> x < ?P + AREASIZE k)"
      using spacedD [OF sp, of c x' b a x] c none a(1) by (auto simp: g1_def split: if_splits)
    then show ?thesis using f(7) [of x] area_size [OF assms(7)] by (auto simp: m1)
  qed
  have "kchain g1 (k, dma) = [b]" by (simp add: g1_def)
  note pop = kinv_pop [OF inv this assms(9), folded fi, unfolded objs payload]
  from pop(4) obtain g' a' where g': "kinv (snd (found_it k (pg_of (k, dma)) (mf_type dma) n ?page (fst r) (snd r))) g' X"
    "kareas g' = (kareas g1)(b \<mapsto> a')" "dom (kused a') \<noteq> {}"
    and rest: "objs g' = insert (fst (found_it k (pg_of (k, dma)) (mf_type dma) n ?page (fst r) (snd r)), n) (objs g)"
    "fst (found_it k (pg_of (k, dma)) (mf_type dma) n ?page (fst r) (snd r)) \<notin> fst ` objs g"
    "\<forall>x\<in>payload (kareas g). kmem (snd (found_it k (pg_of (k, dma)) (mf_type dma) n ?page (fst r) (snd r))) x = kmem h1 x"
    by (elim exE conjE)
  have "busy g \<longrightarrow> busy g'" using g'(2,3) by (simp add: busy_def g1_def)
  then show ?thesis unfolding allocated_def using pop(3) g'(1) rest keep by auto
qed

section \<open>The law of kmalloc\<close>

lemma find_order_fits:
  "find_order realsize i xs = Some k \<Longrightarrow> 0 < realsize \<Longrightarrow> (\<And>x. x \<in> set xs \<Longrightarrow> x < 2 ^ 32) \<Longrightarrow>
     i \<le> k \<and> k - i < length xs \<and> 0 < xs ! (k - i) \<and> unat realsize \<le> xs ! (k - i)"
proof (induction realsize i xs rule: find_order.induct)
  case (2 realsize order ordersize rest)
  have u: "unat (of_nat ordersize :: u32) = ordersize" using "2.prems"(3) by (intro unat_of_nat_small) simp
  show ?case
  proof (cases "realsize \<le> of_nat ordersize")
    case True
    then have "unat realsize \<le> ordersize" using u by (simp add: word_le_nat_alt)
    moreover have "0 < unat realsize" using "2.prems"(2) by (simp add: word_less_nat_alt)
    ultimately show ?thesis using True "2.prems"(1) by auto
  next
    case False
    then have "ordersize \<noteq> 0" and r: "find_order realsize (order + 1) rest = Some k" using "2.prems"(1) by (auto split: if_splits)
    have i: "order + 1 \<le> k \<and> k - (order + 1) < length rest \<and> 0 < rest ! (k - (order + 1)) \<and> unat realsize \<le> rest ! (k - (order + 1))"
      using "2.IH" [OF False \<open>ordersize \<noteq> 0\<close> r "2.prems"(2)] "2.prems"(3) by simp
    then have "k - order = Suc (k - (order + 1))" by linarith
    then show ?thesis using i by simp
  qed
qed simp

lemma kmalloc_order:
  assumes "find_order (n + 8) 0 blocksize = Some k" "unat n + 8 < 2 ^ 32"
  shows "k < 13" "unat n + 8 \<le> BLOCKSIZE k"
proof -
  have u: "unat (n + 8) = unat n + 8" using unat_add_small [of n 8] assms(2) by simp
  then have "0 < n + 8" by (simp add: word_less_nat_alt)
  moreover have "x < 2 ^ 32" if "x \<in> set blocksize" for x using that by (auto simp: blocksize_def)
  ultimately have f: "k < length blocksize" "0 < blocksize ! k" "unat (n + 8) \<le> blocksize ! k"
    using find_order_fits [OF assms(1)] by simp_all
  show "unat n + 8 \<le> BLOCKSIZE k" using f(3) u by (simp add: BLOCKSIZE_def)
  show "k < 13"
  proof (rule ccontr)
    assume "\<not> k < 13"
    then have "k = 13" using f(1) by (simp add: blocksize_def)
    then show False using f(2) by (simp add: blocksize_def)
  qed
qed

lemma say_frame [simp]:
  "kmem (say f v h) = kmem h" "heads (say f v h) = heads h" "kmalloc_cache (say f v h) = kmalloc_cache h"
  "holds (kpages (say f v h)) F S = holds (kpages h) F S" "kcount (say f v h) = kcount h"
  by (simp_all add: say_def)

lemma kinv_cong:
  assumes "kmem h' = kmem h" "heads h' = heads h" "kmalloc_cache h' = kmalloc_cache h" "\<And>F S. holds (kpages h') F S = holds (kpages h) F S"
  shows "kinv h' g X = kinv h g X"
  by (simp add: kinv_def assms)

text \<open>What every call gives: the invariant, and either no block and the objects as before, or a new one.\<close>

definition kmalloc_result :: "kheap \<Rightarrow> kghost \<Rightarrow> (nat \<times> nat) set \<Rightarrow> u32 \<Rightarrow> u32 \<times> kheap \<Rightarrow> bool" where
  "kmalloc_result h g X n r \<longleftrightarrow>
     (if fst r = 0
      then (\<exists>g'. kinv (snd r) g' X \<and> objs g' = objs g \<and> kareas g' = kareas g) \<and> (\<forall>x\<in>payload (kareas g). kmem (snd r) x = kmem h x)
      else allocated h g X n r)"

lemma result_cong:
  assumes "kmem h' = kmem h" "kmalloc_result h' g X n r"
  shows "kmalloc_result h g X n r"
  using assms(2) unfolding kmalloc_result_def allocated_def assms(1) .

lemma no_block:
  assumes "kinv h' g X" "kmem h' = kmem h"
  shows "kmalloc_result h g X n (0, h')"
  using assms by (auto simp: kmalloc_result_def)

lemma kinv_arena:
  assumes "kinv h g X"
  shows "arena (kmem h) (heads h) (kareas g) (kchain g)"
    "\<forall>k. kmalloc_cache h k = (case kslot g k of None \<Rightarrow> 0 | Some b \<Rightarrow> of_nat (4096 * b))"
    "\<forall>k b. kslot g k = Some b \<longrightarrow> k < 3 \<and> kareas g b = None" "kblocks g \<inter> X = {}"
  using assms by (simp_all add: kinv_def)

text \<open>With no page to be had, a page of the cache serves; it is the cached block of the order with the same number as the size.\<close>

lemma cached_page:
  assumes "kinv h g X" "kslot g k = Some b"
  defines "h' \<equiv> h\<lparr>kmalloc_cache := (kmalloc_cache h)(k := 0)\<rparr>" and "g' \<equiv> g\<lparr>kslot := (kslot g)(k := None)\<rparr>"
  shows "\<forall>j. kmalloc_cache h' j = (case kslot g' j of None \<Rightarrow> 0 | Some b \<Rightarrow> of_nat (4096 * b))"
    "\<forall>j b. kslot g' j = Some b \<longrightarrow> j < 3 \<and> kareas g' b = None" "kblocks g' = kblocks g - {(k, b)}"
    "\<exists>F. holds (kpages h') F (insert (0, b) (kblocks g' \<union> X))" "(0, b) \<notin> kblocks g' \<union> X" "b \<noteq> 0"
proof -
  note i = kinv_arena [OF assms(1)]
  obtain F where F: "holds (kpages h) F (kblocks g \<union> X)" using assms(1) by (auto simp: kinv_def)
  have m: "(k, b) \<in> kblocks g" using assms(2) by (simp add: kblocks_def)
  have area: "(gfporder (kbucket a), c) \<noteq> (k, b)" if "kareas g c = Some a" for a c using that i(3) assms(2) by auto
  show kb: "kblocks g' = kblocks g - {(k, b)}" using area assms(2) by (auto simp: kblocks_def g'_def split: if_splits)
  show "\<forall>j. kmalloc_cache h' j = (case kslot g' j of None \<Rightarrow> 0 | Some b \<Rightarrow> of_nat (4096 * b))" using i(2) by (simp add: h'_def g'_def)
  show "\<forall>j b. kslot g' j = Some b \<longrightarrow> j < 3 \<and> kareas g' b = None" using i(3) by (simp add: g'_def)
  have X: "(k, b) \<notin> X" using m i(4) by auto
  then have "insert (0, b) (kblocks g \<union> X - {(k, b)}) = insert (0, b) (kblocks g' \<union> X)" unfolding kb by blast
  then show "\<exists>F. holds (kpages h') F (insert (0, b) (kblocks g' \<union> X))"
    using holds_shrink [OF F, of k b] m by (auto simp: h'_def)
  show "(0, b) \<notin> kblocks g' \<union> X"
  proof
    assume "(0, b) \<in> kblocks g' \<union> X"
    then have z: "(0, b) \<noteq> (k, b)" "(0, b) \<in> kblocks g \<union> X" unfolding kb using X by blast+
    have "k = 0" using holds_start [OF F UnI1 [OF m] z(2)] .
    then show False using z(1) by simp
  qed
  show "b \<noteq> 0" using holds_block(1) [OF F, of k b] m by simp
qed

lemma page_nonzero:
  assumes "holds m F S" "(k, b) \<in> S"
  shows "(of_nat (4096 * b) :: u32) \<noteq> 0"
proof -
  have "0 < (2 :: nat) ^ k" by simp
  then have "4096 * b < 2 ^ 32" using holds_block(2) [OF assms] by linarith
  then have "unat (of_nat (4096 * b) :: u32) = 4096 * b" by (rule unat_of_nat_small)
  then show ?thesis using holds_block(1) [OF assms] by auto
qed

text \<open>The three ways on when the chain of the size is empty: a new page, a cached page, none.\<close>

lemma bucket_page:
  assumes "heads h (k, dma) = 0" "get_kmalloc_pages c p (gfporder k) dma h = Some (page, h1)" "page \<noteq> 0"
  shows "kmalloc_bucket c k dma t (pg_of (k, dma)) n p h =
    Some (found_it k (pg_of (k, dma)) t n page (fst (found_cached_page k (pg_of (k, dma)) page h1)) (snd (found_cached_page k (pg_of (k, dma)) page h1)))"
  unfolding kmalloc_bucket_def get_pg_of assms(1,2) using assms(3) by (simp add: split_def Let_def)

lemma bucket_cached:
  assumes "heads h (k, dma) = 0" "get_kmalloc_pages c p (gfporder k) dma h = Some (0, h1)" "\<not> dma" "k < 3" "kmalloc_cache h1 k = page" "page \<noteq> 0"
  defines "h2 \<equiv> h1\<lparr>kmalloc_cache := (kmalloc_cache h1)(k := 0)\<rparr>"
  shows "kmalloc_bucket c k dma t (pg_of (k, dma)) n p h =
    Some (found_it k (pg_of (k, dma)) t n page (fst (found_cached_page k (pg_of (k, dma)) page h2)) (snd (found_cached_page k (pg_of (k, dma)) page h2)))"
  unfolding kmalloc_bucket_def get_pg_of assms(1,2) h2_def using assms(3-6) by (simp add: split_def MAX_CACHE_ORDER_def Let_def)

lemma bucket_none:
  assumes "heads h (k, dma) = 0" "get_kmalloc_pages c p (gfporder k) dma h = Some (0, h1)" "\<not> dma \<Longrightarrow> k < 3 \<Longrightarrow> kmalloc_cache h1 k = 0"
  shows "\<exists>h2. kmalloc_bucket c k dma t (pg_of (k, dma)) n p h = Some (0, h2) \<and> kmem h2 = kmem h1 \<and> heads h2 = heads h1 \<and>
    kmalloc_cache h2 = kmalloc_cache h1 \<and> (\<forall>F S. holds (kpages h2) F S = holds (kpages h1) F S)"
proof -
  have "(kmalloc_cache h1)(k := 0) = kmalloc_cache h1" if "\<not> dma" "k < 3" using assms(3) [OF that] by auto
  then show ?thesis
    unfolding kmalloc_bucket_def get_pg_of assms(1,2) using assms(3)
    by (cases "\<not> dma \<and> k < 3") (auto simp: MAX_CACHE_ORDER_def Let_def)
qed

lemma bucket_page_ok:
  assumes "kinv h g X" "k < 13" "unat n + 8 \<le> BLOCKSIZE k" "kchain g (k, dma) = []"
    "get_kmalloc_pages c p (gfporder k) dma h = Some (of_nat (4096 * b), h\<lparr>kpages := m\<rparr>)"
    "(gfporder k, b) \<notin> kblocks g \<union> X" "holds m F (insert (gfporder k, b) (kblocks g \<union> X))"
  shows "\<exists>r. kmalloc_bucket c k dma (mf_type dma) (pg_of (k, dma)) n p h = Some r \<and> allocated h g X n r"
proof -
  note i = kinv_arena [OF assms(1)]
  define h1 where "h1 = h\<lparr>kpages := m\<rparr>"
  have same: "kmem h1 = kmem h" "heads h1 = heads h" "kmalloc_cache h1 = kmalloc_cache h" "kpages h1 = m" by (simp_all add: h1_def)
  have head: "heads h (k, dma) = 0" using arenaD(7) [OF i(1), of "(k, dma)"] assms(4) by simp
  have "(of_nat (4096 * b) :: u32) \<noteq> 0" using page_nonzero [OF assms(7), of "gfporder k" b] by simp
  note r = bucket_page [OF head assms(5) this, of "mf_type dma" n, folded h1_def]
  have "allocated h1 g X n (found_it k (pg_of (k, dma)) (mf_type dma) n (of_nat (4096 * b))
      (fst (found_cached_page k (pg_of (k, dma)) (of_nat (4096 * b)) h1)) (snd (found_cached_page k (pg_of (k, dma)) (of_nat (4096 * b)) h1)))"
    by (rule allocated_new [where F = F and b = b]) (use i assms(2-4,6,7) same in simp_all)
  then show ?thesis using r same(1) by (simp add: allocated_def)
qed

lemma bucket_cached_ok:
  assumes "kinv (h\<lparr>kpages := m\<rparr>) g X" "k < 3" "unat n + 8 \<le> BLOCKSIZE k" "kchain g (k, False) = []" "kslot g k = Some b"
    "get_kmalloc_pages c p (gfporder k) False h = Some (0, h\<lparr>kpages := m\<rparr>)"
  shows "\<exists>r. kmalloc_bucket c k False (mf_type False) (pg_of (k, False)) n p h = Some r \<and> allocated h g X n r"
proof -
  note i = kinv_arena [OF assms(1)] and cp = cached_page [OF assms(1,5)]
  have k: "k < 13" using assms(2) by simp
  have head: "heads h (k, False) = 0" using arenaD(7) [OF i(1), of "(k, False)"] assms(4) by simp
  define h2 where "h2 = h\<lparr>kpages := m, kmalloc_cache := (kmalloc_cache h)(k := 0)\<rparr>"
  define g2 where "g2 = g\<lparr>kslot := (kslot g)(k := None)\<rparr>"
  have same: "kmem h2 = kmem h" "heads h2 = heads h" "kareas g2 = kareas g" "kchain g2 = kchain g" "objs g2 = objs g" "busy g2 = busy g"
    by (simp_all add: h2_def g2_def objs_def busy_def)
  obtain F where "holds m F (kblocks g \<union> X)" using assms(1) by (auto simp: kinv_def)
  then have nz: "(of_nat (4096 * b) :: u32) \<noteq> 0" by (rule page_nonzero [where k = k]) (simp add: kblocks_def assms(5))
  have "kmalloc_bucket c k False (mf_type False) (pg_of (k, False)) n p h = Some (found_it k (pg_of (k, False)) (mf_type False) n (of_nat (4096 * b))
      (fst (found_cached_page k (pg_of (k, False)) (of_nat (4096 * b)) h2)) (snd (found_cached_page k (pg_of (k, False)) (of_nat (4096 * b)) h2)))"
    using bucket_cached [OF head assms(6) _ assms(2) _ nz, of "mf_type False" n] i(2) assms(5) unfolding h2_def by simp
  moreover obtain F2 where F2: "holds (kpages h2) F2 (insert (0, b) (kblocks g2 \<union> X))" using cp(4) unfolding h2_def g2_def by auto
  have "allocated h2 g2 X n (found_it k (pg_of (k, False)) (mf_type False) n (of_nat (4096 * b))
      (fst (found_cached_page k (pg_of (k, False)) (of_nat (4096 * b)) h2)) (snd (found_cached_page k (pg_of (k, False)) (of_nat (4096 * b)) h2)))"
  proof (rule allocated_new [where F = F2 and b = b])
    show "arena (kmem h2) (heads h2) (kareas g2) (kchain g2)" using i(1) by (simp add: same)
    show "kblocks g2 \<inter> X = {}" using cp(3) i(4) unfolding g2_def by auto
    show "holds (kpages h2) F2 (insert (gfporder k, b) (kblocks g2 \<union> X))" "(gfporder k, b) \<notin> kblocks g2 \<union> X"
      using F2 cp(5) sizes_table(9) [OF k] assms(2) unfolding g2_def by simp_all
  qed (use cp(1,2) k assms(3,4) in \<open>simp_all add: h2_def g2_def\<close>)
  ultimately show ?thesis unfolding allocated_def same by auto
qed

lemma bucket_old_ok:
  assumes "kinv h g X" "unat n + 8 \<le> BLOCKSIZE k" "kchain g (k, dma) \<noteq> []"
  shows "\<exists>r. kmalloc_bucket c k dma (mf_type dma) (pg_of (k, dma)) n p h = Some r \<and> allocated h g X n r"
proof -
  obtain b bs where c: "kchain g (k, dma) = b # bs" using assms(3) by (cases "kchain g (k, dma)") auto
  note pop = kinv_pop(1,2) [OF assms(1) c assms(2)] and al = allocated_old [OF assms(1) c assms(2)]
  have "heads h (k, dma) = of_nat (4096 * b)" using arenaD(7) [OF kinv_arena(1) [OF assms(1)], of "(k, dma)"] c by simp
  then show ?thesis using pop al unfolding kmalloc_bucket_def get_pg_of Let_def by (auto simp: allocated_def)
qed

lemma allocated_result: "allocated h g X n r \<Longrightarrow> kmalloc_result h g X n r \<and> fst r \<noteq> 0"
  by (simp add: kmalloc_result_def allocated_def)

text \<open>When an object can be had: a free block, a page, or, for small objects that are not for DMA, the cached page.\<close>

definition in_stock :: "kghost \<Rightarrow> nat \<Rightarrow> bool \<Rightarrow> bool \<Rightarrow> bool" where
  "in_stock g k dma page \<longleftrightarrow> kchain g (k, dma) \<noteq> [] \<or> page \<or> \<not> dma \<and> k < 3 \<and> kslot g k \<noteq> None"

lemma kmalloc_bucket_cases:
  assumes "kinv h g X" "k < 13" "unat n + 8 \<le> BLOCKSIZE k" "p = GFP_ATOMIC \<or> reclaim_ok (try_to_free_page c)"
    "get_free_pages (try_to_free_page c) (intr_count c) (gfp_return_address c) p (gfporder k) dma (kpages h) = Some (a, m)"
  shows "\<exists>r. kmalloc_bucket c k dma (mf_type dma) (pg_of (k, dma)) n p h = Some r \<and> kmalloc_result h g X n r \<and>
    (fst r \<noteq> 0 \<longleftrightarrow> in_stock g k dma (a \<noteq> 0))"
proof -
  note i = kinv_arena [OF assms(1)]
  obtain F where F: "holds (kpages h) F (kblocks g \<union> X)" using assms(1) by (auto simp: kinv_def)
  obtain F' where a: "if a = 0 then holds m F' (kblocks g \<union> X)
      else \<exists>b. a = of_nat (4096 * b) \<and> (gfporder k, b) \<notin> kblocks g \<union> X \<and> holds m F' (insert (gfporder k, b) (kblocks g \<union> X))"
    using holds_get [OF F assms(4), of "intr_count c" "gfp_return_address c" "gfporder k" dma] assms(5) by auto
  have page: "get_kmalloc_pages c p (gfporder k) dma h = Some (a, h\<lparr>kpages := m\<rparr>)" using assms(5) by (simp add: get_kmalloc_pages_def)
  have inv: "kinv (h\<lparr>kpages := m\<rparr>) g X" if "a = 0" using i a that unfolding kinv_def by auto
  have ready: ?thesis if "in_stock g k dma (a \<noteq> 0)"
      "\<exists>r. kmalloc_bucket c k dma (mf_type dma) (pg_of (k, dma)) n p h = Some r \<and> allocated h g X n r"
    using that allocated_result by blast
  consider "kchain g (k, dma) \<noteq> []" | "kchain g (k, dma) = []" "a \<noteq> 0"
    | "kchain g (k, dma) = []" "a = 0" "\<not> dma" "k < 3" "kslot g k \<noteq> None" | "a = 0" "\<not> in_stock g k dma False"
    unfolding in_stock_def by blast
  then show ?thesis
  proof cases
    case 1
    then show ?thesis using ready bucket_old_ok [OF assms(1,3)] by (simp add: in_stock_def)
  next
    case 2
    then obtain b where b: "a = of_nat (4096 * b)" "(gfporder k, b) \<notin> kblocks g \<union> X" "holds m F' (insert (gfporder k, b) (kblocks g \<union> X))"
      using a by auto
    show ?thesis using ready bucket_page_ok [OF assms(1-3) 2(1) page [unfolded b(1)] b(2,3)] 2 by (simp add: in_stock_def)
  next
    case 3
    then obtain b where "kslot g k = Some b" by blast
    then show ?thesis using ready bucket_cached_ok [OF inv [OF 3(2)] 3(4) assms(3)] page 3 by (simp add: in_stock_def)
  next
    case 4
    then have "heads h (k, dma) = 0" "\<not> dma \<Longrightarrow> k < 3 \<Longrightarrow> kmalloc_cache h k = 0"
      using arenaD(7) [OF i(1), of "(k, dma)"] i(2) by (auto simp: in_stock_def)
    then obtain h2 where h2: "kmalloc_bucket c k dma (mf_type dma) (pg_of (k, dma)) n p h = Some (0, h2)" "kmem h2 = kmem h"
      "heads h2 = heads h" "kmalloc_cache h2 = kmalloc_cache h" "\<And>F S. holds (kpages h2) F S = holds m F S"
      using bucket_none [OF _ page [unfolded 4(1)], of "mf_type dma" n] by auto
    have "kinv h2 g X" using kinv_cong [of h2 "h\<lparr>kpages := m\<rparr>" g X] h2 inv [OF 4(1)] by simp
    then show ?thesis using no_block [of h2 g X h n] h2(1,2) 4 by auto
  qed
qed

theorem kmalloc_ok:
  assumes "kinv h g X" "unat n + 8 < 2 ^ 32" "p AND GFP_LEVEL_MASK = GFP_ATOMIC \<or> reclaim_ok (try_to_free_page c)"
  shows "\<exists>r. kmalloc c n p h = Some r \<and> kmalloc_result h g X n r"
proof (cases "find_order (n + 8) 0 blocksize")
  case None
  have "kinv (say f v h) g X" for f v using kinv_cong [of "say f v h" h g X] assms(1) by simp
  then show ?thesis using None no_block [of _ g X h n] by (simp add: kmalloc_def)
next
  case (Some k)
  note k = kmalloc_order [OF Some assms(2)]
  have pg: "(if d then Dmafree k else Firstfree k) = pg_of (k, d)" "(if d then MF_DMA else MF_USED) = mf_type d" for d
    by (simp_all add: pg_of_def mf_type_def)
  obtain q h1 where h1: "(if intr_count c \<and> p AND GFP_LEVEL_MASK \<noteq> GFP_ATOMIC then
       let h = h\<lparr>kcount := kcount h + 1\<rparr>
       in if kcount h < 5
          then (GFP_ATOMIC, say ''kmalloc called nonatomically from interrupt %p\<newline>'' [AInt (return_address c)] h)
          else (p AND GFP_LEVEL_MASK, h)
     else (p AND GFP_LEVEL_MASK, h)) = (q, h1)" by fastforce
  have q: "q = GFP_ATOMIC \<or> reclaim_ok (try_to_free_page c)" using h1 assms(3) by (auto simp: Let_def split: if_splits)
  have same: "kmem h1 = kmem h" "heads h1 = heads h" "kmalloc_cache h1 = kmalloc_cache h"
      "holds (kpages h1) F S = holds (kpages h) F S" for F S
    using h1 by (auto simp: Let_def split: if_splits)
  then have inv: "kinv h1 g X" using kinv_cong [of h1 h g X] assms(1) by simp
  have "kmalloc c n p h = kmalloc_bucket c k (p AND GFP_DMA \<noteq> 0) (mf_type (p AND GFP_DMA \<noteq> 0)) (pg_of (k, p AND GFP_DMA \<noteq> 0)) n q h1"
    unfolding kmalloc_def Some option.case pg unfolding Let_def [of "p AND GFP_DMA \<noteq> 0"] Let_def [of "p AND GFP_LEVEL_MASK"] pg
      Let_def [of "mf_type _"] Let_def [of "pg_of _"] h1 Let_def [of "(q, h1)"] prod.case ..
  note eq = this
  obtain F where F: "holds (kpages h1) F (kblocks g \<union> X)" using inv by (auto simp: kinv_def)
  obtain a m where "get_free_pages (try_to_free_page c) (intr_count c) (gfp_return_address c) q (gfporder k) (p AND GFP_DMA \<noteq> 0) (kpages h1) = Some (a, m)"
    using holds_get [OF F q] by blast
  from kmalloc_bucket_cases [OF inv k q this]
  show ?thesis unfolding eq using result_cong [OF same(1)] by blast
qed

end
