(* ===== verification/Kmalloc_Free.thy ===== *)
theory Kmalloc_Free
  imports Kmalloc_Ops
begin

text \<open>
  \<^verbatim>\<open>kfree\<close> of \<^verbatim>\<open>mm/kmalloc.c\<close> on the invariant of the heap: freeing a live object takes exactly this object out of the heap.
\<close>

section \<open>Giving back a page\<close>

lemma free_page_ok:
  assumes "arena (kmem h) (heads h) (kareas g) (kchain g)"
    "\<forall>j. kmalloc_cache h j = (case kslot g j of None \<Rightarrow> 0 | Some b \<Rightarrow> of_nat (4096 * b))"
    "\<forall>j b. kslot g j = Some b \<longrightarrow> j < 3 \<and> kareas g b = None" "kblocks g \<inter> X = {}"
    and old: "holds (kpages h) F (insert (gfporder k, b) (kblocks g \<union> X))" "(gfporder k, b) \<notin> kblocks g \<union> X"
    and "kareas g b = None"
  shows "\<exists>h' g'. free_page_of k dma (of_nat (4096 * b)) h = Some h' \<and> kinv h' g' X \<and> kareas g' = kareas g \<and> kmem h' = kmem h"
proof -
  let ?k = "gfporder k" and ?h = "h\<lparr>npages := (npages h)(k := npages h k - 1)\<rparr>"
  show ?thesis
  proof (cases "\<not> dma \<and> ?k < 3")
    case False
    obtain m F' where m: "free_pages (of_nat (4096 * b)) ?k (kpages h) = Some m" "holds m F' (insert (?k, b) (kblocks g \<union> X) - {(?k, b)})"
      using holds_put [OF old(1), of ?k b] by auto
    have "insert (?k, b) (kblocks g \<union> X) - {(?k, b)} = kblocks g \<union> X" using old(2) by blast
    then have "kinv (?h\<lparr>kpages := m\<rparr>) g X" using assms(1-4) m(2) by (auto simp: kinv_def)
    moreover have "free_page_of k dma (of_nat (4096 * b)) h = Some (?h\<lparr>kpages := m\<rparr>)"
      using m(1) False by (auto simp: free_page_of_def free_kmalloc_pages_def MAX_CACHE_ORDER_def)
    ultimately show ?thesis by (intro exI [of _ "?h\<lparr>kpages := m\<rparr>"] exI [of _ g]) simp
  next
    case cache: True
    define g' where "g' = g\<lparr>kslot := (kslot g)(?k \<mapsto> b)\<rparr>"
    define h1 where "h1 = ?h\<lparr>kmalloc_cache := (kmalloc_cache h)(?k := of_nat (4096 * b))\<rparr>"
    have g': "kareas g' = kareas g" "kchain g' = kchain g" "kslot g' = (kslot g)(?k \<mapsto> b)" by (simp_all add: g'_def)
    have slots: "\<forall>j. kmalloc_cache h1 j = (case kslot g' j of None \<Rightarrow> 0 | Some b \<Rightarrow> of_nat (4096 * b))"
      "\<forall>j c. kslot g' j = Some c \<longrightarrow> j < 3 \<and> kareas g' c = None"
      using assms(2,3,7) cache by (auto simp: h1_def g')
    show ?thesis
    proof (cases "kslot g ?k")
      case None
      have kb: "kblocks g' = insert (?k, b) (kblocks g)" using None unfolding kblocks_def g' by (auto split: if_splits)
      have "kinv h1 g' X"
        using assms(1,4) old slots unfolding kinv_def kb g' by (auto simp: h1_def)
      moreover have "free_page_of k dma (of_nat (4096 * b)) h = Some h1"
        using cache None assms(2) by (simp add: free_page_of_def free_kmalloc_pages_def MAX_CACHE_ORDER_def h1_def)
      ultimately show ?thesis by (intro exI [of _ h1] exI [of _ g']) (simp add: g' h1_def)
    next
      case (Some c)
      have c: "(?k, c) \<in> kblocks g" using Some by (simp add: kblocks_def)
      then have cb: "c \<noteq> b" using old(2) by auto
      have area: "kareas g c = None" using assms(3) Some by blast
      have kb: "kblocks g' = insert (?k, b) (kblocks g - {(?k, c)})"
        using Some area unfolding kblocks_def g' by (auto split: if_splits)
      obtain m F' where m: "free_pages (of_nat (4096 * c)) ?k (kpages h) = Some m" "holds m F' (insert (?k, b) (kblocks g \<union> X) - {(?k, c)})"
        using holds_put [OF old(1), of ?k c] c by auto
      have "(?k, c) \<notin> X" using c assms(4) by auto
      then have "insert (?k, b) (kblocks g \<union> X) - {(?k, c)} = kblocks g' \<union> X" unfolding kb using cb by blast
      then have "kinv (h1\<lparr>kpages := m\<rparr>) g' X"
        using assms(1,4) old(2) slots m(2) unfolding kinv_def g' kb by (auto simp: h1_def)
      moreover have "(of_nat (4096 * c) :: u32) \<noteq> 0" using page_nonzero [OF old(1), of ?k c] c by simp
      then have "free_page_of k dma (of_nat (4096 * b)) h = Some (h1\<lparr>kpages := m\<rparr>)"
        using cache Some assms(2) m(1) by (simp add: free_page_of_def free_kmalloc_pages_def MAX_CACHE_ORDER_def h1_def)
      ultimately show ?thesis by (intro exI [of _ "h1\<lparr>kpages := m\<rparr>"] exI [of _ g']) (simp add: g' h1_def)
    qed
  qed
qed

section \<open>Finding a page on its chain\<close>

lemma page_inj:
  assumes "4096 * b < 2 ^ 32" "4096 * c < 2 ^ 32" "(of_nat (4096 * b) :: u32) = of_nat (4096 * c)"
  shows "b = c"
  using assms(3) unat_of_nat_small [OF assms(1)] unat_of_nat_small [OF assms(2)] by simp

lemma find_page_found:
  assumes "get_pg pg h = pnext (bs @ b # cs)" "pchain (kmem h) (bs @ b # cs)" "distinct (bs @ b # cs)"
    "\<And>c. c \<in> set (bs @ b # cs) \<Longrightarrow> 0 < c \<and> 4096 * c < 2 ^ 32"
  shows "find_page (of_nat (4096 * b)) pg h = Some (Some (if bs = [] then pg else Next (of_nat (4096 * last bs))))"
  using assms
proof (induction bs arbitrary: pg)
  case Nil
  have b: "0 < b" "4096 * b < 2 ^ 32" using Nil(4) [of b] by auto
  from unat_of_nat_small [OF b(2)] b(1) have "(of_nat (4096 * b) :: u32) \<noteq> 0" by auto
  then show ?case using Nil by (simp add: find_page.simps)
next
  case (Cons c bs)
  have c: "0 < c" "4096 * c < 2 ^ 32" "4096 * b < 2 ^ 32" "c \<noteq> b" using Cons.prems(3) Cons.prems(4) [of c] Cons.prems(4) [of b] by auto
  have uc: "unat (of_nat (4096 * c) :: u32) = 4096 * c" using c(2) by (rule unat_of_nat_small)
  have "(of_nat (4096 * c) :: u32) \<noteq> 0" using uc c(1) by auto
  moreover have "(of_nat (4096 * c) :: u32) \<noteq> of_nat (4096 * b)" using page_inj [OF c(2,3)] c(4) by blast
  ultimately have step: "find_page (of_nat (4096 * b)) pg h = find_page (of_nat (4096 * b)) (Next (of_nat (4096 * c))) h"
    using Cons.prems(1) by (simp add: find_page.simps [of _ pg])
  have "get_pg (Next (of_nat (4096 * c))) h = pnext (bs @ b # cs)" using Cons.prems(2) uc by (simp add: ld_def field_defs del: of_nat_mult)
  from Cons.IH [OF this] Cons.prems(2,3,4) show ?case unfolding step by auto
qed

section \<open>The law of kfree\<close>

lemma page_of_block:
  assumes "d < 4096" "4096 * b + d < 2 ^ 32"
  shows "PAGE_DESC (of_nat (4096 * b + d)) = of_nat (4096 * b)"
proof -
  let ?x = "of_nat (4096 * b + d) :: u32"
  have "?x AND NOT PAGE_MASK = of_nat d"
    unfolding not_page_mask take_bit_eq_mask [symmetric] using assms
    by (simp add: take_bit_of_nat take_bit_nat_def del: of_nat_add of_nat_mult)
  then have "(?x AND PAGE_MASK) + of_nat d = of_nat (4096 * b) + of_nat d" using page_split [of ?x] by simp
  then show ?thesis by (simp add: PAGE_DESC_def)
qed

lemma objs_unuse:
  assumes "arena mem hs (kareas g) ch" "kareas g b = Some a" "kused a i = Some n"
    "kareas g' = (kareas g)(b := v)" "v = None \<and> dom (kused a) = {i} \<or> (\<exists>fl. v = Some (a\<lparr>kfreed := fl, kused := (kused a)(i := None)\<rparr>))"
  shows "objs g' = objs g - {(of_nat (blk (kbucket a) b i + 8), n)}"
proof (intro set_eqI iffI)
  let ?p = "(of_nat (blk (kbucket a) b i + 8), n) :: u32 \<times> u32"
  have i: "i < NBLOCKS (kbucket a)" using area_cells(2) [OF arenaD(2) [OF assms(1,2)], of i] assms(3) by auto
  fix z
  {
    assume "z \<in> objs g'"
    then obtain x c j w where z: "z = (of_nat (blk (kbucket x) c j + 8), w)" "kareas g' c = Some x" "kused x j = Some w"
      by (auto simp: objs_def)
    have "\<exists>y. kareas g c = Some y \<and> kbucket y = kbucket x \<and> kused y j = Some w \<and> (c, j) \<noteq> (b, i)"
      using z(2,3) assms(2,3,5) unfolding assms(4) by (auto split: if_splits)
    then obtain y where y: "kareas g c = Some y" "kbucket y = kbucket x" "kused y j = Some w" "(c, j) \<noteq> (b, i)" by blast
    have "z \<in> objs g" using objsI [OF y(1,3,2)] z(1) by simp
    moreover have "z \<noteq> ?p"
    proof
      assume e: "z = ?p"
      have j: "j < NBLOCKS (kbucket y)" using area_cells(2) [OF arenaD(2) [OF assms(1) y(1)], of j] y(3) by auto
      have "blk (kbucket y) c j + 8 < 2 ^ 32" "blk (kbucket a) b i + 8 < 2 ^ 32"
        using block_ptr(4) [OF assms(1) y(1) j] block_ptr(4) [OF assms(1,2) i] by linarith+
      moreover have "(of_nat (blk (kbucket y) c j + 8) :: u32) = of_nat (blk (kbucket a) b i + 8)" using e z(1) y(2) by simp
      ultimately have "blk (kbucket y) c j = blk (kbucket a) b i" by (metis add_right_cancel unat_of_nat_small)
      then show False using block_inj [OF assms(1) y(1) assms(2) j i] y(4) by simp
    qed
    ultimately show "z \<in> objs g - {?p}" by simp
  }
  {
    assume p: "z \<in> objs g - {?p}"
    then have "z \<in> objs g" by simp
    then obtain x c j w where z: "z = (of_nat (blk (kbucket x) c j + 8), w)" "kareas g c = Some x" "kused x j = Some w"
      by (auto simp: objs_def)
    have "(c, j) \<noteq> (b, i)" using z p assms(2,3) by auto
    then have "\<exists>y. kareas g' c = Some y \<and> kbucket y = kbucket x \<and> kused y j = Some w"
      using z(2,3) assms(2,5) unfolding assms(4) by auto
    then show "z \<in> objs g'" using objsI z(1) by metis
  }
qed

lemma payload_unuse:
  assumes "kareas g b = Some a" "kareas g' = (kareas g)(b := v)" "v = None \<or> (\<exists>fl. v = Some (a\<lparr>kfreed := fl, kused := (kused a)(i := None)\<rparr>))"
  shows "payload (kareas g') \<subseteq> payload (kareas g)"
proof
  fix x assume "x \<in> payload (kareas g')"
  then obtain c y j where y: "kareas g' c = Some y" "j \<in> dom (kused y)" "blk (kbucket y) c j + 8 \<le> x" "x < blk (kbucket y) c j + BLOCKSIZE (kbucket y)"
    by (auto simp: payload_def)
  then have "\<exists>z. kareas g c = Some z \<and> kbucket z = kbucket y \<and> j \<in> dom (kused z)"
    using assms unfolding assms(2) by (auto split: if_splits)
  then show "x \<in> payload (kareas g)" using y(3,4) unfolding payload_def by (metis (mono_tags, lifting) mem_Collect_eq)
qed

text \<open>What is left of the heap when the object is gone.\<close>

definition released :: "kheap \<Rightarrow> kghost \<Rightarrow> (nat \<times> nat) set \<Rightarrow> u32 \<times> u32 \<Rightarrow> kheap \<Rightarrow> bool" where
  "released h g X obj h' \<longleftrightarrow>
     (\<exists>g'. kinv h' g' X \<and> objs g' = objs g - {obj} \<and> (busy g \<longrightarrow> busy g') \<and> payload (kareas g') \<subseteq> payload (kareas g) \<and>
        (\<forall>x\<in>payload (kareas g'). kmem h' x = kmem h x))"

lemma push_block_effect:
  fixes k :: nat and page p :: u32 and h :: kheap
  assumes "unat page + 16 \<le> unat p" "unat p + 8 \<le> 2 ^ 32"
  defines "r \<equiv> push_block k page p h" and "m \<equiv> kmem h" and "P \<equiv> unat page"
  shows "fst r = m (P + 12)"
    "kmem (snd r) = m(unat p := MF_FREE, unat p + 4 := m (P + 4), P + 4 := p, P + 12 := m (P + 12) + 1)"
    "heads (snd r) = heads h" "kpages (snd r) = kpages h" "kmalloc_cache (snd r) = kmalloc_cache h"
proof -
  have f: "unat page + 16 \<le> 2 ^ 32" using assms(1,2) by linarith
  note fields = page_fields [OF f] block_fields [OF assms(2)]
  have n: "unat page + 4 \<noteq> unat p" "unat page + 12 \<noteq> unat p" "unat page + 12 \<noteq> unat p + 4" using assms(1) by simp_all
  show "fst r = m (P + 12)" "kmem (snd r) = m(unat p := MF_FREE, unat p + 4 := m (P + 4), P + 4 := p, P + 12 := m (P + 12) + 1)"
    unfolding r_def m_def P_def push_block_def Let_def using n by (simp_all add: ld_def ld_st fields)
  show "heads (snd r) = heads h" "kpages (snd r) = kpages h" "kmalloc_cache (snd r) = kmalloc_cache h"
    unfolding r_def push_block_def Let_def by (simp_all add: ld_st)
qed

lemma mf_distinct: "MF_USED \<noteq> MF_DMA" "mf_type d = MF_DMA \<longleftrightarrow> d" "\<not> d \<Longrightarrow> mf_type d = MF_USED"
  by (simp_all add: mf_type_def mf_defs)

text \<open>For a live object every check passes, and the block goes back on the list of its page.\<close>

lemma kfree_pushes:
  assumes "kinv h g X" "kareas g b = Some a" "kused a i = Some n"
  defines "k \<equiv> kbucket a" and "m \<equiv> kmem h"
  shows "\<exists>h1. kfree (of_nat (blk k b i + 8)) h = settle_page k (kdma a) (pg_of (k, kdma a)) (of_nat (4096 * b)) (of_nat (length (kfreed a))) h1 \<and>
    kmem h1 = m(blk k b i := MF_FREE, blk k b i + 4 := flink k b (kfreed a), 4096 * b + 4 := of_nat (blk k b i),
       4096 * b + 12 := of_nat (length (kfreed a)) + 1) \<and>
    heads h1 = heads h \<and> kpages h1 = kpages h \<and> kmalloc_cache h1 = kmalloc_cache h"
proof -
  note ar = kinv_arena(1) [OF assms(1)]
  have sh: "area_shape a" and w: "area_words m b a" using arenaD [OF ar] assms(2) by (auto simp: m_def)
  have i: "i < NBLOCKS k" and k: "k < 13" using area_cells(1,2) [OF sh, of i] assms(3) by (auto simp: k_def)
  note ptr = block_ptr [OF ar assms(2) i [unfolded k_def], folded k_def]
  let ?page = "of_nat (4096 * b) :: u32" and ?p = "of_nat (blk k b i) :: u32" and ?ptr = "of_nat (blk k b i + 8) :: u32"
  have below: "blk k b i + 8 < 2 ^ 32" using ptr(4) by linarith
  then have up: "unat ?ptr = blk k b i + 8" by (rule unat_of_nat_small)
  have "blk k b i + 8 < 4096 * b + 4096"
    using blk_room [OF k i, of b] sizes_table(1,8) [OF k] i by (auto simp: blk_def)
  then obtain d where d: "blk k b i + 8 = 4096 * b + d" "d < 4096"
    using ptr(5) le_Suc_ex [of "4096 * b" "blk k b i + 8"] by auto
  have page: "PAGE_DESC ?ptr = ?page" using page_of_block [OF d(2), of b] below unfolding d(1) by blast
  have pf: "unat (pd_next ?page) = 4096 * b" "unat (pd_order ?page) = 4096 * b + 8"
    using page_fields(1,3) [of ?page] ptr(1,2) by simp_all
  have bf: "unat (bh_flags ?p) = blk k b i" using block_fields(1) [of ?p] ptr(3,4) by simp
  have ld: "NOT PAGE_MASK AND ld (pd_next ?page) h = 0" "ld (pd_order ?page) h = of_nat k" "ld (bh_flags ?p) h = mf_type (kdma a)"
    unfolding ld_def pf bf using w assms(3) unfolding area_words_def k_def m_def by auto
  have uk: "unat (of_nat k :: u32) = k" using k by (intro unat_of_nat_small) simp
  have ok: "\<not> (of_nat (length sizes) :: u32) \<le> of_nat k" using k uk by (simp add: word_le_nat_alt sizes_def)
  define h0 where "h0 = (if kdma a then st (bh_flags ?p) MF_USED h else h)"
  have fl: "ld (bh_flags ?p) h0 = MF_USED"
    using ld(3) by (cases "kdma a") (simp_all add: h0_def mf_distinct ld_def st_def)
  have m0: "kmem h0 = (if kdma a then m(blk k b i := MF_USED) else m)" "heads h0 = heads h" "kpages h0 = kpages h" "kmalloc_cache h0 = kmalloc_cache h"
    by (simp_all add: h0_def ld_st bf m_def)
  have "unat ?page + 16 \<le> unat ?p" "unat ?p + 8 \<le> 2 ^ 32" using ptr by simp_all
  note push = push_block_effect [OF this, of k h0, unfolded ptr(1,3)]
  have nz: "?ptr \<noteq> 0" using up by auto
  have p8: "?ptr - 8 = ?p" by simp
  have "kfree ?ptr h = settle_page k (kdma a) (pg_of (k, kdma a)) ?page (fst (push_block k ?page ?p h0)) (snd (push_block k ?page ?p h0))"
    unfolding kfree_def Let_def page p8 using nz ld ok fl
    by (simp add: mf_distinct uk h0_def [symmetric] split_def pg_of_def)
  moreover have "fst (push_block k ?page ?p h0) = of_nat (length (kfreed a))"
    using w ptr(5) unfolding push(1) m0 area_words_def by (cases "kdma a") auto
  moreover have "kmem (snd (push_block k ?page ?p h0)) = m(blk k b i := MF_FREE, blk k b i + 4 := flink k b (kfreed a),
      4096 * b + 4 := ?p, 4096 * b + 12 := of_nat (length (kfreed a)) + 1)"
  proof -
    have "m (4096 * b + 4) = flink k b (kfreed a)" "m (4096 * b + 12) = of_nat (length (kfreed a))"
      using w unfolding area_words_def k_def by simp_all
    then show ?thesis unfolding push(2) m0 using ptr(5) by (cases "kdma a") auto
  qed
  ultimately show ?thesis using push(3,4,5) m0(2-4) by (intro exI [of _ "snd (push_block k ?page ?p h0)"]) simp
qed

lemma count_eq:
  assumes "area_shape a" "kused a i \<noteq> None"
  shows "length (kfreed a) < NBLOCKS (kbucket a)"
    "(of_nat (length (kfreed a)) + 1 :: u32) = of_nat (NBLOCKS (kbucket a)) \<longleftrightarrow> Suc (length (kfreed a)) = NBLOCKS (kbucket a)"
    "(of_nat (length (kfreed a)) :: u32) = 0 \<longleftrightarrow> kfreed a = []"
    "Suc (length (kfreed a)) = NBLOCKS (kbucket a) \<longleftrightarrow> dom (kused a) = {i}"
proof -
  let ?n = "NBLOCKS (kbucket a)"
  have n: "?n < 2 ^ 32" using sizes_table(5) assms(1) by (simp add: area_shape_def)
  have parts: "set (kfreed a) \<inter> dom (kused a) = {}" "set (kfreed a) \<union> dom (kused a) = {..<?n}" "distinct (kfreed a)"
    using assms(1) by (simp_all add: area_shape_def)
  have fin: "finite (dom (kused a))" using parts(2) by (metis finite_Un finite_lessThan)
  have sum: "length (kfreed a) + card (dom (kused a)) = ?n"
    using card_Un_disjoint [OF _ fin parts(1)] distinct_card [OF parts(3)] unfolding parts(2) by simp
  have i: "i \<in> dom (kused a)" using assms(2) by auto
  then have "card (dom (kused a)) > 0" using fin by (auto simp: card_gt_0_iff)
  then show l: "length (kfreed a) < ?n" using sum by linarith
  have "(of_nat (length (kfreed a)) + 1 :: u32) = of_nat (Suc (length (kfreed a)))" by simp
  moreover have "unat (of_nat (Suc (length (kfreed a))) :: u32) = Suc (length (kfreed a))" "unat (of_nat ?n :: u32) = ?n"
    using l n by (intro unat_of_nat_small; linarith)+
  ultimately show "(of_nat (length (kfreed a)) + 1 :: u32) = of_nat ?n \<longleftrightarrow> Suc (length (kfreed a)) = ?n" by metis
  have "unat (of_nat (length (kfreed a)) :: u32) = length (kfreed a)" using l n by (intro unat_of_nat_small) linarith
  then show "(of_nat (length (kfreed a)) :: u32) = 0 \<longleftrightarrow> kfreed a = []" by force
  show "Suc (length (kfreed a)) = ?n \<longleftrightarrow> dom (kused a) = {i}"
  proof
    assume "Suc (length (kfreed a)) = ?n"
    then have "card (dom (kused a)) = 1" using sum by linarith
    then show "dom (kused a) = {i}" using i by (metis card_1_singletonE singletonD)
  next
    assume "dom (kused a) = {i}"
    then show "Suc (length (kfreed a)) = ?n" using sum by simp
  qed
qed

lemma kblocks_del:
  assumes "kareas g b = Some a" "kareas g' = (kareas g)(b := None)" "kslot g' = kslot g" "\<forall>j c. kslot g j = Some c \<longrightarrow> j < 3 \<and> kareas g c = None"
  shows "kblocks g = insert (gfporder (kbucket a), b) (kblocks g')" "(gfporder (kbucket a), b) \<notin> kblocks g'"
proof -
  have k: "(z = (gfporder (kbucket x), c) \<and> kareas g c = Some x) =
      (c = b \<and> x = a \<and> z = (gfporder (kbucket a), b) \<or> z = (gfporder (kbucket x), c) \<and> kareas g' c = Some x)" for z x c
    using assms(1,2) by (cases "c = b") auto
  show "kblocks g = insert (gfporder (kbucket a), b) (kblocks g')" unfolding kblocks_def assms(3) k by blast
  show "(gfporder (kbucket a), b) \<notin> kblocks g'" using assms by (auto simp: kblocks_def)
qed

text \<open>An area whose only object is freed is given back.\<close>

lemma released_page:
  assumes "kinv h g X" "kareas g b = Some a" "kused a i = Some n" "dom (kused a) = {i}"
    and "arena (kmem h1) (heads h1) ((kareas g)(b := None)) ch" "kpages h1 = kpages h" "kmalloc_cache h1 = kmalloc_cache h"
    and "\<And>x. x \<in> payload ((kareas g)(b := None)) \<Longrightarrow> kmem h1 x = kmem h x"
  shows "\<exists>h'. free_page_of (kbucket a) dma (of_nat (4096 * b)) h1 = Some h' \<and>
    released h g X (of_nat (blk (kbucket a) b i + 8), n) h'"
proof -
  note inv = kinv_arena [OF assms(1)]
  define g1 where "g1 = g\<lparr>kareas := (kareas g)(b := None), kchain := ch\<rparr>"
  have g1: "kareas g1 = (kareas g)(b := None)" "kslot g1 = kslot g" "kchain g1 = ch" by (simp_all add: g1_def)
  note kb = kblocks_del [OF assms(2) g1(1,2) inv(3)]
  obtain F where F: "holds (kpages h) F (kblocks g \<union> X)" using assms(1) by (auto simp: kinv_def)
  have "\<exists>h' g'. free_page_of (kbucket a) dma (of_nat (4096 * b)) h1 = Some h' \<and> kinv h' g' X \<and> kareas g' = kareas g1 \<and> kmem h' = kmem h1"
  proof (rule free_page_ok)
    show "holds (kpages h1) F (insert (gfporder (kbucket a), b) (kblocks g1 \<union> X))" using F kb(1) assms(6) by simp
    show "(gfporder (kbucket a), b) \<notin> kblocks g1 \<union> X" using kb inv(4) by auto
  qed (use assms(5,7) inv(2,3,4) kb(1) in \<open>auto simp: g1\<close>)
  then obtain h' g' where h': "free_page_of (kbucket a) dma (of_nat (4096 * b)) h1 = Some h'" "kinv h' g' X" "kareas g' = kareas g1"
    "kmem h' = kmem h1" by blast
  have o: "objs g' = objs g - {(of_nat (blk (kbucket a) b i + 8), n)}"
    using objs_unuse [OF inv(1) assms(2,3), of g' None] assms(4) h'(3) g1(1) by simp
  have p: "payload (kareas g') \<subseteq> payload (kareas g)" using payload_unuse [OF assms(2), of g' None i] h'(3) g1(1) by simp
  have "busy g \<longrightarrow> busy g'" using h'(3) g1(1) by (simp add: busy_def)
  moreover have "\<forall>x\<in>payload (kareas g'). kmem h' x = kmem h x" using assms(8) h'(3,4) g1(1) by simp
  ultimately show ?thesis using h'(1,2) o p unfolding released_def by blast
qed

lemma released_block:
  assumes "kinv h g X" "kareas g b = Some a" "kused a i = Some n" "dom (kused a) \<noteq> {i}"
    and "arena (kmem h1) (heads h1) ((kareas g)(b \<mapsto> a\<lparr>kfreed := fl, kused := (kused a)(i := None)\<rparr>)) ch"
    and "kpages h1 = kpages h" "kmalloc_cache h1 = kmalloc_cache h"
    and "\<And>x. x \<in> payload (kareas g) \<Longrightarrow> kmem h1 x = kmem h x"
  shows "released h g X (of_nat (blk (kbucket a) b i + 8), n) h1"
proof -
  note inv = kinv_arena [OF assms(1)]
  let ?a = "a\<lparr>kfreed := fl, kused := (kused a)(i := None)\<rparr>"
  define g1 where "g1 = g\<lparr>kareas := (kareas g)(b \<mapsto> ?a), kchain := ch\<rparr>"
  have g1: "kareas g1 = (kareas g)(b \<mapsto> ?a)" "kslot g1 = kslot g" "kchain g1 = ch" by (simp_all add: g1_def)
  have kb: "kblocks g1 = kblocks g" by (rule kblocks_same [OF assms(2) _ g1(2,1)]) simp
  have "kinv h1 g1 X" using assms(1,2,5-7) unfolding kinv_def kb g1 by auto
  moreover have "objs g1 = objs g - {(of_nat (blk (kbucket a) b i + 8), n)}"
    using objs_unuse [OF inv(1) assms(2,3) g1(1)] by blast
  moreover have sub: "payload (kareas g1) \<subseteq> payload (kareas g)" using payload_unuse [OF assms(2) g1(1), of i] by blast
  moreover have "busy g \<longrightarrow> busy g1"
  proof -
    have "dom ((kused a)(i := None)) \<noteq> {}" using assms(3,4) by (auto simp: dom_def)
    moreover have "kused ?a = (kused a)(i := None)" by simp
    ultimately have "dom (kused ?a) \<noteq> {}" by (simp only:) blast
    then show ?thesis unfolding busy_def g1 by (metis fun_upd_apply option.inject)
  qed
  ultimately show ?thesis using assms(8) unfolding released_def by blast
qed

text \<open>Stores to the descriptor and to the header of the freed block are no stores to other objects.\<close>

lemma push_keeps:
  assumes "arena mem hs as ch" "as b = Some a" "kused a i = Some n" "x \<in> payload as"
  shows "(mem(blk (kbucket a) b i := v1, blk (kbucket a) b i + 4 := v2, 4096 * b + 4 := v3, 4096 * b + 12 := v4)) x = mem x"
    "(mem(blk (kbucket a) b i := v1, blk (kbucket a) b i + 4 := v2, 4096 * b + 4 := v3, 4096 * b + 12 := v4, 4096 * b := v5)) x = mem x"
proof -
  have "i < NBLOCKS (kbucket a)" using area_cells(2) [OF arenaD(2) [OF assms(1,2)], of i] assms(3) by auto
  note p = payload_meta [OF assms(1,4,2)] payload_meta(5,6) [OF assms(1,4,2) this]
  show "(mem(blk (kbucket a) b i := v1, blk (kbucket a) b i + 4 := v2, 4096 * b + 4 := v3, 4096 * b + 12 := v4)) x = mem x"
    "(mem(blk (kbucket a) b i := v1, blk (kbucket a) b i + 4 := v2, 4096 * b + 4 := v3, 4096 * b + 12 := v4, 4096 * b := v5)) x = mem x"
    using p(1,2,4,7,8) by simp_all
qed

text \<open>A page that is completely free is found on its chain and taken out.\<close>

lemma unlink_free_page:
  assumes "arena (kmem h1) (heads h1) ((kareas g)(b \<mapsto> a)) ch" "kfreed a \<noteq> []"
  defines "page \<equiv> of_nat (4096 * b)" and "q \<equiv> (kbucket a, kdma a)"
  obtains pg ch' where "find_page page (pg_of q) h1 = Some (Some pg)"
    "arena (kmem (set_pg pg (ld (pd_next page) h1) h1)) (heads (set_pg pg (ld (pd_next page) h1) h1)) ((kareas g)(b := None)) ch'"
    "kpages (set_pg pg (ld (pd_next page) h1) h1) = kpages h1" "kmalloc_cache (set_pg pg (ld (pd_next page) h1) h1) = kmalloc_cache h1"
    "\<And>x. x \<in> payload ((kareas g)(b := None)) \<Longrightarrow> kmem (set_pg pg (ld (pd_next page) h1) h1) x = kmem h1 x"
proof -
  let ?as = "(kareas g)(b \<mapsto> a)"
  have as: "?as b = Some a" by simp
  have "b \<in> set (ch q)" using arenaD(5) [OF assms(1), of q] assms(2) by (simp add: with_free_def q_def)
  then obtain bs cs where ch: "ch q = bs @ b # cs" by (meson split_list)
  have small: "0 < c \<and> 4096 * c < 2 ^ 32" if c: "c \<in> set (ch q)" for c
  proof -
    obtain x where "?as c = Some x" using chain_area [OF assms(1) c] by blast
    from area_room [OF assms(1) this] show ?thesis by linarith
  qed
  let ?pg = "if bs = [] then pg_of q else Next (of_nat (4096 * last bs))"
  have found: "find_page page (pg_of q) h1 = Some (Some ?pg)"
    unfolding page_def using arenaD(4,6,7) [OF assms(1), of q] small unfolding ch
    by (intro find_page_found [where cs = cs]) (simp_all add: get_pg_of)
  let ?h = "set_pg ?pg (ld (pd_next page) h1) h1"
  have ub: "unat page = 4096 * b" and ul: "bs \<noteq> [] \<Longrightarrow> unat (of_nat (4096 * last bs) :: u32) = 4096 * last bs"
    using small [of b] small [of "last bs"] unfolding ch page_def by (intro unat_of_nat_small; simp)+
  have nx: "ld (pd_next page) h1 = kmem h1 (4096 * b)" by (simp add: ld_def field_defs ub)
  have eff: "kmem ?h = (if bs = [] then kmem h1 else (kmem h1)(4096 * last bs := kmem h1 (4096 * b)))"
    "heads ?h = (if bs = [] then (heads h1)(q := kmem h1 (4096 * b)) else heads h1)" "kpages ?h = kpages h1" "kmalloc_cache ?h = kmalloc_cache h1"
    unfolding nx by (cases "bs = []"; simp add: set_pg_of ld_st field_defs ul del: of_nat_mult)+
  have ar: "arena (kmem ?h) (heads ?h) ((kareas g)(b := None)) (ch(q := bs @ cs))"
    using arena_unlink [OF assms(1) as ch] unfolding eff fun_upd_upd .
  have keep: "kmem ?h x = kmem h1 x" if x: "x \<in> payload ((kareas g)(b := None))" for x
  proof (cases "bs = []")
    case False
    then have "last bs \<in> set (ch q)" "last bs \<noteq> b" using ch arenaD(4) [OF assms(1), of q] by auto
    then obtain y where "((kareas g)(b := None)) (last bs) = Some y" using chain_area [OF assms(1), of "last bs" q] by auto
    from payload_meta(1) [OF ar x this] show ?thesis unfolding eff using False by simp
  qed (simp add: set_pg_of)
  show thesis using that [OF found ar eff(3,4) keep] .
qed

text \<open>The state after the block and, if it was full, its page were put back on their lists.\<close>

lemma kfree_settles:
  assumes "kinv h g X" "kareas g b = Some a" "kused a i = Some n" "\<not> (kfreed a = [] \<and> NBLOCKS (kbucket a) = 1)"
  defines "k \<equiv> kbucket a" and "page \<equiv> of_nat (4096 * b)" and "pg \<equiv> pg_of (kbucket a, kdma a)"
  obtains h2 ch where "kfree (of_nat (blk k b i + 8)) h =
      (if dom (kused a) = {i} then
         (case find_page page pg h2 of
            None \<Rightarrow> None
          | Some None \<Rightarrow> Some (say ''Ooops. page %p doesn't show on freelist.\<newline>'' [AInt page] h2)
          | Some (Some pg) \<Rightarrow> free_page_of k (kdma a) page (set_pg pg (ld (pd_next page) h2) h2))
       else Some h2)"
    "arena (kmem h2) (heads h2) ((kareas g)(b \<mapsto> a\<lparr>kfreed := i # kfreed a, kused := (kused a)(i := None)\<rparr>)) ch"
    "kpages h2 = kpages h" "kmalloc_cache h2 = kmalloc_cache h" "\<And>x. x \<in> payload (kareas g) \<Longrightarrow> kmem h2 x = kmem h x"
proof -
  note inv = kinv_arena [OF assms(1)]
  have sh: "area_shape a" using arenaD(2) [OF inv(1) assms(2)] .
  let ?k = "kbucket a" and ?q = "(kbucket a, kdma a)" and ?page = "of_nat (4096 * b) :: u32" and ?fl = "kfreed a"
  obtain h1 where h1: "kfree (of_nat (blk ?k b i + 8)) h = settle_page ?k (kdma a) (pg_of ?q) ?page (of_nat (length ?fl)) h1"
    "kmem h1 = (kmem h)(blk ?k b i := MF_FREE, blk ?k b i + 4 := flink ?k b ?fl, 4096 * b + 4 := of_nat (blk ?k b i),
       4096 * b + 12 := of_nat (length ?fl) + 1)"
    "heads h1 = heads h" "kpages h1 = kpages h" "kmalloc_cache h1 = kmalloc_cache h"
    using kfree_pushes [OF assms(1-3)] by blast
  have "kused a i \<noteq> None" using assms(3) by simp
  note cnt = count_eq [OF sh this]
  have i: "i \<in> set ?fl \<union> dom (kused a)" using assms(3) by auto
  define h2 where "h2 = (if ?fl = [] then set_pg (pg_of ?q) ?page (st (pd_next ?page) (get_pg (pg_of ?q) h1) h1) else h1)"
  have room: "4096 * b + 16 \<le> 2 ^ 32" "unat ?page = 4096 * b"
    using block_ptr(1,2) [OF inv(1) assms(2), of i] area_cells(2) [OF sh i] by simp_all
  have pf: "unat (pd_next ?page) = 4096 * b" "unat (pd_nfree ?page) = 4096 * b + 12" using page_fields(1,4) [of ?page] room by simp_all
  have m2: "kmem h2 = (if ?fl = [] then (kmem h1)(4096 * b := heads h ?q) else kmem h1)"
    "heads h2 = (if ?fl = [] then (heads h)(?q := ?page) else heads h)" "kpages h2 = kpages h" "kmalloc_cache h2 = kmalloc_cache h"
    unfolding h2_def by (simp_all add: set_pg_of ld_st pf h1(3-5) get_pg_of del: of_nat_mult)
  have ar: "arena (kmem h2) (heads h2) ((kareas g)(b \<mapsto> a\<lparr>kfreed := i # ?fl, kused := (kused a)(i := None)\<rparr>))
      (if ?fl = [] then (kchain g)(?q := b # kchain g ?q) else kchain g)"
    using arena_push [OF inv(1) assms(2,3) refl] unfolding m2 h1(2) .
  have keep: "kmem h2 x = kmem h x" if "x \<in> payload (kareas g)" for x
    using push_keeps [OF inv(1) assms(2,3) that] unfolding m2 h1(2) by (cases "?fl = []") simp_all
  have nf: "ld (pd_nfree ?page) h2 = of_nat (length ?fl) + 1" unfolding ld_def pf m2 h1(2) by simp
  have "settle_page ?k (kdma a) (pg_of ?q) ?page (of_nat (length ?fl)) h1 =
     (if dom (kused a) = {i} then
        (case find_page ?page (pg_of ?q) h2 of
           None \<Rightarrow> None
         | Some None \<Rightarrow> Some (say ''Ooops. page %p doesn't show on freelist.\<newline>'' [AInt ?page] h2)
         | Some (Some pg) \<Rightarrow> free_page_of ?k (kdma a) ?page (set_pg pg (ld (pd_next ?page) h2) h2))
      else Some h2)"
    using assms(4) nf unfolding settle_page_def cnt(3) Let_def h2_def [symmetric] cnt(2) [symmetric] cnt(4) [symmetric] by auto
  from that [OF _ ar m2(3,4) keep] this show thesis unfolding h1(1) k_def page_def pg_def by blast
qed

text \<open>With its last object the page goes.\<close>

lemma kfree_last:
  assumes "kinv h g X" "kareas g b = Some a" "kused a i = Some n" "dom (kused a) = {i}"
  obtains h3 ch where "kfree (of_nat (blk (kbucket a) b i + 8)) h = free_page_of (kbucket a) (kdma a) (of_nat (4096 * b)) h3"
    "arena (kmem h3) (heads h3) ((kareas g)(b := None)) ch" "kpages h3 = kpages h" "kmalloc_cache h3 = kmalloc_cache h"
    "\<And>x. x \<in> payload ((kareas g)(b := None)) \<Longrightarrow> kmem h3 x = kmem h x"
proof (cases "kfreed a = [] \<and> NBLOCKS (kbucket a) = 1")
  case True
  note inv = kinv_arena [OF assms(1)]
  have i: "i \<in> set (kfreed a) \<union> dom (kused a)" using assms(3) by auto
  obtain h1 where h1: "kfree (of_nat (blk (kbucket a) b i + 8)) h =
      settle_page (kbucket a) (kdma a) (pg_of (kbucket a, kdma a)) (of_nat (4096 * b)) (of_nat (length (kfreed a))) h1"
    "kmem h1 = (kmem h)(blk (kbucket a) b i := MF_FREE, blk (kbucket a) b i + 4 := flink (kbucket a) b (kfreed a),
       4096 * b + 4 := of_nat (blk (kbucket a) b i), 4096 * b + 12 := of_nat (length (kfreed a)) + 1)"
    "heads h1 = heads h" "kpages h1 = kpages h" "kmalloc_cache h1 = kmalloc_cache h"
    using kfree_pushes [OF assms(1-3)] by blast
  have ar: "arena (kmem h1) (heads h1) ((kareas g)(b := None)) (kchain g)"
    unfolding h1(3) by (rule arena_drop [OF inv(1) assms(2)]) (use True inside [OF inv(1) assms(2) i] in \<open>simp_all add: h1(2)\<close>)
  have keep: "kmem h1 x = kmem h x" if x: "x \<in> payload ((kareas g)(b := None))" for x
  proof -
    have "x \<in> payload (kareas g)" using x payload_unuse [OF assms(2), of "g\<lparr>kareas := (kareas g)(b := None)\<rparr>" None i] by auto
    then show ?thesis using push_keeps(1) [OF inv(1) assms(2,3)] unfolding h1(2) by blast
  qed
  have "kfree (of_nat (blk (kbucket a) b i + 8)) h = free_page_of (kbucket a) (kdma a) (of_nat (4096 * b)) h1"
    unfolding h1(1) using True by (simp add: settle_page_def)
  from that [OF this ar h1(4,5) keep] show thesis .
next
  case False
  obtain h2 ch where h2: "kfree (of_nat (blk (kbucket a) b i + 8)) h =
      (if dom (kused a) = {i} then case find_page (of_nat (4096 * b)) (pg_of (kbucket a, kdma a)) h2 of
         None \<Rightarrow> None
       | Some None \<Rightarrow> Some (say ''Ooops. page %p doesn't show on freelist.\<newline>'' [AInt (of_nat (4096 * b))] h2)
       | Some (Some pg) \<Rightarrow> free_page_of (kbucket a) (kdma a) (of_nat (4096 * b)) (set_pg pg (ld (pd_next (of_nat (4096 * b))) h2) h2)
       else Some h2)"
    "arena (kmem h2) (heads h2) ((kareas g)(b \<mapsto> a\<lparr>kfreed := i # kfreed a, kused := (kused a)(i := None)\<rparr>)) ch"
    "kpages h2 = kpages h" "kmalloc_cache h2 = kmalloc_cache h" "\<And>x. x \<in> payload (kareas g) \<Longrightarrow> kmem h2 x = kmem h x"
    by (rule kfree_settles [OF assms(1-3) False]) (rule that)
  have sub: "payload ((kareas g)(b := None)) \<subseteq> payload (kareas g)"
    using payload_unuse [OF assms(2), of "g\<lparr>kareas := (kareas g)(b := None)\<rparr>" None i] by simp
  obtain pg ch' where pg: "find_page (of_nat (4096 * b)) (pg_of (kbucket a, kdma a)) h2 = Some (Some pg)"
    "arena (kmem (set_pg pg (ld (pd_next (of_nat (4096 * b))) h2) h2)) (heads (set_pg pg (ld (pd_next (of_nat (4096 * b))) h2) h2))
       ((kareas g)(b := None)) ch'"
    "kpages (set_pg pg (ld (pd_next (of_nat (4096 * b))) h2) h2) = kpages h2"
    "kmalloc_cache (set_pg pg (ld (pd_next (of_nat (4096 * b))) h2) h2) = kmalloc_cache h2"
    "\<And>x. x \<in> payload ((kareas g)(b := None)) \<Longrightarrow> kmem (set_pg pg (ld (pd_next (of_nat (4096 * b))) h2) h2) x = kmem h2 x"
    using unlink_free_page [OF h2(2)] by auto
  show thesis
  proof (rule that [OF _ pg(2)])
    show "kfree (of_nat (blk (kbucket a) b i + 8)) h = free_page_of (kbucket a) (kdma a) (of_nat (4096 * b))
        (set_pg pg (ld (pd_next (of_nat (4096 * b))) h2) h2)"
      unfolding h2(1) assms(4) pg(1) by simp
  qed (use h2(3-5) pg(3-5) sub in \<open>simp_all add: subset_iff\<close>)
qed

theorem kfree_ok:
  assumes "kinv h g X" "(ptr, n) \<in> objs g"
  shows "\<exists>h'. kfree ptr h = Some h' \<and> released h g X (ptr, n) h'"
proof -
  obtain b a i where b: "kareas g b = Some a" "kused a i = Some n" "ptr = of_nat (blk (kbucket a) b i + 8)"
    using assms(2) by (auto simp: objs_def)
  show ?thesis
  proof (cases "dom (kused a) = {i}")
    case True
    obtain h3 ch where h3: "kfree ptr h = free_page_of (kbucket a) (kdma a) (of_nat (4096 * b)) h3"
      "arena (kmem h3) (heads h3) ((kareas g)(b := None)) ch" "kpages h3 = kpages h" "kmalloc_cache h3 = kmalloc_cache h"
      "\<And>x. x \<in> payload ((kareas g)(b := None)) \<Longrightarrow> kmem h3 x = kmem h x"
      using kfree_last [OF assms(1) b(1,2) True] unfolding b(3) by blast
    show ?thesis using released_page [OF assms(1) b(1,2) True h3(2-5), of "kdma a"] unfolding h3(1) unfolding b(3) .
  next
    case False
    have "area_shape a" using arenaD(2) [OF kinv_arena(1) [OF assms(1)] b(1)] .
    then have "\<not> (kfreed a = [] \<and> NBLOCKS (kbucket a) = 1)" using False count_eq(4) [of a i] b(2) by auto
    from kfree_settles [OF assms(1) b(1,2) this, unfolded if_not_P [OF False]] obtain h2 ch where h2: "kfree ptr h = Some h2"
      "arena (kmem h2) (heads h2) ((kareas g)(b \<mapsto> a\<lparr>kfreed := i # kfreed a, kused := (kused a)(i := None)\<rparr>)) ch"
      "kpages h2 = kpages h" "kmalloc_cache h2 = kmalloc_cache h" "\<And>x. x \<in> payload (kareas g) \<Longrightarrow> kmem h2 x = kmem h x"
      unfolding b(3) by blast
    have "released h g X (ptr, n) h2" using released_block [OF assms(1) b(1,2) False h2(2-5)] unfolding b(3) .
    then show ?thesis using h2(1) by simp
  qed
qed

end
