(* ===== verification/Kmalloc_Props.thy ===== *)
theory Kmalloc_Props
  imports Kmalloc_Free
begin

text \<open>
  What the kernel's memory allocator promises its callers, as an interface, and that \<^verbatim>\<open>mm/kmalloc.c\<close> on top of
  \<^verbatim>\<open>mm/page_alloc.c\<close> keeps the promise.
\<close>

section \<open>A heap of objects\<close>

text \<open>The words of an object at \<^verbatim>\<open>p\<close> of \<^verbatim>\<open>n\<close> bytes.\<close>

definition cell :: "u32 \<times> u32 \<Rightarrow> nat set" where
  "cell = (\<lambda>(p, n). {unat p + 4 * k |k. 4 * k < unat n})"

lemma cellI: "4 * k < unat n \<Longrightarrow> unat p + 4 * k \<in> cell (p, n)"
  by (auto simp: cell_def)

text \<open>
  A client allocates, frees the \<^verbatim>\<open>i\<close>-th object it holds, and stores the \<^verbatim>\<open>k\<close>-th word of the \<^verbatim>\<open>i\<close>-th object. Of each object it
  notes address, size and what it expects to read there.
\<close>

datatype 'q heap_op = Alloc 'q u32 | Free nat | Write nat nat u32

fun heap_step ::
  "('q \<Rightarrow> u32 \<Rightarrow> 's \<Rightarrow> (u32 \<times> 's) option) \<Rightarrow> (u32 \<Rightarrow> 's \<Rightarrow> 's option) \<Rightarrow> ('s \<Rightarrow> nat \<Rightarrow> u32) \<Rightarrow> (nat \<Rightarrow> u32 \<Rightarrow> 's \<Rightarrow> 's) \<Rightarrow>
     'q heap_op \<Rightarrow> 's \<times> (u32 \<times> u32 \<times> (nat \<Rightarrow> u32)) list \<Rightarrow> ('s \<times> (u32 \<times> u32 \<times> (nat \<Rightarrow> u32)) list) option" where
  "heap_step alloc free rd wr (Alloc q n) (s, os) =
     (case alloc q n s of
        None \<Rightarrow> None
      | Some (p, s') \<Rightarrow> Some (s', if p = 0 then os else (p, n, \<lambda>k. rd s' (unat p + 4 * k)) # os))"
| "heap_step alloc free rd wr (Free i) (s, os) =
     (if i < length os
      then map_option (\<lambda>s'. (s', take i os @ drop (Suc i) os)) (free (fst (os ! i)) s)
      else Some (s, os))"
| "heap_step alloc free rd wr (Write i k v) (s, os) =
     (if i < length os then
        let (p, n, c) = os ! i
        in if 4 * k < unat n then Some (wr (unat p + 4 * k) v s, os[i := (p, n, c(k := v))]) else Some (s, os)
      else Some (s, os))"

fun heap_run ::
  "('q \<Rightarrow> u32 \<Rightarrow> 's \<Rightarrow> (u32 \<times> 's) option) \<Rightarrow> (u32 \<Rightarrow> 's \<Rightarrow> 's option) \<Rightarrow> ('s \<Rightarrow> nat \<Rightarrow> u32) \<Rightarrow> (nat \<Rightarrow> u32 \<Rightarrow> 's \<Rightarrow> 's) \<Rightarrow>
     'q heap_op list \<Rightarrow> 's \<times> (u32 \<times> u32 \<times> (nat \<Rightarrow> u32)) list \<Rightarrow> ('s \<times> (u32 \<times> u32 \<times> (nat \<Rightarrow> u32)) list) option" where
  "heap_run alloc free rd wr [] c = Some c"
| "heap_run alloc free rd wr (op # ops) c =
     (case heap_step alloc free rd wr op c of None \<Rightarrow> None | Some c' \<Rightarrow> heap_run alloc free rd wr ops c')"

text \<open>A request must leave room for the header of the block: sizes near \<^verbatim>\<open>2 ^ 32\<close> wrap around.\<close>

fun op_ok :: "('q \<Rightarrow> bool) \<Rightarrow> 'q heap_op \<Rightarrow> bool" where
  "op_ok ok (Alloc q n) = (ok q \<and> unat n + 8 < 2 ^ 32)"
| "op_ok ok op = True"

definition sizes_of :: "(u32 \<times> u32 \<times> (nat \<Rightarrow> u32)) list \<Rightarrow> (u32 \<times> u32) set" where
  "sizes_of os = (\<lambda>(p, n, c). (p, n)) ` set os"

definition as_written :: "(nat \<Rightarrow> u32) \<Rightarrow> (u32 \<times> u32 \<times> (nat \<Rightarrow> u32)) list \<Rightarrow> bool" where
  "as_written mem os \<longleftrightarrow> (\<forall>(p, n, c)\<in>set os. \<forall>k. 4 * k < unat n \<longrightarrow> mem (unat p + 4 * k) = c k)"

lemma as_written_keep:
  assumes "as_written mem os" "\<And>x. x \<in> (\<Union>z\<in>sizes_of os. cell z) \<Longrightarrow> mem' x = mem x"
  shows "as_written mem' os"
  using assms unfolding as_written_def sizes_of_def by (fastforce intro: cellI)

definition good :: "('s \<Rightarrow> (u32 \<times> u32) set \<Rightarrow> bool) \<Rightarrow> ('s \<Rightarrow> nat \<Rightarrow> u32) \<Rightarrow> 's \<times> (u32 \<times> u32 \<times> (nat \<Rightarrow> u32)) list \<Rightarrow> bool" where
  "good I rd = (\<lambda>(s, os). I s (sizes_of os) \<and> distinct (map fst os) \<and> as_written (rd s) os)"

lemma sizes_of_simps [simp]: "sizes_of [] = {}" "sizes_of ((p, n, c) # os) = insert (p, n) (sizes_of os)"
  "sizes_of (os @ os') = sizes_of os \<union> sizes_of os'"
  by (simp_all add: sizes_of_def image_Un)

lemma as_written_simps [simp]: "as_written mem []" "as_written mem (os @ os') = (as_written mem os \<and> as_written mem os')"
  "as_written mem ((p, n, c) # os) = ((\<forall>k. 4 * k < unat n \<longrightarrow> mem (unat p + 4 * k) = c k) \<and> as_written mem os)"
  by (simp_all add: as_written_def ball_Un)

lemma fst_sizes_of: "fst ` sizes_of os = set (map fst os)"
  by (force simp: sizes_of_def)

locale object_heap =
  fixes inv :: "'s \<Rightarrow> (u32 \<times> u32) set \<Rightarrow> bool"
    and ok :: "'q \<Rightarrow> bool"
    and alloc :: "'q \<Rightarrow> u32 \<Rightarrow> 's \<Rightarrow> (u32 \<times> 's) option"
    and free :: "u32 \<Rightarrow> 's \<Rightarrow> 's option"
    and rd :: "'s \<Rightarrow> nat \<Rightarrow> u32"
    and wr :: "nat \<Rightarrow> u32 \<Rightarrow> 's \<Rightarrow> 's"
  assumes alloc_law: "inv s L \<Longrightarrow> ok q \<Longrightarrow> unat n + 8 < 2 ^ 32 \<Longrightarrow> \<exists>p s'. alloc q n s = Some (p, s') \<and>
        (if p = 0 then inv s' L else p \<notin> fst ` L \<and> inv s' (insert (p, n) L)) \<and> (\<forall>x\<in>(\<Union>z\<in>L. cell z). rd s' x = rd s x)"
    and free_law: "inv s L \<Longrightarrow> (p, n) \<in> L \<Longrightarrow> \<exists>s'. free p s = Some s' \<and> inv s' (L - {(p, n)}) \<and>
        (\<forall>x\<in>(\<Union>z\<in>L - {(p, n)}. cell z). rd s' x = rd s x)"
    and write_law: "inv s L \<Longrightarrow> z \<in> L \<Longrightarrow> x \<in> cell z \<Longrightarrow> inv (wr x v s) L \<and> rd (wr x v s) = (rd s)(x := v)"
    and separate: "inv s L \<Longrightarrow> (p, n) \<in> L \<Longrightarrow> (p', n') \<in> L \<Longrightarrow> p \<noteq> p' \<Longrightarrow> cell (p, n) \<inter> cell (p', n') = {}"
begin

lemma free_step:
  assumes "good inv rd (s, os1 @ (p, n, c) # os2)"
  shows "\<exists>s'. free p s = Some s' \<and> good inv rd (s', os1 @ os2)"
proof -
  let ?L = "sizes_of (os1 @ (p, n, c) # os2)"
  have g: "inv s ?L" "distinct (map fst (os1 @ (p, n, c) # os2))" "as_written (rd s) (os1 @ os2)"
    using assms by (simp_all add: good_def)
  obtain s' where s': "free p s = Some s'" "inv s' (?L - {(p, n)})" "\<forall>x\<in>(\<Union>z\<in>?L - {(p, n)}. cell z). rd s' x = rd s x"
    using free_law [OF g(1), of p n] by auto
  have "p \<notin> set (map fst (os1 @ os2))" using g(2) by simp
  then have "(p, n) \<notin> sizes_of (os1 @ os2)" using fst_sizes_of [of "os1 @ os2"] by (metis fst_conv image_eqI)
  then have L: "?L - {(p, n)} = sizes_of (os1 @ os2)" by auto
  have "as_written (rd s') (os1 @ os2)" by (rule as_written_keep [OF g(3)]) (use s'(3) in \<open>simp only: L\<close>)
  then show ?thesis using s'(1,2) g(2) unfolding L by (auto simp: good_def)
qed

lemma write_step:
  assumes "good inv rd (s, os1 @ (p, n, c) # os2)" "4 * k < unat n"
  shows "good inv rd (wr (unat p + 4 * k) v s, os1 @ (p, n, c(k := v)) # os2)"
proof -
  let ?L = "sizes_of (os1 @ (p, n, c) # os2)" and ?x = "unat p + 4 * k"
  have g: "inv s ?L" "distinct (map fst (os1 @ (p, n, c) # os2))" "as_written (rd s) (os1 @ os2)"
    "\<And>k. 4 * k < unat n \<Longrightarrow> rd s (unat p + 4 * k) = c k"
    using assms(1) by (simp_all add: good_def)
  have w: "inv (wr ?x v s) ?L" "rd (wr ?x v s) = (rd s)(?x := v)"
    using write_law [OF g(1), of "(p, n)" ?x v] cellI [OF assms(2), of p] by auto
  have "as_written (rd (wr ?x v s)) (os1 @ os2)"
  proof (rule as_written_keep [OF g(3)])
    fix y assume "y \<in> (\<Union>z\<in>sizes_of (os1 @ os2). cell z)"
    then obtain p' n' where p': "(p', n') \<in> sizes_of (os1 @ os2)" "y \<in> cell (p', n')" by auto
    have "p \<notin> fst ` sizes_of (os1 @ os2)" using g(2) unfolding fst_sizes_of by simp
    then have "p' \<noteq> p" using p'(1) by (metis fst_conv image_eqI)
    then have "cell (p', n') \<inter> cell (p, n) = {}" using separate [OF g(1), of p' n' p n] p'(1) by auto
    then have "y \<noteq> ?x" using p'(2) cellI [OF assms(2), of p] by blast
    then show "rd (wr ?x v s) y = rd s y" by (simp add: w(2))
  qed
  then show ?thesis using w g(2,4) by (auto simp: good_def)
qed

lemma step_good:
  assumes "good inv rd (s, os)" "op_ok ok op"
  shows "\<exists>c'. heap_step alloc free rd wr op (s, os) = Some c' \<and> good inv rd c'"
proof (cases op)
  case (Alloc q n)
  have g: "inv s (sizes_of os)" "distinct (map fst os)" "as_written (rd s) os" using assms(1) by (simp_all add: good_def)
  obtain p s' where p: "alloc q n s = Some (p, s')"
    "if p = 0 then inv s' (sizes_of os) else p \<notin> fst ` sizes_of os \<and> inv s' (insert (p, n) (sizes_of os))"
    "\<forall>x\<in>(\<Union>z\<in>sizes_of os. cell z). rd s' x = rd s x"
    using alloc_law [OF g(1), of q n] assms(2) Alloc by auto
  have "as_written (rd s') os" by (rule as_written_keep [OF g(3)]) (use p(3) in blast)
  then show ?thesis using Alloc p(1,2) g(2) unfolding fst_sizes_of by (cases "p = 0") (auto simp: good_def)
next
  case (Free i)
  show ?thesis
  proof (cases "i < length os")
    case True
    obtain p n c where o: "os ! i = (p, n, c)" by (cases "os ! i") auto
    have "os = take i os @ (p, n, c) # drop (Suc i) os" using id_take_nth_drop [OF True] o by simp
    then have "good inv rd (s, take i os @ (p, n, c) # drop (Suc i) os)" using assms(1) by simp
    from free_step [OF this] show ?thesis using True Free o by auto
  next
    case False
    then show ?thesis using assms(1) Free by auto
  qed
next
  case (Write i k v)
  show ?thesis
  proof (cases "i < length os")
    case True
    obtain p n c where o: "os ! i = (p, n, c)" by (cases "os ! i") auto
    have "os = take i os @ (p, n, c) # drop (Suc i) os" using id_take_nth_drop [OF True] o by simp
    then have "good inv rd (s, take i os @ (p, n, c) # drop (Suc i) os)" using assms(1) by simp
    from write_step [OF this, of k v] show ?thesis
      using True Write o assms(1) by (auto simp: upd_conv_take_nth_drop)
  next
    case False
    then show ?thesis using assms(1) Write by auto
  qed
qed

lemma run_good:
  assumes "good inv rd c" "\<forall>op\<in>set ops. op_ok ok op"
  shows "\<exists>c'. heap_run alloc free rd wr ops c = Some c' \<and> good inv rd c'"
  using assms
proof (induction ops arbitrary: c)
  case (Cons op ops)
  obtain c1 where "heap_step alloc free rd wr op c = Some c1" "good inv rd c1"
    using step_good [of "fst c" "snd c" op] Cons.prems by auto
  then show ?case using Cons.IH Cons.prems(2) by auto
qed simp

lemma good_apart:
  assumes "good inv rd (s, os)" "i < length os" "j < length os" "i \<noteq> j"
  shows "cell (fst (os ! i), fst (snd (os ! i))) \<inter> cell (fst (os ! j), fst (snd (os ! j))) = {}"
proof -
  have g: "inv s (sizes_of os)" "distinct (map fst os)" using assms(1) by (simp_all add: good_def)
  have "fst (os ! i) \<noteq> fst (os ! j)" using g(2) assms(2-4) by (metis length_map nth_eq_iff_index_eq nth_map)
  moreover have "(fst (os ! k), fst (snd (os ! k))) \<in> sizes_of os" if "k < length os" for k
    using nth_mem [OF that] unfolding sizes_of_def by (force simp: split_def)
  ultimately show ?thesis using separate [OF g(1)] assms(2,3) by blast
qed

end

section \<open>The kernel's heap is one\<close>

definition kheap_ok :: "(nat \<times> nat) set \<Rightarrow> kheap \<Rightarrow> (u32 \<times> u32) set \<Rightarrow> bool" where
  "kheap_ok X h L \<longleftrightarrow> (\<exists>g. kinv h g X \<and> busy g \<and> objs g = L)"

definition kstore :: "nat \<Rightarrow> u32 \<Rightarrow> kheap \<Rightarrow> kheap" where
  "kstore x v h = h\<lparr>kmem := (kmem h)(x := v)\<rparr>"

lemma cell_block:
  assumes "arena mem hs (kareas g) ch" "z \<in> objs g" "x \<in> cell z"
  obtains b a i where "kareas g b = Some a" "i \<in> dom (kused a)" "i < NBLOCKS (kbucket a)" "unat (fst z) = blk (kbucket a) b i + 8"
    "blk (kbucket a) b i + 8 \<le> x" "x < blk (kbucket a) b i + BLOCKSIZE (kbucket a)"
proof -
  obtain p n where z: "z = (p, n)" by fastforce
  obtain b a i where b: "kareas g b = Some a" "kused a i = Some n" "i < NBLOCKS (kbucket a)" "unat p = blk (kbucket a) b i + 8"
      "unat n + 8 \<le> BLOCKSIZE (kbucket a)"
    by (rule objs_ptr [OF assms(1), of p n]) (use assms(2) z in auto)
  obtain k where "x = unat p + 4 * k" "4 * k < unat n" using assms(3) z by (auto simp: cell_def)
  then show thesis using that [of b a i] b z by auto
qed

lemma cell_payload:
  assumes "kinv h g X" "z \<in> objs g" "x \<in> cell z"
  shows "x \<in> payload (kareas g)"
  by (rule cell_block [OF kinv_arena(1) [OF assms(1)] assms(2,3)]) (unfold payload_def, blast)

lemma cells_apart:
  assumes "kinv h g X" "(p, n) \<in> objs g" "(p', n') \<in> objs g" "p \<noteq> p'"
  shows "cell (p, n) \<inter> cell (p', n') = {}"
proof (rule ccontr)
  note ar = kinv_arena(1) [OF assms(1)]
  assume "cell (p, n) \<inter> cell (p', n') \<noteq> {}"
  then obtain x where x: "x \<in> cell (p, n)" "x \<in> cell (p', n')" by blast
  obtain b a i where b: "kareas g b = Some a" "i \<in> dom (kused a)" "i < NBLOCKS (kbucket a)" "unat p = blk (kbucket a) b i + 8"
      "blk (kbucket a) b i + 8 \<le> x" "x < blk (kbucket a) b i + BLOCKSIZE (kbucket a)"
    by (rule cell_block [OF ar assms(2) x(1)]) simp
  obtain c a' j where c: "kareas g c = Some a'" "j \<in> dom (kused a')" "j < NBLOCKS (kbucket a')" "unat p' = blk (kbucket a') c j + 8"
      "blk (kbucket a') c j + 8 \<le> x" "x < blk (kbucket a') c j + BLOCKSIZE (kbucket a')"
    by (rule cell_block [OF ar assms(3) x(2)]) simp
  note k = area_room(1) [OF ar b(1)] area_room(1) [OF ar c(1)]
  have "b = c"
  proof (rule ccontr)
    assume "b \<noteq> c"
    then show False
      using spacedD [OF arenaD(1) [OF ar] b(1) c(1), of x] blk_room [OF k(1) b(3), of b] blk_room [OF k(2) c(3), of c] b(5,6) c(5,6)
      by linarith
  qed
  then have "a' = a" using b(1) c(1) by simp
  moreover have "i \<noteq> j" using assms(4) b(4) c(4) \<open>b = c\<close> calculation by (metis unsigned_word_eqI)
  ultimately show False
    using blk_less [of i j "kbucket a" b] blk_less [of j i "kbucket a" b] b(5,6) c(5,6) \<open>b = c\<close> by (cases i j rule: linorder_cases) auto
qed

text \<open>A request is the context of the call and the priority; only one that is not atomic depends on \<^verbatim>\<open>try_to_free_page\<close>.\<close>

definition fair_call :: "kcontext \<times> int \<Rightarrow> bool" where
  "fair_call = (\<lambda>(c, p). p AND GFP_LEVEL_MASK = GFP_ATOMIC \<or> reclaim_ok (try_to_free_page c))"

interpretation kheap: object_heap "kheap_ok X" fair_call "\<lambda>(c, p) n. kmalloc c n p" kfree kmem kstore
  for X
proof (unfold_locales, goal_cases)
  case (1 s L q n)
  obtain g where g: "kinv s g X" "busy g" "objs g = L" using 1(1) by (auto simp: kheap_ok_def)
  obtain c p where q: "q = (c, p)" by fastforce
  obtain r where r: "kmalloc c n p s = Some r" "kmalloc_result s g X n r" using kmalloc_ok [OF g(1) 1(3), of p c] 1(2) q by (auto simp: fair_call_def)
  have "(if fst r = 0 then kheap_ok X (snd r) L else fst r \<notin> fst ` L \<and> kheap_ok X (snd r) (insert (fst r, n) L)) \<and>
      (\<forall>x\<in>payload (kareas g). kmem (snd r) x = kmem s x)"
    using r(2) g(2,3) unfolding kmalloc_result_def allocated_def kheap_ok_def by (auto simp: busy_def split: if_splits)
  moreover have "x \<in> payload (kareas g)" if "x \<in> (\<Union>z\<in>L. cell z)" for x using that cell_payload [OF g(1)] g(3) by auto
  ultimately show ?case using r(1) q by (intro exI [of _ "fst r"] exI [of _ "snd r"]) auto
next
  case (2 s L p n)
  obtain g where g: "kinv s g X" "busy g" "objs g = L" using 2(1) by (auto simp: kheap_ok_def)
  obtain s' g' where s': "kfree p s = Some s'" "kinv s' g' X" "objs g' = L - {(p, n)}" "busy g'"
      "\<forall>x\<in>payload (kareas g'). kmem s' x = kmem s x"
    using kfree_ok [OF g(1), of p n] 2(2) g(2,3) by (auto simp: released_def)
  moreover have "x \<in> payload (kareas g')" if "x \<in> (\<Union>z\<in>L - {(p, n)}. cell z)" for x
    using that cell_payload [OF s'(2)] unfolding s'(3) by auto
  ultimately show ?case by (auto simp: kheap_ok_def)
next
  case (3 s L z x v)
  obtain g where g: "kinv s g X" "busy g" "objs g = L" using 3(1) by (auto simp: kheap_ok_def)
  have x: "x \<in> payload (kareas g)" using cell_payload [OF g(1)] 3(2,3) g(3) by simp
  have "kinv (kstore x v s) g X"
    using g(1) arena_store [OF kinv_arena(1) [OF g(1)] x, of v] by (simp add: kinv_def kstore_def)
  then show ?case using g by (auto simp: kheap_ok_def kstore_def)
next
  case (4 s L p n p' n')
  then show ?case unfolding kheap_ok_def using cells_apart by blast
qed

text \<open>The empty heap, as the load of the kernel leaves it.\<close>

definition fresh_heap :: "kheap \<Rightarrow> bool" where
  "fresh_heap h \<longleftrightarrow> firstfree h = (\<lambda>_. 0) \<and> dmafree h = (\<lambda>_. 0) \<and> kmalloc_cache h = (\<lambda>_. 0)"

lemma fresh_heap_ok:
  assumes "fresh_heap h" "leased (kpages h) F H"
  shows "kheap_ok (set H) h {}"
proof -
  let ?g = "\<lparr>kareas = (\<lambda>_. None), kchain = (\<lambda>_. []), kslot = (\<lambda>_. None)\<rparr>"
  have "arena (kmem h) (heads h) (kareas ?g) (kchain ?g)"
    using assms(1) by (auto simp: arena_def spaced_def with_free_def fresh_heap_def heads_def)
  then have "kinv h ?g (set H)"
    using assms by (auto simp: kinv_def kblocks_def holds_def fresh_heap_def)
  then show ?thesis unfolding kheap_ok_def by (intro exI [of _ ?g]) (simp add: busy_def objs_def)
qed

lemma heap_empty:
  assumes "kheap_ok X h {}"
  shows "firstfree h = (\<lambda>_. 0)" "dmafree h = (\<lambda>_. 0)"
proof -
  obtain g where g: "kinv h g X" "busy g" "objs g = {}" using assms by (auto simp: kheap_ok_def)
  have "kareas g b = None" for b
  proof (rule ccontr)
    assume "kareas g b \<noteq> None"
    then obtain a i n where "kareas g b = Some a" "kused a i = Some n" using g(2) unfolding busy_def by fast
    then show False using objsI [of g b a i n] g(3) by auto
  qed
  then have "kchain g q = []" for q
    using arenaD(5) [OF kinv_arena(1) [OF g(1)], of q] by (auto simp: with_free_def)
  then have "heads h q = 0" for q using arenaD(7) [OF kinv_arena(1) [OF g(1)], of q] by simp
  from this [of "(_, False)"] this [of "(_, True)"] show "firstfree h = (\<lambda>_. 0)" "dmafree h = (\<lambda>_. 0)"
    by (auto simp: heads_def)
qed

lemma heap_pages:
  assumes "kheap_ok X h L"
  obtains F where "pool (kpages h) F" "\<forall>b\<in>X. in_use (kpages h) F b"
    "\<And>z k b. z \<in> L \<Longrightarrow> (k, b) \<in> X \<Longrightarrow> cell z \<inter> {4096 * b ..< 4096 * (b + 2 ^ k)} = {}"
proof -
  obtain g where g: "kinv h g X" "objs g = L" using assms by (auto simp: kheap_ok_def)
  then obtain F where F: "holds (kpages h) F (kblocks g \<union> X)" by (auto simp: kinv_def)
  have "x \<notin> {4096 * b ..< 4096 * (b + 2 ^ k)}" if z: "z \<in> L" and b: "(k, b) \<in> X" and x: "x \<in> cell z" for z k b x
  proof -
    obtain c a where c: "kareas g c = Some a" "4096 * c \<le> x" "x < 4096 * c + AREASIZE (kbucket a)"
      by (rule payload_region [OF kinv_arena(1) [OF g(1)] cell_payload [OF g(1) _ x]]) (use z g(2) in auto)
    have k: "(gfporder (kbucket a), c) \<in> kblocks g" using c(1) by (auto simp: kblocks_def)
    then have "(gfporder (kbucket a), c) \<noteq> (k, b)" using b kinv_arena(4) [OF g(1)] by auto
    then have d: "block (gfporder (kbucket a)) c \<inter> block k b = {}" using holds_apart [OF F, of "gfporder (kbucket a)" c k b] k b by auto
    have "x div 4096 \<in> block (gfporder (kbucket a)) c" using c(2,3) unfolding AREASIZE_le block_def by auto
    then have "x div 4096 \<notin> block k b" using d by auto
    then show ?thesis unfolding block_def by auto
  qed
  then have away: "cell z \<inter> {4096 * b ..< 4096 * (b + 2 ^ k)} = {}" if "z \<in> L" "(k, b) \<in> X" for z k b using that by blast
  obtain H where "set H = kblocks g \<union> X" "owned (kpages h) F H" using F by (auto simp: holds_def leased_def)
  then have "pool (kpages h) F" "\<forall>b\<in>X. in_use (kpages h) F b" by (auto simp: owned_def)
  from that [OF this away] show thesis .
qed

text \<open>What is in stock can be read off the lists and the cache.\<close>

lemma stock_heap:
  assumes "kinv h g X"
  shows "kchain g (k, dma) = [] \<longleftrightarrow> heads h (k, dma) = 0" "kslot g k = None \<longleftrightarrow> kmalloc_cache h k = 0"
proof -
  note i = kinv_arena [OF assms]
  obtain F where F: "holds (kpages h) F (kblocks g \<union> X)" using assms by (auto simp: kinv_def)
  have nz: "(of_nat (4096 * b) :: u32) \<noteq> 0" if "(j, b) \<in> kblocks g" for j b using page_nonzero [OF F, of j b] that by simp
  show "kchain g (k, dma) = [] \<longleftrightarrow> heads h (k, dma) = 0"
  proof (cases "kchain g (k, dma)")
    case (Cons b bs)
    obtain a where "kareas g b = Some a" using chain_area [OF i(1), of b "(k, dma)"] Cons by auto
    then have "(gfporder (kbucket a), b) \<in> kblocks g" by (auto simp: kblocks_def)
    then show ?thesis using nz arenaD(7) [OF i(1), of "(k, dma)"] Cons by simp
  qed (use arenaD(7) [OF i(1), of "(k, dma)"] in simp)
  show "kslot g k = None \<longleftrightarrow> kmalloc_cache h k = 0"
  proof (cases "kslot g k")
    case (Some b)
    then have "(k, b) \<in> kblocks g" by (simp add: kblocks_def)
    then show ?thesis using nz i(2) Some by simp
  qed (use i(2) in simp)
qed

lemma in_stock_heap:
  assumes "kinv h g X"
  shows "in_stock g k dma page \<longleftrightarrow> heads h (k, dma) \<noteq> 0 \<or> page \<or> \<not> dma \<and> k < 3 \<and> kmalloc_cache h k \<noteq> 0"
  using stock_heap [OF assms] by (simp add: in_stock_def)

lemma atomic_pages:
  assumes "pool m F" "k < 6"
  shows "\<exists>a m'. get_free_pages r intr ra GFP_ATOMIC k dma m = Some (a, m') \<and> (a \<noteq> 0 \<longleftrightarrow> available F k dma)"
proof (cases "available F k dma")
  case True
  obtain w m' where r: "RMQUEUE k dma k m = Some (Some (ADDRESS w), m')" "granted m F k w m'"
    using RMQUEUE_available [OF assms(1), of k dma] True assms(2) by auto
  then show ?thesis using True granted_page(5) [OF assms(1) r(2)] assms(2) by (simp add: gfp_atomic)
next
  case False
  then show ?thesis using RMQUEUE_available [OF assms(1), of k dma] assms(2) by (simp add: gfp_atomic)
qed

lemma blk_first:
  assumes "blk k b i = 4096 * c + 16" "k < 13" "i < NBLOCKS k"
  shows "i = 0 \<and> b = c"
proof -
  have eq: "4096 * b + i * BLOCKSIZE k = 4096 * c" using assms(1) by (simp add: blk_def)
  have "i * BLOCKSIZE k < 4096"
  proof (cases "NBLOCKS k = 1")
    case False
    then have "AREASIZE k = 4096" using sizes_table(8) [OF assms(2)] by simp
    moreover have "blk k 0 i + BLOCKSIZE k \<le> AREASIZE k" using blk_room [OF assms(2,3), of 0] by simp
    ultimately show ?thesis by (simp add: blk_def)
  qed (use assms(3) in simp)
  moreover have "i * BLOCKSIZE k = 4096 * (c - b)" using eq by (simp add: diff_mult_distrib2)
  ultimately have "i * BLOCKSIZE k = 0" by (cases "c - b") auto
  then show ?thesis using eq sizes_table(1) [OF assms(2)] by simp
qed

text \<open>A page of the cache that is cut up for one object: the object is the first block, all others are free, and freeing it frees the page.\<close>

lemma only_object:
  assumes "kinv h g X" "(of_nat (4096 * b) + 24, n) \<in> objs g" "4096 * b + 4096 \<le> 2 ^ 32" "k < 13"
    "kmem h (4096 * b + 8) = of_nat k" "kmem h (4096 * b + 12) = of_nat (NBLOCKS k - 1)" "kmem h (4096 * b + 16) = MF_USED"
  obtains h3 where "kfree (of_nat (4096 * b) + 24) h = free_page_of k False (of_nat (4096 * b)) h3"
    "kpages h3 = kpages h" "kmalloc_cache h3 = kmalloc_cache h"
proof -
  note ar = kinv_arena(1) [OF assms(1)]
  obtain c a i where c: "kareas g c = Some a" "kused a i = Some n" "i < NBLOCKS (kbucket a)"
      "unat (of_nat (4096 * b) + 24 :: u32) = blk (kbucket a) c i + 8"
    by (rule objs_ptr [OF ar assms(2)])
  have sh: "area_shape a" and w: "area_words (kmem h) c a" using arenaD(2,3) [OF ar c(1)] .
  have ub: "unat (of_nat (4096 * b) :: u32) = 4096 * b" using assms(3) by (intro unat_of_nat_small) linarith
  have "unat (of_nat (4096 * b) + of_nat 24 :: u32) = 4096 * b + 24"
    using unat_add_small [of "of_nat (4096 * b)" 24] ub assms(3) by linarith
  then have "blk (kbucket a) c i = 4096 * b + 16" using c(4) by simp
  from blk_first [OF this area_room(1) [OF ar c(1)] c(3)] have i: "i = 0" "c = b" by simp_all
  have k13: "kbucket a < 2 ^ 32" "k < 2 ^ 32" using area_room(1) [OF ar c(1)] assms(4) by simp_all
  have "(of_nat (kbucket a) :: u32) = of_nat k" using w assms(5) i(2) by (simp add: area_words_def)
  then have k: "kbucket a = k" using k13 unat_of_nat_small by metis
  have used: "kused a 0 = Some n" using c(2) i by simp
  then have "kmem h (blk (kbucket a) b 0) = mf_type (kdma a)" using w i(2) by (auto simp: area_words_def)
  then have dma: "\<not> kdma a" using assms(7) by (cases "kdma a") (simp_all add: blk_def mf_type_def mf_defs)
  have "(of_nat (length (kfreed a)) :: u32) = of_nat (NBLOCKS k - 1)" using w assms(6) i(2) by (simp add: area_words_def)
  then have "(of_nat (length (kfreed a)) + 1 :: u32) = of_nat (NBLOCKS (kbucket a))"
    using sizes_table(4) [OF assms(4)] k by (metis Suc_diff_1 of_nat_Suc add.commute)
  then have "dom (kused a) = {0}" using count_eq [OF sh, of 0] used by simp
  from kfree_last [OF assms(1) c(1) _ this] used obtain h3 where h3: "kpages h3 = kpages h" "kmalloc_cache h3 = kmalloc_cache h"
    "kfree (of_nat (blk (kbucket a) c 0 + 8)) h = free_page_of (kbucket a) (kdma a) (of_nat (4096 * c)) h3" by metis
  have "(of_nat (blk (kbucket a) c 0 + 8) :: u32) = of_nat (4096 * b) + 24" unfolding i(2) by (simp add: blk_def)
  note fr = h3(3) [unfolded this, unfolded i(2) k]
  have "kdma a = False" using dma by simp
  from that [OF fr [unfolded this] h3(1,2)] show thesis .
qed

text \<open>The class found for a request of any size, and that apart from the class the size decides nothing.\<close>

lemma kmalloc_class:
  assumes "find_order (n + 8) 0 blocksize = Some k"
  shows "k < 13"
proof (cases "n + 8 = 0")
  case True
  then show ?thesis using assms by (simp add: blocksize_def)
next
  case False
  then have "0 < n + 8" by (simp add: word_neq_0_conv)
  moreover have "x < 2 ^ 32" if "x \<in> set blocksize" for x using that by (auto simp: blocksize_def)
  ultimately have f: "k < length blocksize" "0 < blocksize ! k" using find_order_fits [OF assms] by simp_all
  show ?thesis
  proof (rule ccontr)
    assume "\<not> k < 13"
    then have "k = 13" using f(1) by (simp add: blocksize_def)
    then show False using f(2) by (simp add: blocksize_def)
  qed
qed

lemma bucket_any_size:
  assumes "kmalloc_bucket c k dma t pg n p h = Some r"
  shows "\<exists>h'. kmalloc_bucket c k dma t pg n' p h = Some (fst r, h')"
  using assms unfolding kmalloc_bucket_def found_it_def Let_def
  by (auto split: if_splits option.splits prod.splits)

section \<open>A small machine\<close>

definition boot_heap :: kheap where
  "boot_heap = \<lparr>kmem = (\<lambda>_. 0), firstfree = (\<lambda>_. 0), dmafree = (\<lambda>_. 0), nmallocs = (\<lambda>_. 0), nfrees = (\<lambda>_. 0),
     nbytesmalloced = (\<lambda>_. 0), npages = (\<lambda>_. 0), kmalloc_cache = (\<lambda>_. 0), kcount = 0, klast = 0, kpages = boot_mm\<rparr>"

definition boot_context :: kcontext where
  "boot_context = \<lparr>try_to_free_page = drop_page 1, intr_count = False, return_address = 0, gfp_return_address = 0, jiffies = 0\<rparr>"

text \<open>On the machine with no page free, \<^verbatim>\<open>kmalloc\<close> gets the page that \<^verbatim>\<open>try_to_free_page\<close> takes from the page cache.\<close>

lemma tight_alloc:
  "\<exists>a h'. kmalloc boot_context 100 GFP_KERNEL (boot_heap\<lparr>kpages := tight_mm\<rparr>) = Some (a, h') \<and> a \<noteq> 0"
proof -
  let ?h = "boot_heap\<lparr>kpages := tight_mm\<rparr>"
  have "fresh_heap ?h" by (simp add: fresh_heap_def boot_heap_def)
  from fresh_heap_ok [OF this, of "{}" "[]"] tight_leased(2) obtain g where g: "kinv ?h g {}" by (auto simp: kheap_ok_def)
  have s: "find_order (100 + 8) 0 blocksize = Some 2" "gfporder 2 = 0" "BLOCKSIZE 2 = 128"
    by (simp_all add: blocksize_def gfporder_def BLOCKSIZE_def sizes_def)
  have p: "GFP_KERNEL AND GFP_DMA = 0" "GFP_KERNEL AND GFP_LEVEL_MASK = GFP_KERNEL"
    by (simp_all add: GFP_KERNEL_def GFP_DMA_def GFP_LEVEL_MASK_def)
  obtain m where "get_free_pages (drop_page 1) False 0 GFP_KERNEL 0 False tight_mm = Some (0x1000, m)" using tight_reclaims by blast
  then have "get_free_pages (try_to_free_page boot_context) (intr_count boot_context) (gfp_return_address boot_context) GFP_KERNEL (gfporder 2) False (kpages ?h)
      = Some (0x1000, m)"
    using s(2) by (simp add: boot_context_def)
  from kmalloc_bucket_cases [OF g _ _ _ this, of 100] obtain r where
    r: "kmalloc_bucket boot_context 2 False (mf_type False) (pg_of (2, False)) 100 GFP_KERNEL ?h = Some r" "fst r \<noteq> 0"
    using s(3) drop_page_ok by (auto simp: boot_context_def in_stock_def)
  have "kmalloc boot_context 100 GFP_KERNEL ?h = Some r"
    unfolding r(1) [symmetric] using s(1) p by (simp add: kmalloc_def pg_of_def mf_type_def boot_context_def)
  then show ?thesis using r(2) by (intro exI [of _ "fst r"] exI [of _ "snd r"]) simp
qed

section \<open>Properties\<close>

text \<open>
  C2: From the empty heap, over a page allocator whose blocks \<^verbatim>\<open>H\<close> are in the hands of others, every sequence of
  \<^verbatim>\<open>kmalloc\<close> (with any priority, in an interrupt or not, of any size below \<^verbatim>\<open>2 ^ 32 - 8\<close>), \<^verbatim>\<open>kfree\<close> of a held object, and stores
  into held objects runs to its end: no call loops or faults. The objects held then do not overlap and do not touch a page of \<^verbatim>\<open>H\<close>,
  each has the contents last stored, the pages of \<^verbatim>\<open>H\<close> are still in use and the pool is consistent, and when every object is
  freed no page is left on a list of partly used pages. Hypothesis, for the calls that are not atomic: \<^verbatim>\<open>try_to_free_page\<close> leaves the blocks that \<^verbatim>\<open>kmalloc\<close>
  and the owners of \<^verbatim>\<open>H\<close> hold alone, the queues of free pages consistent, and does not report success for ever; it may free the pages of other
  users. The calls follow each other: what happens while one of them sleeps in \<^verbatim>\<open>try_to_free_page\<close> is not considered. Sizes from \<^verbatim>\<open>2 ^ 32 - 8\<close> on are
  left out because the size with the header wraps around.
\<close>

theorem kmalloc_objects:
  assumes "fresh_heap h" "leased (kpages h) F H" "\<forall>op\<in>set ops. op_ok fair_call op"
  shows "\<exists>h' os F'. heap_run (\<lambda>(c, p) n. kmalloc c n p) kfree kmem kstore ops (h, []) = Some (h', os) \<and>
    as_written (kmem h') os \<and>
    (\<forall>i<length os. \<forall>j<length os. i \<noteq> j \<longrightarrow> cell (fst (os ! i), fst (snd (os ! i))) \<inter> cell (fst (os ! j), fst (snd (os ! j))) = {}) \<and>
    (\<forall>z\<in>sizes_of os. \<forall>(k, b)\<in>set H. cell z \<inter> {4096 * b ..< 4096 * (b + 2 ^ k)} = {}) \<and>
    pool (kpages h') F' \<and> (\<forall>b\<in>set H. in_use (kpages h') F' b) \<and>
    (os = [] \<longrightarrow> firstfree h' = (\<lambda>_. 0) \<and> dmafree h' = (\<lambda>_. 0))"
proof -
  have "good (kheap_ok (set H)) kmem (h, [])" using fresh_heap_ok [OF assms(1,2)] by (simp add: good_def)
  from kheap.run_good [OF this assms(3)] obtain h' os
    where r: "heap_run (\<lambda>(c, p) n. kmalloc c n p) kfree kmem kstore ops (h, []) = Some (h', os)" "good (kheap_ok (set H)) kmem (h', os)"
    by auto
  have ok: "kheap_ok (set H) h' (sizes_of os)" "as_written (kmem h') os" using r(2) by (simp_all add: good_def)
  obtain F' where F': "pool (kpages h') F'" "\<forall>b\<in>set H. in_use (kpages h') F' b"
      "\<And>z k b. z \<in> sizes_of os \<Longrightarrow> (k, b) \<in> set H \<Longrightarrow> cell z \<inter> {4096 * b ..< 4096 * (b + 2 ^ k)} = {}"
    by (rule heap_pages [OF ok(1)]) (rule that)
  have "os = [] \<longrightarrow> firstfree h' = (\<lambda>_. 0) \<and> dmafree h' = (\<lambda>_. 0)" using ok(1) heap_empty by auto
  moreover have "\<forall>z\<in>sizes_of os. \<forall>(k, b)\<in>set H. cell z \<inter> {4096 * b ..< 4096 * (b + 2 ^ k)} = {}" using F'(3) by blast
  ultimately show ?thesis using r(1) ok(2) F'(1,2) kheap.good_apart [OF r(2)] by blast
qed

theorem kmalloc_objects_witness:
  "fresh_heap (boot_heap\<lparr>kpages := tight_mm\<rparr>) \<and> leased tight_mm {} [(1, 2)] \<and> fair_call (boot_context, GFP_KERNEL) \<and>
   (\<exists>a h'. kmalloc boot_context 100 GFP_KERNEL (boot_heap\<lparr>kpages := tight_mm\<rparr>) = Some (a, h') \<and> a \<noteq> 0) \<and>
   (\<exists>h' os. heap_run (\<lambda>(c, p) n. kmalloc c n p) kfree kmem kstore
     [Alloc (boot_context, GFP_KERNEL) 100, Alloc (boot_context, GFP_ATOMIC) 70000, Write 0 3 7, Free 1] (boot_heap\<lparr>kpages := tight_mm\<rparr>, []) = Some (h', os) \<and>
     as_written (kmem h') os \<and> (\<forall>z\<in>sizes_of os. cell z \<inter> {0x2000 ..< 0x4000} = {}))"
proof -
  let ?h = "boot_heap\<lparr>kpages := tight_mm\<rparr>"
  let ?ops = "[Alloc (boot_context, GFP_KERNEL) 100, Alloc (boot_context, GFP_ATOMIC) 70000, Write 0 3 7, Free 1]"
  have f: "fresh_heap ?h" by (simp add: fresh_heap_def boot_heap_def)
  have c: "fair_call (boot_context, p)" for p by (simp add: fair_call_def boot_context_def drop_page_ok)
  then have "\<forall>op\<in>set ?ops. op_ok fair_call op" by simp
  from kmalloc_objects [OF f _ this, of "{}" "[(1, 2)]"] tight_leased(1)
  have "\<exists>h' os. heap_run (\<lambda>(c, p) n. kmalloc c n p) kfree kmem kstore ?ops (?h, []) = Some (h', os) \<and>
     as_written (kmem h') os \<and> (\<forall>z\<in>sizes_of os. cell z \<inter> {0x2000 ..< 0x4000} = {})"
    by simp blast
  then show ?thesis using f c tight_leased(1) tight_alloc by blast
qed

text \<open>
  C12: On a heap in any state it can get into, an atomic \<^verbatim>\<open>kmalloc\<close> returns, and fails exactly when it has to. It fails when the size with the 8 bytes of the header, in
  32 bits, is above the largest class. Otherwise it fails exactly when
  the class has no partly used page, no aligned run of free pages of the area's size exists (below 16 MB for DMA) and, for the three smallest
  classes and not for DMA, the cache slot is empty. This holds for every size: from \<^verbatim>\<open>2 ^ 32 - 8\<close> on the sum wraps around, and the request is served like
  one of the smallest class. There is no hypothesis on \<^verbatim>\<open>try_to_free_page\<close>, which an atomic call does not use.
\<close>

theorem kmalloc_atomic:
  assumes "kheap_ok X h L" "pool (kpages h) F" "p AND GFP_LEVEL_MASK = GFP_ATOMIC"
  shows "\<exists>a h'. kmalloc c n p h = Some (a, h') \<and>
    (a \<noteq> 0 \<longleftrightarrow> (case find_order (n + 8) 0 blocksize of None \<Rightarrow> False | Some k \<Rightarrow>
       (if p AND GFP_DMA \<noteq> 0
        then dmafree h k \<noteq> 0 \<or> available F (gfporder k) True
        else firstfree h k \<noteq> 0 \<or> available F (gfporder k) False \<or> k < 3 \<and> kmalloc_cache h k \<noteq> 0)))"
proof (cases "find_order (n + 8) 0 blocksize")
  case None
  then show ?thesis by (simp add: kmalloc_def)
next
  case (Some k)
  obtain g where g: "kinv h g X" using assms(1) by (auto simp: kheap_ok_def)
  note k = kmalloc_class [OF Some]
  have room: "unat (0 :: u32) + 8 \<le> BLOCKSIZE k" using sizes_table(1) [OF k] by simp
  let ?dma = "p AND GFP_DMA \<noteq> 0"
  have "gfporder k < 6" using sizes_table(7) [OF k] by simp
  from atomic_pages [OF assms(2) this] obtain a m
    where a: "get_free_pages (try_to_free_page c) (intr_count c) (gfp_return_address c) GFP_ATOMIC (gfporder k) ?dma (kpages h) = Some (a, m)"
      "a \<noteq> 0 \<longleftrightarrow> available F (gfporder k) ?dma" by blast
  obtain r where r: "kmalloc_bucket c k ?dma (mf_type ?dma) (pg_of (k, ?dma)) 0 GFP_ATOMIC h = Some r" "fst r \<noteq> 0 \<longleftrightarrow> in_stock g k ?dma (a \<noteq> 0)"
    using kmalloc_bucket_cases [OF g k room _ a(1)] by blast
  obtain h' where h': "kmalloc_bucket c k ?dma (mf_type ?dma) (pg_of (k, ?dma)) n GFP_ATOMIC h = Some (fst r, h')"
    using bucket_any_size [OF r(1)] by blast
  have "kmalloc c n p h = Some (fst r, h')"
    unfolding h' [symmetric] using Some assms(3) by (simp add: kmalloc_def Let_def pg_of_def mf_type_def)
  then show ?thesis using r(2) a(2) unfolding in_stock_heap [OF g] Some
    by (intro exI [of _ "fst r"] exI [of _ h']) (auto simp: heads_def)
qed

theorem kmalloc_atomic_witness:
  "kheap_ok {} boot_heap {} \<and> (\<exists>a h'. kmalloc boot_context 131048 GFP_ATOMIC boot_heap = Some (a, h') \<and> a \<noteq> 0) \<and>
   (\<exists>h'. kmalloc boot_context 131049 GFP_ATOMIC boot_heap = Some (0, h')) \<and>
   (\<exists>a h'. kmalloc boot_context 0xfffffff8 GFP_ATOMIC boot_heap = Some (a, h') \<and> a \<noteq> 0)"
proof -
  have "fresh_heap boot_heap" and o: "leased (kpages boot_heap) boot_pages []"
    using boot_leased by (simp_all add: fresh_heap_def boot_heap_def)
  then have ok: "kheap_ok {} boot_heap {}" using fresh_heap_ok [of boot_heap boot_pages "[]"] by simp
  have p: "pool (kpages boot_heap) boot_pages" using o by (simp add: leased_def owned_def)
  have av: "available boot_pages 5 False" "available boot_pages 0 False"
    unfolding available_def by (rule exI [of _ 32], auto simp: block_def boot_pages_def)+
  have f: "find_order (131048 + 8) 0 blocksize = Some 12" "find_order (131049 + 8) 0 blocksize = None"
    "find_order (0xfffffff8 + 8) 0 blocksize = Some 0" "gfporder 12 = 5" "gfporder 0 = 0"
    "GFP_ATOMIC AND GFP_LEVEL_MASK = GFP_ATOMIC" "GFP_ATOMIC AND GFP_DMA = 0"
    by (simp_all add: blocksize_def gfporder_def sizes_def GFP_ATOMIC_def GFP_LEVEL_MASK_def GFP_DMA_def)
  note at = kmalloc_atomic [OF ok p f(6), where c = boot_context]
  show ?thesis using ok at [where n = 131048] at [where n = 131049] at [where n = "0xfffffff8"] av f by auto
qed

text \<open>
  C40: The cache slot of a size class is indexed by the class when it is used and by the number of pages when it is filled. A block of two pages that
  waits in slot 1 is taken for objects of the second size class, which need one page, and when such an object is freed it goes to slot 0 as one page:
  memory is still exhausted, slot 1 is empty, and the second page belongs to nobody.
\<close>

theorem kmalloc_cache_leak:
  assumes "kheap_ok X h L" "pool (kpages h) F" "\<not> available F 0 False" "find_order (n + 8) 0 blocksize = Some 1" "unat n + 8 < 2 ^ 32"
    "firstfree h 1 = 0" "kmalloc_cache h 0 = 0" "kmalloc_cache h 1 = page" "page \<noteq> 0"
  shows "\<exists>h1 h2. kmalloc c n GFP_ATOMIC h = Some (page + 24, h1) \<and> kfree (page + 24) h1 = Some h2 \<and>
    kmalloc_cache h2 = (kmalloc_cache h)(0 := page, 1 := 0) \<and> kpages h2 = kpages h"
proof -
  obtain g where g: "kinv h g X" using assms(1) by (auto simp: kheap_ok_def)
  note size = kmalloc_order [OF assms(4,5)]
  have c1: "gfporder 1 = 0" "NBLOCKS 1 = 63" "AREASIZE 1 = 4096" by (simp_all add: gfporder_def NBLOCKS_def AREASIZE_def sizes_def)
  note c1' = c1 [unfolded One_nat_def]
  have head: "heads h (1, False) = 0" using assms(6) by (simp add: heads_def)
  obtain b where b: "kslot g 1 = Some b" using stock_heap(2) [OF g, of 1] assms(8,9) by auto
  have page: "page = of_nat (4096 * b)" using kinv_arena(2) [OF g] b assms(8) by (metis option.simps(5))
  obtain F' where "holds (kpages h) F' (kblocks g \<union> X)" using g by (auto simp: kinv_def)
  from holds_block(2) [OF this, of 1 b] have room: "4096 * b + 4096 \<le> 2 ^ 32" using b by (simp add: kblocks_def)
  have none: "get_kmalloc_pages c GFP_ATOMIC (gfporder 1) False h = Some (0, h\<lparr>kpages := kpages h\<rparr>)"
    using RMQUEUE_available [OF assms(2), of 0 False] assms(3) by (simp add: get_kmalloc_pages_def c1' gfp_atomic)
  define h0 where "h0 = h\<lparr>kmalloc_cache := (kmalloc_cache h)(1 := 0)\<rparr>"
  define f where "f = found_cached_page 1 (pg_of (1, False)) page h0"
  define r where "r = found_it 1 (pg_of (1, False)) (mf_type False) n page (fst f) (snd f)"
  have bucket: "kmalloc_bucket c 1 False (mf_type False) (pg_of (1, False)) n GFP_ATOMIC h = Some r"
    using bucket_cached [OF head none _ _ _ assms(9), of "mf_type False" n] assms(8) unfolding r_def f_def h0_def by simp
  then have km: "kmalloc c n GFP_ATOMIC h = Some r"
    unfolding kmalloc_def assms(4) by (simp add: pg_of_def mf_type_def GFP_ATOMIC_def GFP_LEVEL_MASK_def GFP_DMA_def)
  have "kchain g (1, False) = []" using stock_heap(1) [OF g] head by simp
  from bucket_cached_ok [OF _ _ size(2) this b none, of X] bucket g
  obtain g1 where g1: "kinv (snd r) g1 X" "(fst r, n) \<in> objs g1" by (auto simp: allocated_def)
  have head0: "heads h0 (1, False) = 0" using head by (simp add: h0_def)
  note fe = found_cached_page_effect [OF size(1), of b h0 False, unfolded c1, OF room head0, folded page, folded f_def]
  have up: "unat page = 4096 * b" using room unfolding page by (intro unat_of_nat_small) linarith
  have uf: "unat (fst f) = 4096 * b + 16" using unat_add_small [of page 16] up room unfolding fe(1) by simp
  note re = found_it_effect [of page "fst f" 1 "(1, False)" "mf_type False" n "snd f", folded r_def, unfolded up uf]
  have words: "kmem (snd f) (4096 * b + 8) = of_nat 1" "kmem (snd f) (4096 * b + 12) = of_nat 63"
    using fe(2) by (simp_all add: area_words_def fresh_area_def c1')
  have fst: "fst r = page + 24" using re(1) fe(1) room by simp
  have "(of_nat (4096 * b) + 24, n) \<in> objs g1" using g1(2) unfolding fst page .
  moreover have "kmem (snd r) (4096 * b + 8) = of_nat 1" "kmem (snd r) (4096 * b + 12) = of_nat (NBLOCKS 1 - 1)" "kmem (snd r) (4096 * b + 16) = MF_USED"
    using re(2) room words by (simp_all add: c1' mf_type_def)
  ultimately obtain h3 where h3: "kfree (page + 24) (snd r) = free_page_of 1 False page h3" "kpages h3 = kpages (snd r)"
      "kmalloc_cache h3 = kmalloc_cache (snd r)"
    using only_object [OF g1(1) _ room size(1)] unfolding page by blast
  have same: "kpages (snd r) = kpages h" "kmalloc_cache (snd r) = (kmalloc_cache h)(1 := 0)"
    using re(4,5) fe(5,6) room by (simp_all add: h0_def)
  have fr: "kfree (page + 24) (snd r) = Some (h3\<lparr>npages := (npages h3)(1 := npages h3 1 - 1), kmalloc_cache := (kmalloc_cache h3)(0 := page)\<rparr>)"
    unfolding h3(1) using h3(3) same(2) assms(7) by (simp add: free_page_of_def free_kmalloc_pages_def c1' MAX_CACHE_ORDER_def Let_def)
  have "kmalloc c n GFP_ATOMIC h = Some (page + 24, snd r)" using km fst by (metis prod.collapse)
  then show ?thesis
    by (intro exI [of _ "snd r"] exI [of _ "h3\<lparr>npages := (npages h3)(1 := npages h3 1 - 1), kmalloc_cache := (kmalloc_cache h3)(0 := page)\<rparr>"] conjI fr)
      (simp_all add: h3(2,3) same fun_upd_twist)
qed

text \<open>The machine of four pages with no page free, and a block of two pages in the cache.\<close>

definition tight_heap :: kheap where
  "tight_heap = boot_heap\<lparr>kmalloc_cache := (\<lambda>_. 0)(1 := 0x2000), kpages := tight_mm\<rparr>"

lemma tight_ok: "kheap_ok {} tight_heap {}"
proof -
  let ?g = "\<lparr>kareas = (\<lambda>_. None), kchain = (\<lambda>_. []), kslot = (\<lambda>_. None)(1 := Some 2)\<rparr>"
  have "kblocks ?g = {(1, 2)}" by (auto simp: kblocks_def split: if_splits)
  then have "\<exists>F. holds (kpages tight_heap) F (kblocks ?g \<union> {})" using tight_leased(1) unfolding holds_def
    by (intro exI [of _ "{}"] exI [of _ "[(1, 2)]"]) (simp add: tight_heap_def)
  moreover have "arena (kmem tight_heap) (heads tight_heap) (kareas ?g) (kchain ?g)"
    by (auto simp: arena_def spaced_def with_free_def heads_def tight_heap_def boot_heap_def)
  ultimately have "kinv tight_heap ?g {}" by (auto simp: kinv_def tight_heap_def)
  then show ?thesis unfolding kheap_ok_def by (intro exI [of _ ?g]) (simp add: busy_def objs_def)
qed

theorem kmalloc_cache_leak_witness:
  "kmalloc_cache tight_heap 1 = 0x2000 \<and> (\<exists>h1 h2. kmalloc boot_context 40 GFP_ATOMIC tight_heap = Some (0x2018, h1) \<and> kfree 0x2018 h1 = Some h2 \<and>
     kmalloc_cache h2 0 = 0x2000 \<and> kmalloc_cache h2 1 = 0)"
proof -
  have p: "pool (kpages tight_heap) {}" using tight_leased(1) by (simp add: leased_def owned_def tight_heap_def)
  have "\<not> available {} 0 False" by (simp add: available_def block_def)
  moreover have "find_order (40 + 8) 0 blocksize = Some 1" by (simp add: blocksize_def)
  ultimately show ?thesis
    using kmalloc_cache_leak [OF tight_ok p, of 40 "0x2000" boot_context] by (auto simp: tight_heap_def boot_heap_def)
qed

end
