(* ===== verification/Ps2mrp.thy ===== *)
theory Ps2mrp
  imports Deci Irq Devices Pci_Env
begin

text \<open>
  The older MRP driver \<^verbatim>\<open>drivers/char/ps2mrp.c\<close>, which a kernel can be built with in place of
  \<^verbatim>\<open>ps2mrp-psnet.c\<close>: initialisation, transmission, the start of reception, the proc report, unloading. Most of its entry points
  are stubs in the source and so they are here. The table of file operations is never filled in. \<^verbatim>\<open>mrp_debug\<close> has its initial value
  3, so the messages are printed; a message that shows a register reads it. Register and FIFO accesses assume that the unit's windows are mapped: \<^verbatim>\<open>mrp_init\<close> starts a
  unit only after it has mapped them, so no call with a null window occurs, and \<^verbatim>\<open>Wild\<close> stands for accesses beyond a buffer or through a null buffer.
\<close>

section \<open>State\<close>

text \<open>
  The members of \<^verbatim>\<open>struct mrp_unit\<close> the file uses. Mapped addresses are words, 0 for null; \<^verbatim>\<open>buf1c\<close>, from
  which is sent, is a buffer or null; \<^verbatim>\<open>buf20\<close> is only ever set to \<^verbatim>\<open>recvbuf\<close>. \<^verbatim>\<open>mbus\<close> is the history of the unit's board.
\<close>

record mrp_unit =
  flags :: u32
  irq :: u32
  base0 :: u32
  base2 :: u32
  mrpregs :: u32
  sendbuf :: "kbuf option"
  recvbuf :: "kbuf option"
  buf1c :: "kbuf option"
  buf20 :: bool
  slen :: int
  rlen :: int
  nintr :: u32
  buf38 :: "kbuf option"
  buf40 :: "kbuf option"
  mbus :: bus

definition MRPF_DETECT :: u32 where "MRPF_DETECT = 1"
definition MRPF_VALID :: u32 where "MRPF_VALID = 2"
definition MRPF_RESET :: u32 where "MRPF_RESET = 4"
definition MRPF_OPENED :: u32 where "MRPF_OPENED = 8"
definition MRPF_SBUSY :: u32 where "MRPF_SBUSY = 16"
definition MRPF_RDONE :: u32 where "MRPF_RDONE = 32"
definition MRPF_REQTAG :: u32 where "MRPF_REQTAG = 64"
definition MRPF_CPOPEN :: u32 where "MRPF_CPOPEN = 128"
definition MRPF_CPBUSY :: u32 where "MRPF_CPBUSY = 0x100"

lemmas deci1_flags [flag_defs] =
  MRPF_DETECT_def MRPF_VALID_def MRPF_RESET_def MRPF_OPENED_def MRPF_SBUSY_def MRPF_RDONE_def
  MRPF_REQTAG_def MRPF_CPOPEN_def MRPF_CPBUSY_def

text \<open>The driver's variables and the parts of the kernel it registers with.\<close>

record deci1 =
  mrp_units :: "nat \<Rightarrow> mrp_unit"
  mrp_major :: int
  iflag :: bool
  devs :: devices
  lines :: irqs
  procs :: "string list"
  vfreed :: "u32 list"
  kfreed :: nat

text \<open>The PCI BIOS and \<^verbatim>\<open>kmalloc\<close>, as parameters: buffers of 16 KB for sending (0) and receiving (1), and room for interrupt actions.\<close>

record deci1_env =
  pci :: pci_env
  buffer :: "nat \<Rightarrow> nat \<Rightarrow> kbuf option"
  action_mem :: "nat \<Rightarrow> nat \<Rightarrow> bool"

text \<open>Code that stores through pointers finishes, or accesses memory it must not.\<close>

datatype 'a access = Finished 'a | Wild

definition has_flag :: "u32 \<Rightarrow> mrp_unit \<Rightarrow> bool" where
  "has_flag m u \<longleftrightarrow> flags u AND m \<noteq> 0"

definition upd :: "nat \<Rightarrow> (mrp_unit \<Rightarrow> mrp_unit) \<Rightarrow> deci1 \<Rightarrow> deci1" where
  "upd i f k = k\<lparr>mrp_units := (mrp_units k)(i := f (mrp_units k i))\<rparr>"

section \<open>Transmission\<close>

text \<open>
  The loop of \<^verbatim>\<open>mrp_send\<close>, which runs \<^verbatim>\<open>slen\<close> times although \<^verbatim>\<open>slen\<close> counts bytes: a word that does not lie in the buffer is read out of
  bounds.
\<close>

fun send_words :: "kbuf option \<Rightarrow> nat \<Rightarrow> nat \<Rightarrow> bus \<Rightarrow> bus access" where
  "send_words src i 0 h = Finished h"
| "send_words src i (Suc n) h =
     (case src of
        None \<Rightarrow> Wild
      | Some k \<Rightarrow>
          if ksize k < 4 * i + 4 then Wild
          else send_words src (i + 1) n (wrfifo (word_at (kbytes k) (4 * i)) h))"

definition mrp_send :: "mrp_dev \<Rightarrow> mrp_unit \<Rightarrow> (int \<times> mrp_unit) access" where
  "mrp_send dev u =
     (let nw = (slen u + 3) div 4
      in case send_words (buf1c u) 0 (nat (slen u)) (mbus u) of
           Wild \<Rightarrow> Wild
         | Finished h \<Rightarrow>
             let h = wr16 TXC 1 h;
                 h = or16 dev IER 0x20 h
             in Finished (nw, u\<lparr>mbus := h, flags := flags u OR MRPF_SBUSY\<rparr>))"

section \<open>Reception\<close>

text \<open>The endless loop of \<^verbatim>\<open>mrp_recv\<close>, left only through a store to a null buffer.\<close>

partial_function (option) recv_loop :: "mrp_dev \<Rightarrow> mrp_unit \<Rightarrow> (int option \<times> mrp_unit) access option" where
  "recv_loop dev u =
     (case recvbuf u of
        None \<Rightarrow> Some Wild
      | Some k \<Rightarrow>
          (let (w, h) = rdfifo dev (mbus u);
               k = k\<lparr>kbytes := set_word (kbytes k) 0 w\<rparr>;
               (v, h) = rd16 dev FST h;
               h = (if v AND 0x10 \<noteq> 0 then wr16 RXC 1 (snd (rd16 dev FST h)) else h)
           in recv_loop dev (u\<lparr>buf20 := True, recvbuf := Some k, mbus := h,
                               rlen := int (unat (half_at (kbytes k) 2))\<rparr>)))"

text \<open>A result of \<^verbatim>\<open>None\<close> in the pair: the function ends without a return value.\<close>

definition mrp_recv :: "mrp_dev \<Rightarrow> mrp_unit \<Rightarrow> (int option \<times> mrp_unit) access option" where
  "mrp_recv dev u =
     (if has_flag MRPF_RDONE u then Some (Finished (Some 0, u))
      else
        let (v, h) = rd16 dev FST (mbus u);
            u = u\<lparr>mbus := h\<rparr>
        in if v AND 1 = 0 then recv_loop dev u else Some (Finished (None, u)))"

section \<open>Stubs\<close>

definition mrp_reset :: "deci1 \<Rightarrow> int \<times> deci1" where
  "mrp_reset s = (0, s\<lparr>iflag := False\<rparr>)"

definition mrp_bootp :: "deci1 \<Rightarrow> int \<times> deci1" where "mrp_bootp s = (0, s)"
definition mrp_cpr :: "deci1 \<Rightarrow> int \<times> deci1" where "mrp_cpr s = (0, s)"
definition mrp_cps :: "deci1 \<Rightarrow> int \<times> deci1" where "mrp_cps s = (0, s)"
definition mrp_interrupt :: "deci1 \<Rightarrow> deci1" where "mrp_interrupt s = s"
definition mrp_read :: "deci1 \<Rightarrow> int \<times> deci1" where "mrp_read s = (0, s)"
definition mrp_write :: "deci1 \<Rightarrow> int \<times> deci1" where "mrp_write s = (0, s)"
definition mrp_select :: "deci1 \<Rightarrow> int \<times> deci1" where "mrp_select s = (0, s)"
definition mrp_open :: "deci1 \<Rightarrow> int \<times> deci1" where "mrp_open s = (0, s)"
definition mrp_release :: "deci1 \<Rightarrow> int \<times> deci1" where "mrp_release s = (0, s)"
definition mrp_ioctl :: "deci1 \<Rightarrow> int \<times> deci1" where "mrp_ioctl s = (0, s)"

section \<open>Report\<close>

text \<open>Registers read one after the other, with the values they gave.\<close>

fun rd_regs :: "mrp_dev \<Rightarrow> mreg list \<Rightarrow> bus \<Rightarrow> u16 list \<times> bus" where
  "rd_regs dev [] h = ([], h)"
| "rd_regs dev (r # rs) h =
     (let (v, h) = rd16 dev r h; (vs, h) = rd_regs dev rs h in (v # vs, h))"

definition print_regs :: "string \<Rightarrow> u16 list \<Rightarrow> string" where
  "print_regs fmt vs = print fmt (map (\<lambda>v. AInt (ucast v)) vs)"

definition mrp_dump_regs :: "mrp_dev \<Rightarrow> bus \<Rightarrow> string list \<times> bus" where
  "mrp_dump_regs dev h =
     (let (a, h) = rd_regs dev [BID, RST, CPS, CPR] h;
          (b, h) = rd_regs dev [FST, TXC, RXC, F1C] h;
          (c, h) = rd_regs dev [IST, ISP, IER, CSI] h;
          (d, h) = rd_regs dev [FSI, AEO, AFO] h
      in ([print_regs ''* BID=%04hx RST=%04hx CPS=%04hx CPR=%04hx\<newline>'' a,
           print_regs ''* FST=%04hx TXC=%04hx RXC=%04hx F1C=%04hx\<newline>'' b,
           print_regs ''* IST=%04hx ISP=%04hx IER=%04hx CSI=%04hx\<newline>'' c,
           print_regs ''* FSI=%04hx AEO=%04hx AFO=%04hx\<newline>'' d], h))"

definition flag_words :: "(u32 \<times> string) list" where
  "flag_words =
     [(MRPF_DETECT, '' DETECT''), (MRPF_VALID, '' VALID''), (MRPF_RESET, '' RESET''), (MRPF_OPENED, '' OPENED''),
      (MRPF_SBUSY, '' SBUSY''), (MRPF_RDONE, '' RDONE''), (MRPF_REQTAG, '' REQTAG''), (MRPF_CPOPEN, '' CPOPEN''),
      (MRPF_CPBUSY, '' CPBUSY'')]"

definition info_unit :: "mrp_dev \<Rightarrow> nat \<Rightarrow> mrp_unit \<Rightarrow> string \<times> mrp_unit" where
  "info_unit dev i u =
     (let t = print ''unit%d'' [AInt (of_nat i)];
          t = t @ concat (map (\<lambda>(m, w). if has_flag m u then print w [] else []) flag_words);
          t = t @ print '' nintr=%d\<newline>'' [AInt (nintr u)]
      in if has_flag MRPF_VALID u then
           let (a, h) = rd_regs dev [BID, RST, CPS, CPR, FST, TXC, RXC, F1C] (mbus u);
               t = t @ print_regs '' BID=%04hx RST=%04hx CPS=%04hx CPR=%04hx FST=%04hx TXC=%04hx RXC=%04hx F1C=%04hx\<newline>'' a;
               (b, h) = rd_regs dev [IST, ISP, IER, CSI, FSI, AEO, AFO] h;
               t = t @ print_regs '' IST=%04hx ISP=%04hx IER=%04hx CSI=%04hx FSI=%04hx AEO=%04hx AFO=%04hx\<newline>'' b
           in (t, u\<lparr>mbus := h\<rparr>)
         else (t, u))"

fun info_units :: "mrp_dev \<Rightarrow> nat list \<Rightarrow> string \<times> deci1 \<Rightarrow> string \<times> deci1" where
  "info_units dev [] ts = ts"
| "info_units dev (i # rest) (t, s) =
     (let (t', u) = info_unit dev i (mrp_units s i)
      in info_units dev rest (t @ t', upd i (\<lambda>_. u) s))"

definition mrp_get_info :: "mrp_dev \<Rightarrow> deci1 \<Rightarrow> int \<times> string \<times> deci1" where
  "mrp_get_info dev s =
     (let t = print ''DECI1 $Revision: 3.10 $ %s %s\<newline>'' [AStr (Some ''Mar 10 1999''), AStr (Some ''21:15:11'')];
          (t, s) = info_units dev [0, 1, 2, 3] (t, s)
      in (int (length t), t, s))"

section \<open>Loading\<close>

definition mrp_base :: "pci_env \<Rightarrow> u8 \<Rightarrow> u8 \<Rightarrow> u8 \<Rightarrow> u32" where
  "mrp_base env bs dev_fn where' =
     (case pcibios_read_config_dword env bs dev_fn where' of
        None \<Rightarrow> 0
      | Some val \<Rightarrow> if val AND 7 = 0 then val AND PCI_BASE_ADDRESS_MEM_MASK else 0)"

definition mrp_remap :: "pci_env \<Rightarrow> u32 \<Rightarrow> u32" where
  "mrp_remap env base =
     (if MAP_NR base < MAP_NR (high_memory env) then 0
      else let rc = vremap env (PAGE_ALIGN base) PAGE_SIZE
           in if rc = 0 then 0 else rc + (base AND NOT PAGE_MASK))"

text \<open>The body of the first loop for a board that was found; every \<^verbatim>\<open>continue\<close> keeps the assignments before it.\<close>

definition probe_unit :: "pci_env \<Rightarrow> nat \<Rightarrow> u8 \<Rightarrow> u8 \<Rightarrow> int \<times> deci1 \<Rightarrow> int \<times> deci1" where
  "probe_unit env index pci_bus pci_device_fn bk =
     (let (boards_found, k) = bk;
          b0 = mrp_base env pci_bus pci_device_fn PCI_BASE_ADDRESS_0;
          b2 = mrp_base env pci_bus pci_device_fn PCI_BASE_ADDRESS_2;
          b3 = mrp_base env pci_bus pci_device_fn PCI_BASE_ADDRESS_3
      in if b0 = 0 \<or> b2 = 0 \<or> b3 = 0 then (boards_found, k)
         else let rc = mrp_remap env b0 in if rc = 0 then (boards_found, k)
         else let k = upd index (\<lambda>u. u\<lparr>base0 := rc\<rparr>) k; rc = mrp_remap env b2 in
              if rc = 0 then (boards_found, k)
         else let k = upd index (\<lambda>u. u\<lparr>base2 := rc\<rparr>) k; rc = mrp_remap env b3 in
              if rc = 0 then (boards_found, k)
         else
           let k = upd index (\<lambda>u. u\<lparr>mrpregs := rc\<rparr>) k
           in case pcibios_read_config_byte env pci_bus pci_device_fn PCI_INTERRUPT_LINE of
                None \<Rightarrow> (boards_found, k)
              | Some line \<Rightarrow>
                  let k = upd index (\<lambda>u. u\<lparr>irq := ucast line\<rparr>) k;
                      k = upd index (\<lambda>u. u\<lparr>flags := flags u OR MRPF_DETECT\<rparr>) k
                  in (boards_found + 1, k))"

fun probe_units :: "pci_env \<Rightarrow> nat list \<Rightarrow> int \<times> deci1 \<Rightarrow> int \<times> deci1" where
  "probe_units env [] bk = bk"
| "probe_units env (index # rest) bk =
     (case pcibios_find_device env index of
        None \<Rightarrow> bk
      | Some (pci_bus, pci_fn) \<Rightarrow> probe_units env rest (probe_unit env index pci_bus pci_fn bk))"

definition MRP_INTERRUPT :: nat where "MRP_INTERRUPT = 4"
definition MRP_FOPS :: nat where "MRP_FOPS = 3"

definition unit_addr :: "nat \<Rightarrow> nat" where
  "unit_addr i = i + 1"

definition request_lines :: "deci1_env \<Rightarrow> nat \<Rightarrow> deci1 \<Rightarrow> int \<times> deci1" where
  "request_lines env index k =
     (let (iRc, l) = request_irq (action_mem env index 0) (unat (irq (mrp_units k index))) MRP_INTERRUPT
                       (SA_INTERRUPT OR SA_SHIRQ) ''MRP'' (unit_addr index) (lines k);
          k = k\<lparr>lines := l\<rparr>
      in if iRc = 0 then
           let (iRc, l) = request_irq (action_mem env index 1) (unat (irq (mrp_units k index))) MRP_INTERRUPT
                            SA_SHIRQ ''MRP'' (unit_addr index) (lines k)
           in (iRc, k\<lparr>lines := l\<rparr>)
         else (iRc, k))"

definition start_board :: "mrp_dev \<Rightarrow> mrp_unit \<Rightarrow> mrp_unit" where
  "start_board dev u =
     (let h = and32 dev IDK50 (NOT 0x20) (mbus u);
          h = or32 dev IDK50 0x40000000 h;
          h = and32 dev IDK50 (NOT 0x40000000) h;
          h = or32 dev IDK50 0x40 h;
          h = wr16 IER 0 h
      in u\<lparr>mbus := h, flags := flags u OR MRPF_VALID\<rparr>)"

definition attach_unit :: "deci1_env \<Rightarrow> mrp_dev \<Rightarrow> nat \<Rightarrow> deci1 \<Rightarrow> deci1" where
  "attach_unit env dev index k =
     (if \<not> has_flag MRPF_DETECT (mrp_units k index) then k
      else case buffer env index 0 of
             None \<Rightarrow> k
           | Some b \<Rightarrow>
               let k = upd index (\<lambda>u. u\<lparr>sendbuf := Some b\<rparr>) k
               in case buffer env index 1 of
                    None \<Rightarrow> k
                  | Some b \<Rightarrow>
                      let k = upd index (\<lambda>u. u\<lparr>recvbuf := Some b\<rparr>) k;
                          (iRc, k) = request_lines env index k
                      in if iRc = 0 then k else upd index (start_board dev) k)"

definition mrp_init :: "deci1_env \<Rightarrow> mrp_dev \<Rightarrow> deci1 \<Rightarrow> int \<times> deci1" where
  "mrp_init env dev k =
     (if \<not> pcibios_present (pci env) then (0, k)
      else
        let (boards_found, k) = probe_units (pci env) [0, 1, 2, 3] (0, k)
        in if boards_found = 0 then (0, k)
           else
             let (iRc, d) = register_chrdev 0 ''mrp'' (Some MRP_FOPS) (devs k);
                 k = k\<lparr>devs := d\<rparr>
             in if iRc \<le> 0 then (0, k)
                else
                  let k = k\<lparr>mrp_major := iRc, procs := ''mrp'' # procs k\<rparr>
                  in (0, fold (attach_unit env dev) [0, 1, 2, 3] k))"

section \<open>Unloading\<close>

text \<open>\<^verbatim>\<open>kfree\<close> and \<^verbatim>\<open>vfree\<close> accept a null pointer; only what they free is counted.\<close>

definition stop_unit :: "mrp_dev \<Rightarrow> nat \<Rightarrow> deci1 \<Rightarrow> deci1" where
  "stop_unit dev index k =
     (let u = mrp_units k index;
          k = (if has_flag MRPF_VALID u then
                 let k = upd index (\<lambda>u. u\<lparr>mbus := and32 dev IDK50 (NOT 0x40) (or32 dev IDK50 0x20 (mbus u))\<rparr>) k
                 in k\<lparr>lines := free_irq (unat (irq u)) (unit_addr index) (lines k)\<rparr>
               else k);
          n = length (filter (\<lambda>b. b \<noteq> None) [sendbuf u, recvbuf u, buf38 u, buf40 u])
      in k\<lparr>kfreed := kfreed k + n,
           vfreed := rev (filter (\<lambda>a. a \<noteq> 0) [base0 u, base2 u, mrpregs u]) @ vfreed k\<rparr>)"

definition cleanup_module :: "mrp_dev \<Rightarrow> deci1 \<Rightarrow> deci1" where
  "cleanup_module dev k =
     (if mrp_major k = 0 then k
      else
        let k = fold (stop_unit dev) [0, 1, 2, 3] k;
            (r, d) = unregister_chrdev (nat (mrp_major k)) ''mrp'' (devs k)
        in k\<lparr>devs := d, procs := remove1 ''mrp'' (procs k)\<rparr>)"

section \<open>What transmission and reception do\<close>

lemma send_words_eq:
  "send_words src i n h =
     (if n = 0 then Finished h
      else case src of
             None \<Rightarrow> Wild
           | Some k \<Rightarrow>
               if ksize k < 4 * (i + n) then Wild
               else Finished (rev (map (\<lambda>j. FifoOut (word_at (kbytes k) (4 * j))) [i..<i + n]) @ h))"
proof (induction n arbitrary: i h)
  case (Suc n)
  show ?case
  proof (cases src)
    case (Some k)
    have u: "[i..<Suc (i + n)] = i # [Suc i..<Suc (i + n)]" "[i..<Suc i] = [i]"
      by (simp_all add: upt_conv_Cons del: upt_Suc)
    show ?thesis
      using Suc.IH [of "i + 1" "wrfifo (word_at (kbytes k) (4 * i)) h"] Some
      by (auto simp: u wrfifo_def simp del: upt_Suc)
  qed simp
qed simp

lemma fifo_sent_words: "fifo_sent (rev (map FifoOut ws) @ h) = fifo_sent h @ ws"
  by (induction ws rule: rev_induct) simp_all

text \<open>
  C38: \<^verbatim>\<open>mrp_send\<close> pushes as many words as the packet has bytes: for a packet of \<^verbatim>\<open>n\<close> bytes it sends the \<^verbatim>\<open>4 n\<close> bytes from the start of the buffer,
  and it reads outside the buffer exactly when that has fewer than \<^verbatim>\<open>4 n\<close> bytes (or is null). The value it returns is the number of words it should have
  sent.
\<close>

theorem deci1_send:
  assumes "slen u = int n"
  shows "case mrp_send dev u of
      Wild \<Rightarrow> 0 < n \<and> (\<forall>k. buf1c u = Some k \<longrightarrow> ksize k < 4 * n)
    | Finished (r, u') \<Rightarrow>
        (0 < n \<longrightarrow> (\<exists>k. buf1c u = Some k \<and> 4 * n \<le> ksize k)) \<and> r = int ((n + 3) div 4) \<and> has_flag MRPF_SBUSY u' \<and>
        fifo_sent (mbus u') = fifo_sent (mbus u) @
          (case buf1c u of None \<Rightarrow> [] | Some k \<Rightarrow> map (\<lambda>j. word_at (kbytes k) (4 * j)) [0..<n])"
proof -
  have r: "(slen u + 3) div 4 = int ((n + 3) div 4)" using assms by (simp add: zdiv_int)
  have b: "(flags u OR MRPF_SBUSY) AND MRPF_SBUSY \<noteq> 0" by (simp add: deci1_flags)
  show ?thesis
  proof (cases "buf1c u")
    case None
    then show ?thesis
      using assms r b by (auto simp: mrp_send_def send_words_eq has_flag_def Let_def bus_simps)
  next
    case (Some k)
    have "map (\<lambda>j. FifoOut (word_at (kbytes k) (4 * j))) [0..<n] = map FifoOut (map (\<lambda>j. word_at (kbytes k) (4 * j)) [0..<n])"
      by simp
    then show ?thesis
      using assms r b Some
      by (auto simp: mrp_send_def send_words_eq has_flag_def Let_def bus_simps fifo_sent_words simp del: map_map)
  qed
qed

definition demo_unit :: mrp_unit where
  "demo_unit = \<lparr>flags = 0, irq = 5, base0 = 1, base2 = 1, mrpregs = 1, sendbuf = None,
     recvbuf = Some \<lparr>ksize = 0x4000, kbytes = (\<lambda>_. 0)\<rparr>, buf1c = Some \<lparr>ksize = 8, kbytes = (\<lambda>i. of_nat i)\<rparr>,
     buf20 = False, slen = 4, rlen = 0, nintr = 0, buf38 = None, buf40 = None, mbus = []\<rparr>"

definition idle_dev :: mrp_dev where
  "idle_dev = \<lparr>dev16 = (\<lambda>_ _. 0), dev32 = (\<lambda>_ _. 0), devfifo = (\<lambda>_. 0)\<rparr>"

text \<open>A packet of four bytes in a buffer of eight is read beyond the buffer.\<close>

theorem deci1_send_witness: "slen demo_unit = int 4 \<and> mrp_send idle_dev demo_unit = Wild"
proof -
  have "slen demo_unit = int 4" by (simp add: demo_unit_def)
  from deci1_send [OF this, of idle_dev] this show ?thesis
    by (auto simp: demo_unit_def split: access.splits)
qed

lemma recv_loop_never:
  assumes "recv_loop dev u = Some r"
  shows "recvbuf u = None"
proof (rule recv_loop.raw_induct [OF _ assms])
  fix loop :: "mrp_dev \<Rightarrow> mrp_unit \<Rightarrow> (int option \<times> mrp_unit) access option" and dev u r
  assume ih: "\<And>dev u r. loop dev u = Some r \<Longrightarrow> recvbuf u = None"
  have no: "loop dev (u\<lparr>buf20 := b, recvbuf := Some k, mbus := h, rlen := l\<rparr>) \<noteq> Some r" for b k h l
    using ih [of dev "u\<lparr>buf20 := b, recvbuf := Some k, mbus := h, rlen := l\<rparr>" r] by auto
  assume "(case recvbuf u of
        None \<Rightarrow> Some Wild
      | Some k \<Rightarrow>
          (let (w, h) = rdfifo dev (mbus u);
               k = k\<lparr>kbytes := set_word (kbytes k) 0 w\<rparr>;
               (v, h) = rd16 dev FST h;
               h = (if v AND 0x10 \<noteq> 0 then wr16 RXC 1 (snd (rd16 dev FST h)) else h)
           in loop dev (u\<lparr>buf20 := True, recvbuf := Some k, mbus := h,
                               rlen := int (unat (half_at (kbytes k) 2))\<rparr>))) = Some r"
  then show "recvbuf u = None"
    by (simp only: Let_def split_def no split: option.splits)
qed

text \<open>
  C39: \<^verbatim>\<open>mrp_recv\<close> never returns once the board has data for it: unless a packet is still to be fetched, a clear bit 0 of FST sends it into its
  loop for ever (or into a store through a null pointer). Otherwise it returns, with 0 when a packet is still to be fetched and without a value
  when the FIFO is empty.
\<close>

theorem deci1_recv:
  "case mrp_recv dev u of
     None \<Rightarrow> \<not> has_flag MRPF_RDONE u \<and> dev16 dev (mbus u) FST AND 1 = 0 \<and> recvbuf u \<noteq> None
   | Some Wild \<Rightarrow> \<not> has_flag MRPF_RDONE u \<and> dev16 dev (mbus u) FST AND 1 = 0 \<and> recvbuf u = None
   | Some (Finished (r, u')) \<Rightarrow>
       if has_flag MRPF_RDONE u then r = Some 0 \<and> u' = u
       else dev16 dev (mbus u) FST AND 1 \<noteq> 0 \<and> r = None \<and> u' = u\<lparr>mbus := Rd16 FST (dev16 dev (mbus u) FST) # mbus u\<rparr>"
proof -
  let ?u = "u\<lparr>mbus := Rd16 FST (dev16 dev (mbus u) FST) # mbus u\<rparr>"
  have "recv_loop dev ?u = (if recvbuf u = None then Some Wild else None)"
  proof (cases "recvbuf u")
    case None
    then show ?thesis by (subst recv_loop.simps) simp
  next
    case (Some k)
    then have "recv_loop dev ?u \<noteq> Some r" for r using recv_loop_never [of dev ?u r] by auto
    then show ?thesis using Some by (metis option.distinct(1) option.exhaust)
  qed
  then show ?thesis by (auto simp: mrp_recv_def rd16_def Let_def)
qed

end
