(* ===== verification/Spec2Isabelle.thy ===== *)
theory Spec2Isabelle
  imports Reboot Timer_Wheel Psnet_Unload Psnet_Info Printk Kmalloc_Props Ps2mrp
begin

text \<open>
  A verification of the kernel of the PlayStation 2 TOOL single board computer: Linux 2.0.36 with
  three drivers of its own, \<^verbatim>\<open>drivers/char/ps2mrp-psnet.c\<close> for the MRP board (the link to the
  PlayStation side), the unfinished \<^verbatim>\<open>drivers/char/ps2mrp.c\<close> for the same board, and
  \<^verbatim>\<open>drivers/char/ps2powctrl.c\<close> for power and front panel. The development
  models these drivers in full and the parts of the base kernel they stand on: timers, device
  switch, I/O port regions, interrupt lines, formatted printing, the kernel log, the page
  allocator and \<^verbatim>\<open>kmalloc\<close>. All paths below are relative to \<^verbatim>\<open>src/\<close>.

  \<^bold>\<open>Conventions.\<close> A C \<^verbatim>\<open>struct\<close> is a record, an \<^verbatim>\<open>int\<close> that only counts or reports is an \<^typ>\<open>int\<close>, a
  register, flag word, page number or any value whose wrap-around matters is a word of its width.
  Functions pass their state explicitly. A function that may fail with a wild memory access
  returns \<^verbatim>\<open>Fault\<close>, \<^verbatim>\<open>Crash\<close>, \<^verbatim>\<open>Wild\<close> or \<^verbatim>\<open>NullFault\<close> in that case (\<^verbatim>\<open>run\<close> in \<^verbatim>\<open>Psnet\<close>, \<^verbatim>\<open>outcome\<close> in \<^verbatim>\<open>Printk\<close>, \<^verbatim>\<open>access\<close> in \<^verbatim>\<open>Ps2mrp\<close>, \<^verbatim>\<open>reboot_outcome\<close> in \<^verbatim>\<open>Reboot\<close>); one that may
  loop forever is a \<^verbatim>\<open>partial_function (option)\<close>, with \<^verbatim>\<open>None\<close> for not returning. There is no fuel.
  Code outside the modelled files enters as a parameter: the answers of the board to register
  reads (\<^verbatim>\<open>mrp_dev\<close>), to the drivers the results of \<^verbatim>\<open>kmalloc\<close> and of the PCI BIOS, signals and sleeping, the
  functions of timers and interrupt handlers, \<^verbatim>\<open>try_to_free_page\<close>. Properties that rely on such
  code name what they assume of it, and their witnesses instantiate it.

  \<^bold>\<open>Prelude.\<close> \<^verbatim>\<open>Kprelude\<close>: machine types, error numbers, the rule collections, facts on flag words, on
  conversions between words and numbers, and on pages.

  \<^bold>\<open>The board.\<close> \<^verbatim>\<open>Mrp_Board\<close> models the register block and the bridge as a bus whose history of accesses
  is recorded, so that properties can speak about what was read and written and in which order.
  \<^verbatim>\<open>Deci\<close> has the packets (\<^verbatim>\<open>include/linux/ps2mrp-psnet.h\<close>), \<^verbatim>\<open>Ringbuf\<close> the byte rings of the control
  plane with a bounded queue as their specification (locale \<^verbatim>\<open>bounded_queue\<close>).

  \<^bold>\<open>The MRP driver.\<close> \<^verbatim>\<open>Psnet\<close> holds the unit (\<^verbatim>\<open>struct mrp_unit\<close>) and the functions that run at interrupt
  level, \<^verbatim>\<open>Psnet_File\<close> the file operations over user memory, \<^verbatim>\<open>Psnet_Init\<close> probing, loading and
  unloading, \<^verbatim>\<open>Psnet_Info\<close> the proc report. \<^verbatim>\<open>Psnet_Irq\<close> shows what sending, receiving and the
  interrupt handler do (a packet sent by one unit is received unchanged by another; exactly which
  words in the FIFO make the driver store outside its buffer), \<^verbatim>\<open>Psnet_Props\<close> what each file operation does on every
  path, error paths included, and how they work together with the interrupt handler: a received packet reaches the reader, a kept reset
  packet goes to the board that asks for it. A call is one step between two sleeps in \<^verbatim>\<open>interruptible_sleep_on\<close>; \<^verbatim>\<open>Psnet_File\<close> says
  where the source could be interrupted in between. \<^verbatim>\<open>Psnet_Steps\<close> is the state machine: interrupts and file operations
  in any interleaving, with sleeping calls split where they sleep, and invariants of a unit
  (locale \<^verbatim>\<open>unit_property\<close>) lifted to all its executions; \<^verbatim>\<open>Psnet_Init\<close> starts it at \<^verbatim>\<open>mrp_init\<close>. \<^verbatim>\<open>Psnet_Unload\<close> compares what
  \<^verbatim>\<open>cleanup_module\<close> gives back with what \<^verbatim>\<open>mrp_init\<close> took.

  \<^bold>\<open>The DECI1 driver.\<close> \<^verbatim>\<open>Ps2mrp\<close> models \<^verbatim>\<open>drivers/char/ps2mrp.c\<close>, an unfinished driver for the same board, and
  what its transmission and reception do as they stand.

  \<^bold>\<open>Power control.\<close> \<^verbatim>\<open>Powctrl\<close> models \<^verbatim>\<open>ps2powctrl.c\<close> on the same bus, over the timers (locale
  \<^verbatim>\<open>timer_service\<close>), the device switch and the PCI environment \<^verbatim>\<open>Pci_Env\<close>; its properties cover polling, the
  blinking front LED, the ioctl commands and initialisation. \<^verbatim>\<open>Reboot\<close> adds \<^verbatim>\<open>sys_reboot\<close> of
  \<^verbatim>\<open>kernel/sys.c\<close> and shows who may reboot and in which order a halt proceeds. \<^verbatim>\<open>sys_reboot\<close> calls the driver whether or not it found a board:
  with a register window that is null the call is a null pointer access (\<^verbatim>\<open>call_reset_pif\<close> and its siblings are \<^verbatim>\<open>None\<close>).

  \<^bold>\<open>Timers.\<close> \<^verbatim>\<open>Timers\<close> is the hierarchy of timer vectors of \<^verbatim>\<open>kernel/sched.c\<close>. \<^verbatim>\<open>Timer_Wheel\<close> proves that
  the vectors implement a set of pending timers: at every tick exactly the due timers are in
  the current slot, \<^verbatim>\<open>run_timer_list\<close> calls each once and in order, and it returns, also when \<^verbatim>\<open>jiffies\<close> moves on while the timer functions run (up to
  a bound \<^verbatim>\<open>J\<close>, a hypothesis).

  \<^bold>\<open>Devices, ports and interrupts.\<close> \<^verbatim>\<open>Devices\<close> is the table of \<^verbatim>\<open>fs/devices.c\<close> (locale \<^verbatim>\<open>device_switch\<close>,
  for character and block devices). \<^verbatim>\<open>Ioports\<close> models \<^verbatim>\<open>kernel/resource.c\<close>, a sorted linked list in a table
  of 128 entries, and refines it to a set of disjoint regions (locale \<^verbatim>\<open>region_registry\<close>),
  with what a request for no ports does. \<^verbatim>\<open>Irq\<close>
  models \<^verbatim>\<open>arch/i386/kernel/irq.c\<close> with the stubs of \<^verbatim>\<open>include/asm-i386/irq.h\<close> and the two interrupt
  controllers: delivery to every handler of a line, masks, and autoprobing.

  \<^bold>\<open>Printing.\<close> \<^verbatim>\<open>Vsprintf\<close> is \<^verbatim>\<open>lib/vsprintf.c\<close>: numbers printed are read back by \<^verbatim>\<open>simple_strtoul\<close>, and how long they
  are. \<^verbatim>\<open>Printk\<close> is \<^verbatim>\<open>kernel/printk.c\<close>: what \<^verbatim>\<open>printk\<close> logs is what \<^verbatim>\<open>sys_syslog\<close> returns.

  \<^bold>\<open>Memory.\<close> \<^verbatim>\<open>Page_Alloc\<close> is the buddy allocator \<^verbatim>\<open>mm/page_alloc.c\<close> with its pointers and toggle bits, and
  \<^verbatim>\<open>mem_init\<close> of \<^verbatim>\<open>arch/i386/mm/init.c\<close>. \<^verbatim>\<open>Buddy\<close> proves the invariant of the free areas for
  splitting and merging, and that the queues are determined by the set of free pages. \<^verbatim>\<open>Page_Pool\<close> gives
  the allocator's contract (locale \<^verbatim>\<open>page_service\<close>), \<^verbatim>\<open>Page_Boot\<close> starts it at boot: exact success
  of atomic requests, exclusive use of blocks in any sequence of calls, no fragmentation left by a
  request that was undone. \<^verbatim>\<open>try_to_free_page\<close> is a parameter that may free the pages of other users (\<^verbatim>\<open>page_user\<close>); requests that may wait for it assume
  that it leaves the blocks of the caller alone, keeps the queues consistent and does not report success for ever (\<^verbatim>\<open>reclaim_ok\<close>),
  and atomic requests assume nothing of it. What other tasks do while it sleeps is not considered. Physical memory is taken to end a megabyte below 4 GB at most, so that the
  rounding at set up does not wrap around.
  \<^verbatim>\<open>Kmalloc\<close> is \<^verbatim>\<open>mm/kmalloc.c\<close> on top of it, with a memory of words in which the page descriptors and block headers lie.
  \<^verbatim>\<open>Kmalloc_Inv\<close> describes the areas cut into blocks, the lists threaded through them and the lists of partly used pages; \<^verbatim>\<open>Kmalloc_Ops\<close>
  and \<^verbatim>\<open>Kmalloc_Free\<close> show that \<^verbatim>\<open>kmalloc\<close> and \<^verbatim>\<open>kfree\<close> keep that invariant and every object in use; \<^verbatim>\<open>Kmalloc_Props\<close> states
  it as the contract of a heap of objects (locale \<^verbatim>\<open>object_heap\<close>), with exact success of atomic requests, and
  proves that the page cache loses pages. The addition of the header wraps around for sizes from \<^verbatim>\<open>2 ^ 32 - 8\<close> on: the contract of the heap leaves them out, the exact
  success covers them. A call
  is one step: \<^verbatim>\<open>kmalloc\<close> enables interrupts while it prepares a new page, and calls that interrupt it there are not considered.

  \<^bold>\<open>Not modelled.\<close> The scheduler and process management, virtual memory and reclaim, the file systems, networking, System V IPC,
  the stock drivers, other architectures and all assembly but the interrupt stubs: the drivers
  reach them, if at all, only through the parameters above. Delays (\<^verbatim>\<open>udelay\<close>) and debugging messages
  have no effect in the model, except where a message is the subject (\<^verbatim>\<open>Printk\<close>, \<^verbatim>\<open>Psnet_Info\<close>). The SMP variants of the code are not modelled;
  the kernel of this board is built without them.
\<close>

end
